(* ===== verification/Prelude.thy ===== *)
theory Prelude
  imports Main "HOL-Library.Word"
begin

text \<open>
  What every component of the Norn development shares: the ways a Rust operation can fail to
  return normally, the sequencing of such operations, the build profile, and the
  generic lemmas on lists and maps the component proofs use.

  A Rust operation that can panic is a function into \<open>fault + 'a\<close>: \<open>Inl\<close> is the
  failure, \<open>Inr\<close> the normal result. Mutation is explicit: an operation takes the state it
  mutates and returns the new one.
\<close>

unbundle bit_operations_syntax

named_theorems norn_defs \<open>definitions of the operations of the component at hand\<close>
named_theorems inv_defs \<open>definitions of the invariants\<close>
named_theorems inv_intros \<open>preservation of the invariants, one rule per operation\<close>

section \<open>Faults and sequencing\<close>

text \<open>
  \<open>Panic\<close> is a Rust panic (a failed \<open>assert!\<close>, \<open>unwrap\<close>, \<open>unreachable!\<close>, an index out of
  range, a \<open>RefCell\<close> borrowed twice, and, in a debug build, a failed \<open>debug_assert!\<close> or an
  arithmetic overflow); \<open>Abort\<close> is the process abort of \<open>abort_on_panic\<close>; \<open>Dangling\<close> is the use of
  a pointer to memory that is not (or no longer) a live object, which is undefined behaviour in Rust.
\<close>

datatype fault = Panic | Abort | Dangling

definition and_then :: "'e + 'a \<Rightarrow> ('a \<Rightarrow> 'e + 'b) \<Rightarrow> 'e + 'b" where
  "and_then m f = (case m of Inl e \<Rightarrow> Inl e | Inr x \<Rightarrow> f x)"

lemma and_then_simps [simp]:
  "and_then (Inl e) f = Inl e"
  "and_then (Inr x) f = f x"
  by (simp_all add: and_then_def)

lemma and_then_eq_Inr [simp]:
  "and_then m f = Inr y \<longleftrightarrow> (\<exists>x. m = Inr x \<and> f x = Inr y)"
  by (cases m) auto

lemma and_then_eq_Inl:
  "and_then m f = Inl e \<longleftrightarrow> m = Inl e \<or> (\<exists>x. m = Inr x \<and> f x = Inl e)"
  by (cases m) auto

lemma and_then_cong [fundef_cong]:
  "m = m' \<Longrightarrow> (\<And>x. m' = Inr x \<Longrightarrow> f x = g x) \<Longrightarrow> and_then m f = and_then m' g"
  by (cases m') auto

text \<open>The same for operations that may not return at all (\<open>None\<close>).\<close>

definition run_then :: "('e + 'a) option \<Rightarrow> ('a \<Rightarrow> ('e + 'b) option) \<Rightarrow> ('e + 'b) option" where
  "run_then m f = (case m of None \<Rightarrow> None | Some r \<Rightarrow> (case r of Inl e \<Rightarrow> Some (Inl e) | Inr x \<Rightarrow> f x))"

lemma run_then_simps [simp]:
  "run_then None f = None"
  "run_then (Some (Inl e)) f = Some (Inl e)"
  "run_then (Some (Inr x)) f = f x"
  by (simp_all add: run_then_def)

lemma run_then_mono [partial_function_mono]:
  assumes "mono_option B" and "\<And>y. mono_option (\<lambda>f. K y f)"
  shows "mono_option (\<lambda>f. run_then (B f) (\<lambda>y. K y f))"
proof -
  have "(\<lambda>f. run_then (B f) (\<lambda>y. K y f)) =
      (\<lambda>f. Option.bind (B f) (\<lambda>r. case r of Inl e \<Rightarrow> Some (Inl e) | Inr x \<Rightarrow> K x f))"
    by (simp add: run_then_def Option.bind_def fun_eq_iff split: option.splits)
  moreover have "mono_option (\<lambda>f. case r of Inl e \<Rightarrow> Some (Inl e) | Inr x \<Rightarrow> K x f)" for r
    using assms(2) by (cases r) (simp_all add: monotone_def fun_ord_def flat_ord_def)
  ultimately show ?thesis by (simp only:) (rule bind_mono [OF assms(1)])
qed

text \<open>A loop: a round returns a result, or goes on (\<open>None\<close>).\<close>

partial_function (option) loop_until :: "('s \<Rightarrow> ('e + ('a option \<times> 's)) option) \<Rightarrow> 's \<Rightarrow> ('e + ('a \<times> 's)) option" where
  "loop_until step s = run_then (step s) (\<lambda>(r, s). case r of Some v \<Rightarrow> Some (Inr (v, s)) | None \<Rightarrow> loop_until step s)"

declare loop_until.simps [code]

text \<open>What the last round ensures, the loop ensures, with an invariant of the rounds before.\<close>

lemma loop_until_rule:
  fixes step :: "'s \<Rightarrow> ('e + ('a option \<times> 's)) option"
  assumes "loop_until step s = Some (Inr (v, s'))" and "I s"
    and go: "\<And>s s'. I s \<Longrightarrow> step s = Some (Inr (None, s')) \<Longrightarrow> I s'"
    and ret: "\<And>s v s'. I s \<Longrightarrow> step s = Some (Inr (Some v, s')) \<Longrightarrow> Q v s'"
  shows "Q v s'"
proof -
  let ?P = "\<lambda>(st :: 's \<Rightarrow> ('e + ('a option \<times> 's)) option) (s :: 's) (r :: 'e + ('a \<times> 's)). st = step \<longrightarrow> I s \<longrightarrow> (\<forall>v s'. r = Inr (v, s') \<longrightarrow> Q v s')"
  have "?P step s (Inr (v, s'))"
  proof (rule loop_until.raw_induct [of ?P step s "Inr (v, s')", OF _ assms(1)])
    fix loop :: "('s \<Rightarrow> ('e + ('a option \<times> 's)) option) \<Rightarrow> 's \<Rightarrow> ('e + ('a \<times> 's)) option" and st s r
    assume IH: "\<And>st s r. loop st s = Some r \<Longrightarrow> ?P st s r"
      and body: "run_then (st s) (\<lambda>(r, s). case r of Some v \<Rightarrow> Some (Inr (v, s)) | None \<Rightarrow> loop st s) = Some r"
    have "Q v s'" if e: "st = step" "I s" "r = Inr (v, s')" for v s'
    proof -
      obtain o1 s1 where o1: "step s = Some (Inr (o1, s1))" using body e by (auto simp: run_then_def split: option.splits sum.splits)
      show ?thesis
      proof (cases o1)
        case None
        then have "loop st s1 = Some r" using body o1 e(1) by simp
        from IH [OF this] show ?thesis using go [OF e(2)] o1 None e by simp
      next
        case (Some u)
        then have "v = u \<and> s' = s1" using body o1 e by simp
        then show ?thesis using ret [OF e(2)] o1 Some by simp
      qed
    qed
    then show "?P st s r" by blast
  qed
  then show ?thesis using assms(2) by blast
qed

text \<open>\<open>assert!(c)\<close> panics in every build; \<open>debug_assert!(c)\<close> only where debug assertions are on.\<close>

definition assert_that :: "bool \<Rightarrow> fault + unit" where
  "assert_that c = (if c then Inr () else Inl Panic)"

definition debug_assert :: "bool \<Rightarrow> bool \<Rightarrow> fault + unit" where
  "debug_assert dbg c = (if dbg \<and> \<not> c then Inl Panic else Inr ())"

lemma assert_that_Inr [simp]: "assert_that c = Inr u \<longleftrightarrow> c"
  by (simp add: assert_that_def)

lemma assert_that_True [simp]: "c \<Longrightarrow> assert_that c = Inr ()"
  by (simp add: assert_that_def)

lemma debug_assert_Inr [simp]: "debug_assert dbg c = Inr u \<longleftrightarrow> (dbg \<longrightarrow> c)"
  by (simp add: debug_assert_def)

lemma debug_assert_True [simp]: "c \<Longrightarrow> debug_assert dbg c = Inr ()"
  by (simp add: debug_assert_def)

lemma debug_assert_release [simp]: "debug_assert False c = Inr ()"
  by (simp add: debug_assert_def)

text \<open>The result of polling a future.\<close>

datatype 'a poll = Pending | Ready 'a

section \<open>Lists and maps\<close>

lemma length_filter_update:
  assumes "i < length xs"
  shows "length (filter P (xs[i := y])) + (if P (xs ! i) then 1 else 0)
    = length (filter P xs) + (if P y then 1 else 0)"
proof -
  have upd: "xs[i := y] = take i xs @ y # drop (Suc i) xs"
    using assms by (rule upd_conv_take_nth_drop)
  have "xs = take i xs @ xs ! i # drop (Suc i) xs"
    using assms by (rule id_take_nth_drop)
  then have "length (filter P xs) = length (filter P (take i xs @ xs ! i # drop (Suc i) xs))"
    by simp
  with upd show ?thesis by simp
qed

lemma nth_update_if:
  "j < length xs \<Longrightarrow> xs[i := y] ! j = (if i = j then y else xs ! j)"
  by (simp add: nth_list_update)

lemma set_concat_nth:
  "x \<in> set (concat xss) \<longleftrightarrow> (\<exists>i < length xss. x \<in> set (xss ! i))"
  by simp (metis in_set_conv_nth)

lemma distinct_remove1_iff [simp]:
  "distinct xs \<Longrightarrow> x \<notin> set (remove1 x xs)"
  by simp

lemma count_list_remove1:
  "count_list (remove1 x xs) y = (if x = y then count_list xs y - 1 else count_list xs y)"
  by (induction xs) (auto simp: count_list_0_iff)

lemma count_list_pos: "x \<in> set xs \<Longrightarrow> 0 < count_list xs x"
  by (metis count_list_0_iff neq0_conv)

lemma count_list_distinct: "(\<And>x. count_list xs x \<le> 1) \<Longrightarrow> distinct xs"
proof (induction xs)
  case (Cons y ys)
  have "count_list ys x \<le> 1" for x
    using Cons.prems [of x] by (simp split: if_splits)
  moreover have "y \<notin> set ys"
    using Cons.prems [of y] by (simp add: count_list_0_iff)
  ultimately show ?case using Cons.IH by simp
qed simp

end
