(* ===== verification/Intrusive_List.thy ===== *)
theory Intrusive_List
  imports Prelude
begin

text \<open>
  The doubly linked intrusive list of the crate \<open>cordyceps\<close> (\<open>cordyceps::List\<close>), which links the
  timer entries, the registered tasks and the waiters of a \<open>Notify\<close>. Its code is not part of the
  repository, so its operations are a parameter of the model: a record \<open>env\<close>, passed to every
  definition that uses them, with the build profile (\<open>debug_assertions\<close>) beside them. The state of a
  list is the sequence of the handles linked into it, front first; a handle is the address of the
  element, a natural number. The documented behaviour of the operations is the locale \<open>linked_list\<close>.
\<close>

record env =
  debug_assertions :: bool
  list_new :: "nat list"
  push_front :: "nat \<Rightarrow> nat list \<Rightarrow> nat list"
  push_back :: "nat \<Rightarrow> nat list \<Rightarrow> nat list"
  pop_front :: "nat list \<Rightarrow> nat option \<times> nat list"
  list_remove :: "nat \<Rightarrow> nat list \<Rightarrow> nat option \<times> nat list"
  split_off :: "nat \<Rightarrow> nat list \<Rightarrow> nat list \<times> nat list"
  list_is_empty :: "nat list \<Rightarrow> bool"
  into_iter :: "nat list \<Rightarrow> nat list"

text \<open>
  \<open>remove\<close> returns the handle if the element was in the list and \<open>None\<close> otherwise;
  \<open>split_off(at)\<close> leaves the first \<open>at\<close> elements and returns the rest; iteration by value yields the
  elements front to back.
\<close>

locale linked_list =
  fixes C :: env
  assumes list_new_law: "list_new C = []"
    and push_front_law: "push_front C x xs = x # xs"
    and push_back_law: "push_back C x xs = xs @ [x]"
    and pop_front_law: "pop_front C xs = (case xs of [] \<Rightarrow> (None, []) | y # ys \<Rightarrow> (Some y, ys))"
    and list_remove_law: "distinct xs \<Longrightarrow> list_remove C x xs =
        (if x \<in> set xs then (Some x, remove1 x xs) else (None, xs))"
    and split_off_law: "n \<le> length xs \<Longrightarrow> split_off C n xs = (take n xs, drop n xs)"
    and list_is_empty_law: "list_is_empty C xs \<longleftrightarrow> xs = []"
    and into_iter_law: "into_iter C xs = xs"
begin

lemmas list_laws = list_new_law push_front_law push_back_law pop_front_law list_remove_law
  split_off_law list_is_empty_law into_iter_law

lemma split_off_0: "split_off C 0 xs = ([], xs)"
  by (simp add: split_off_law)

lemma push_back_pop_front_fifo:
  "pop_front C (push_back C x xs) =
     (case xs of [] \<Rightarrow> (Some x, []) | y # ys \<Rightarrow> (Some y, push_back C x ys))"
  by (simp add: list_laws split: list.splits)

end

text \<open>
  The sequence implementation of the interface, in a release (\<open>seq_env False\<close>) or a debug build:
  the instance on which the witnesses of the development evaluate.
\<close>

definition seq_env :: "bool \<Rightarrow> env" where
  "seq_env dbg = \<lparr> debug_assertions = dbg, list_new = [],
     push_front = (\<lambda>x xs. x # xs), push_back = (\<lambda>x xs. xs @ [x]),
     pop_front = (\<lambda>xs. case xs of [] \<Rightarrow> (None, []) | y # ys \<Rightarrow> (Some y, ys)),
     list_remove = (\<lambda>x xs. if x \<in> set xs then (Some x, remove1 x xs) else (None, xs)),
     split_off = (\<lambda>n xs. (take n xs, drop n xs)),
     list_is_empty = (\<lambda>xs. xs = []), into_iter = (\<lambda>xs. xs) \<rparr>"

lemma seq_env_simps [simp]:
  "debug_assertions (seq_env dbg) = dbg"
  "list_new (seq_env dbg) = []"
  "push_front (seq_env dbg) x xs = x # xs"
  "push_back (seq_env dbg) x xs = xs @ [x]"
  "pop_front (seq_env dbg) xs = (case xs of [] \<Rightarrow> (None, []) | y # ys \<Rightarrow> (Some y, ys))"
  "list_remove (seq_env dbg) x xs = (if x \<in> set xs then (Some x, remove1 x xs) else (None, xs))"
  "split_off (seq_env dbg) n xs = (take n xs, drop n xs)"
  "list_is_empty (seq_env dbg) xs \<longleftrightarrow> xs = []"
  "into_iter (seq_env dbg) xs = xs"
  by (simp_all add: seq_env_def)

interpretation seq: linked_list "seq_env dbg" for dbg
  by unfold_locales (auto split: list.splits)

lemma linked_list_seq_env [simp]: "linked_list (seq_env dbg)"
  by (rule seq.linked_list_axioms)

end
