(* ===== verification/Rust_Int.thy ===== *)
theory Rust_Int
  imports Prelude
begin

text \<open>
  Rust's fixed-width unsigned integers as words, and the operations of the standard library on them
  that Norn uses: arithmetic that panics on overflow in a debug build and wraps in a release build,
  \<open>checked_add\<close>, \<open>saturating_sub\<close>, \<open>leading_zeros\<close>, \<open>trailing_zeros\<close> and \<open>rotate_right\<close>. The lemmas read
  them as numbers (\<open>unat\<close>) and as bits.
\<close>

type_synonym u8 = "8 word"
type_synonym u16 = "16 word"
type_synonym u32 = "32 word"
type_synonym u64 = "64 word"
type_synonym usize = "64 word"
type_synonym i32 = "32 word"

section \<open>Overflowing, checked and saturating arithmetic\<close>

definition add_word :: "bool \<Rightarrow> 'a::len word \<Rightarrow> 'a word \<Rightarrow> fault + 'a word" where
  "add_word dbg a b =
     (if dbg \<and> 2 ^ LENGTH('a) \<le> unat a + unat b then Inl Panic else Inr (a + b))"

definition mul_word :: "bool \<Rightarrow> 'a::len word \<Rightarrow> 'a word \<Rightarrow> fault + 'a word" where
  "mul_word dbg a b =
     (if dbg \<and> 2 ^ LENGTH('a) \<le> unat a * unat b then Inl Panic else Inr (a * b))"

definition sub_word :: "bool \<Rightarrow> 'a::len word \<Rightarrow> 'a word \<Rightarrow> fault + 'a word" where
  "sub_word dbg a b = (if dbg \<and> a < b then Inl Panic else Inr (a - b))"

definition checked_add :: "'a::len word \<Rightarrow> 'a word \<Rightarrow> 'a word option" where
  "checked_add a b = (if unat a + unat b < 2 ^ LENGTH('a) then Some (a + b) else None)"

definition saturating_sub :: "'a::len word \<Rightarrow> 'a word \<Rightarrow> 'a word" where
  "saturating_sub a b = (if a < b then 0 else a - b)"

text \<open>The overflow tests over binary integers, which evaluation uses.\<close>

lemma int_code [code]:
  "add_word dbg a b = (if dbg \<and> 2 ^ LENGTH('a) \<le> uint a + uint b then Inl Panic else Inr (a + b :: 'a::len word))"
  "mul_word dbg a b = (if dbg \<and> 2 ^ LENGTH('a) \<le> uint a * uint b then Inl Panic else Inr (a * b :: 'a::len word))"
  "checked_add a b = (if uint a + uint b < 2 ^ LENGTH('a) then Some (a + b :: 'a::len word) else None)"
proof -
  have add: "(2 ^ LENGTH('a) \<le> unat a + unat b) = ((2 :: int) ^ LENGTH('a) \<le> uint a + uint b)"
    using of_nat_le_iff [of "2 ^ LENGTH('a)" "unat a + unat b", where 'a = int]
    by (simp only: of_nat_add of_nat_power of_nat_numeral uint_nat)
  have mul: "(2 ^ LENGTH('a) \<le> unat a * unat b) = ((2 :: int) ^ LENGTH('a) \<le> uint a * uint b)"
    using of_nat_le_iff [of "2 ^ LENGTH('a)" "unat a * unat b", where 'a = int]
    by (simp only: of_nat_mult of_nat_power of_nat_numeral uint_nat)
  show "add_word dbg a b = (if dbg \<and> 2 ^ LENGTH('a) \<le> uint a + uint b then Inl Panic else Inr (a + b))"
    "mul_word dbg a b = (if dbg \<and> 2 ^ LENGTH('a) \<le> uint a * uint b then Inl Panic else Inr (a * b))"
    "checked_add a b = (if uint a + uint b < 2 ^ LENGTH('a) then Some (a + b) else None)"
    by (simp_all only: add_word_def mul_word_def checked_add_def not_le [symmetric] add mul if_not_P)
qed

lemma unat_add_no_overflow:
  fixes a b :: "'a::len word"
  shows "unat a + unat b < 2 ^ LENGTH('a) \<Longrightarrow> unat (a + b) = unat a + unat b"
  by (simp add: unat_word_ariths)

lemma unat_mult_no_overflow:
  fixes a b :: "'a::len word"
  shows "unat a * unat b < 2 ^ LENGTH('a) \<Longrightarrow> unat (a * b) = unat a * unat b"
  by (simp add: unat_word_ariths)

lemma add_word_no_overflow:
  fixes a b :: "'a::len word"
  assumes "unat a + unat b < 2 ^ LENGTH('a)"
  shows "add_word dbg a b = Inr (a + b) \<and> unat (a + b) = unat a + unat b"
  using assms by (simp add: add_word_def unat_add_no_overflow)

lemma mul_word_no_overflow:
  fixes a b :: "'a::len word"
  assumes "unat a * unat b < 2 ^ LENGTH('a)"
  shows "mul_word dbg a b = Inr (a * b) \<and> unat (a * b) = unat a * unat b"
  using assms by (simp add: mul_word_def unat_mult_no_overflow)

lemma add_word_release [simp]: "add_word False a b = Inr (a + b)"
  by (simp add: add_word_def)

lemma sub_word_Inr: "b \<le> a \<Longrightarrow> sub_word dbg a b = Inr (a - b)"
  by (auto simp: sub_word_def)

lemma unat_sub_le: "b \<le> (a :: 'a::len word) \<Longrightarrow> unat (a - b) = unat a - unat b"
  by (simp add: unat_sub)

text \<open>A conversion to a wider type keeps the value; one to a narrower type keeps it if it fits.\<close>

lemma unat_ucast_wider: "unat (ucast (n :: u32) :: u64) = unat n"
proof -
  have "unat n < 2 ^ 32" using unsigned_less [of n] by simp
  then show ?thesis by (simp add: unsigned_ucast_eq take_bit_nat_eq_self)
qed

lemma unat_ucast_fits: "unat (n :: u64) < 2 ^ 32 \<Longrightarrow> unat (ucast n :: u32) = unat n"
  by (simp add: unsigned_ucast_eq take_bit_nat_eq_self)

lemma unat_saturating_sub: "unat (saturating_sub a b) = unat a - unat b"
  by (auto simp: saturating_sub_def unat_sub word_less_nat_alt not_less word_le_nat_alt)

section \<open>Leading and trailing zeros\<close>

text \<open>Scanning from the top (bit \<open>n - 1\<close>) down, and from bit \<open>i\<close> up, counting unset bits.\<close>

fun count_down :: "nat \<Rightarrow> u64 \<Rightarrow> nat" where
  "count_down 0 w = 0"
| "count_down (Suc n) w = (if bit w n then 0 else Suc (count_down n w))"

fun count_up :: "nat \<Rightarrow> u64 \<Rightarrow> nat \<Rightarrow> nat" where
  "count_up 0 w i = 0"
| "count_up (Suc n) w i = (if bit w i then 0 else Suc (count_up n w (Suc i)))"

definition leading_zeros :: "u64 \<Rightarrow> nat" where
  "leading_zeros w = count_down 64 w"

definition trailing_zeros :: "u64 \<Rightarrow> nat" where
  "trailing_zeros w = count_up 64 w 0"

definition rotate_right :: "u64 \<Rightarrow> u32 \<Rightarrow> u64" where
  "rotate_right w n = word_rotr (unat n) w"

lemma count_down_le: "count_down n w \<le> n"
  by (induction n) auto

lemma count_down_zero: "i < n \<Longrightarrow> n - count_down n w \<le> i \<Longrightarrow> \<not> bit w i"
proof (induction n)
  case 0
  then show ?case by simp
next
  case (Suc n)
  then show ?case by (auto split: if_splits simp: less_Suc_eq)
qed

lemma count_down_bit: "count_down n w < n \<Longrightarrow> bit w (n - 1 - count_down n w)"
  by (induction n) (auto split: if_splits)

lemma bit_u64_lt: "bit (w :: u64) i \<Longrightarrow> i < 64"
  using bit_imp_le_length [of w i] by simp

lemma leading_zeros_lt: "w \<noteq> 0 \<Longrightarrow> leading_zeros w < 64"
proof (rule ccontr)
  assume nz: "w \<noteq> 0" and "\<not> leading_zeros w < 64"
  then have "count_down 64 w = 64"
    using count_down_le [of 64 w] by (simp add: leading_zeros_def)
  then have "\<And>i. i < 64 \<Longrightarrow> \<not> bit w i"
    using count_down_zero [of _ 64 w] by simp
  then have "w = 0"
    by (intro bit_eqI) (auto dest: bit_u64_lt)
  with nz show False by simp
qed

text \<open>The position of the highest set bit: the top bit is below \<open>n\<close> exactly where the word is below \<open>2 ^ n\<close>.\<close>

lemma top_bit_less_iff:
  assumes "w \<noteq> 0"
  shows "63 - leading_zeros w < n \<longleftrightarrow> drop_bit n w = 0"
proof
  let ?k = "count_down 64 w"
  have k: "?k < 64" using leading_zeros_lt [OF assms] by (simp add: leading_zeros_def)
  assume "63 - leading_zeros w < n"
  then have "64 - ?k \<le> n" using k by (simp add: leading_zeros_def)
  then have "\<not> bit w (n + i)" for i
    using count_down_zero [of "n + i" 64 w] bit_u64_lt [of w "n + i"] by auto
  then show "drop_bit n w = 0"
    by (intro bit_eqI) (simp add: bit_drop_bit_eq)
next
  let ?k = "count_down 64 w"
  have k: "?k < 64" using leading_zeros_lt [OF assms] by (simp add: leading_zeros_def)
  assume drop: "drop_bit n w = 0"
  show "63 - leading_zeros w < n"
  proof (rule ccontr)
    assume "\<not> 63 - leading_zeros w < n"
    then have "n \<le> 63 - ?k" by (simp add: leading_zeros_def)
    then have "n + (63 - ?k - n) = 63 - ?k" by (rule le_add_diff_inverse)
    moreover have "bit w (63 - ?k)" using count_down_bit [OF k] by simp
    ultimately have "bit w (n + (63 - ?k - n))" by (simp only:)
    then have "bit (drop_bit n w) (63 - ?k - n)" by (simp only: bit_drop_bit_eq comp_def)
    with drop show False by simp
  qed
qed

lemma count_up_le: "count_up n w i \<le> n"
  by (induction n arbitrary: i) auto

lemma count_up_before: "j < count_up n w i \<Longrightarrow> \<not> bit w (i + j)"
proof (induction n arbitrary: i j)
  case 0
  then show ?case by simp
next
  case (Suc n)
  show ?case
  proof (cases j)
    case 0
    with Suc.prems show ?thesis by (auto split: if_splits)
  next
    case (Suc j')
    with Suc.prems have "j' < count_up n w (Suc i)" by (auto split: if_splits)
    from Suc.IH [OF this] Suc show ?thesis by simp
  qed
qed

lemma count_up_bit: "count_up n w i < n \<Longrightarrow> bit w (i + count_up n w i)"
proof (induction n arbitrary: i)
  case 0
  then show ?case by simp
next
  case (Suc n)
  then show ?case using Suc.IH [of "Suc i"] by (auto split: if_splits)
qed

lemma trailing_zeros_before: "j < trailing_zeros w \<Longrightarrow> \<not> bit w j"
  using count_up_before [of j 64 w 0] by (simp add: trailing_zeros_def)

lemma trailing_zeros_lt: "w \<noteq> 0 \<Longrightarrow> trailing_zeros w < 64"
proof (rule ccontr)
  assume nz: "w \<noteq> 0" and "\<not> trailing_zeros w < 64"
  then have "\<And>i. i < 64 \<Longrightarrow> \<not> bit w i"
    using trailing_zeros_before [of _ w] by simp
  then have "w = 0"
    by (intro bit_eqI) (auto dest: bit_u64_lt)
  with nz show False by simp
qed

lemma trailing_zeros_bit: "w \<noteq> 0 \<Longrightarrow> bit w (trailing_zeros w)"
  using count_up_bit [of 64 w 0] trailing_zeros_lt [of w] by (simp add: trailing_zeros_def)

lemma bit_rotate_right:
  "bit (rotate_right w n) i \<longleftrightarrow> i < 64 \<and> bit w ((i + unat n) mod 64)"
  by (simp add: rotate_right_def bit_word_rotr_iff)

section \<open>Flags\<close>

text \<open>A bit flag is contained in a byte exactly if its bit is set.\<close>

lemma and_flag_iff:
  fixes x f :: u8
  assumes "\<And>n. bit f n \<longleftrightarrow> n = k" and "k < 8"
  shows "x AND f = f \<longleftrightarrow> bit x k"
proof
  assume "x AND f = f"
  then have "bit (x AND f) k" using assms by simp
  then show "bit x k" by (simp add: bit_and_iff)
qed (auto simp: assms bit_and_iff intro!: bit_eqI)

end
