(* ===== verification/Timer_Entry.thy ===== *)
theory Timer_Entry
  imports Intrusive_List Rust_Int
begin

text \<open>
  The timer entry of \<open>norn-timer/src/entry.rs\<close>: the node a \<open>Sleep\<close> future links into the timer
  wheel, its three states and the operations on one entry. A \<open>Sleep\<close> is its entry and its duration;
  the sleeps that are alive are a heap, a map from the address of the pinned entry to the sleep, so
  that a handle the wheel keeps to a dropped sleep would be a lookup that fails (\<open>Dangling\<close>).
  A waker is an opaque number; waking it appends it to a log.
\<close>

datatype timer_error = Timer_Shutdown

type_synonym completion = "timer_error + unit"

datatype entry_state = Unregistered | Registered | Fired

record entry =
  en_state :: entry_state
  en_waker :: "nat option"
  en_complete :: completion
  en_deadline :: u64

record sleep =
  sl_entry :: entry
  sl_duration :: nat \<comment> \<open>\<open>std::time::Duration\<close>, in nanoseconds\<close>

type_synonym sleeps = "nat \<rightharpoonup> sleep"

definition entry_new :: entry where
  "entry_new = \<lparr> en_state = Unregistered, en_waker = None, en_complete = Inr (), en_deadline = 0 \<rparr>"

definition sleep_new :: "nat \<Rightarrow> sleep" where
  "sleep_new d = \<lparr> sl_entry = entry_new, sl_duration = d \<rparr>"

definition is_registered :: "entry \<Rightarrow> bool" where
  "is_registered e \<longleftrightarrow> en_state e = Registered"

definition expiration :: "env \<Rightarrow> entry \<Rightarrow> fault + u64" where
  "expiration C e =
     and_then (debug_assert (debug_assertions C) (is_registered e)) (\<lambda>_. Inr (en_deadline e))"

definition set_registered :: "env \<Rightarrow> u64 \<Rightarrow> entry \<Rightarrow> fault + entry" where
  "set_registered C tick e =
     and_then (debug_assert (debug_assertions C) (\<not> is_registered e))
       (\<lambda>_. Inr (e\<lparr>en_state := Registered, en_deadline := tick\<rparr>))"

text \<open>\<open>Entry::fire\<close>: the entry after it, and the waker it woke.\<close>

definition fire_entry :: "completion \<Rightarrow> entry \<Rightarrow> entry \<times> nat list" where
  "fire_entry c e =
     (e\<lparr>en_state := Fired, en_complete := c, en_waker := None\<rparr>,
      case en_waker e of None \<Rightarrow> [] | Some k \<Rightarrow> [k])"

text \<open>Dereferencing a handle (\<open>NonNull::as_ref\<close>).\<close>

definition entry_at :: "sleeps \<Rightarrow> nat \<Rightarrow> fault + entry" where
  "entry_at m i = (case m i of None \<Rightarrow> Inl Dangling | Some s \<Rightarrow> Inr (sl_entry s))"

definition set_entry :: "nat \<Rightarrow> entry \<Rightarrow> sleeps \<Rightarrow> sleeps" where
  "set_entry i e m = (case m i of None \<Rightarrow> m | Some s \<Rightarrow> m(i \<mapsto> s\<lparr>sl_entry := e\<rparr>))"

definition expiration_of :: "env \<Rightarrow> sleeps \<Rightarrow> nat \<Rightarrow> fault + u64" where
  "expiration_of C m i = and_then (entry_at m i) (expiration C)"

section \<open>Facts about one entry\<close>

lemma entry_at_Inr [simp]: "entry_at m i = Inr e \<longleftrightarrow> (\<exists>s. m i = Some s \<and> e = sl_entry s)"
  by (auto simp: entry_at_def split: option.splits)

lemma set_entry_same [simp]: "m i = Some s \<Longrightarrow> set_entry i e m i = Some (s\<lparr>sl_entry := e\<rparr>)"
  by (simp add: set_entry_def)

lemma set_entry_other [simp]: "j \<noteq> i \<Longrightarrow> set_entry i e m j = m j"
  by (simp add: set_entry_def split: option.splits)

lemma dom_set_entry [simp]: "dom (set_entry i e m) = dom m"
  by (auto simp: set_entry_def split: option.splits if_splits)

lemma fire_entry_simps [simp]:
  "en_state (fst (fire_entry c e)) = Fired"
  "en_complete (fst (fire_entry c e)) = c"
  "en_waker (fst (fire_entry c e)) = None"
  "en_deadline (fst (fire_entry c e)) = en_deadline e"
  by (simp_all add: fire_entry_def)

lemma expiration_of_registered [simp]:
  "m i = Some s \<Longrightarrow> en_state (sl_entry s) = Registered \<Longrightarrow>
   expiration_of C m i = Inr (en_deadline (sl_entry s))"
  by (simp add: expiration_of_def entry_at_def expiration_def is_registered_def)

text \<open>
  An entry moves through its states in one direction: the order on states is the order of the
  life of an entry, and every operation of the timer moves entries up.
\<close>

instantiation entry_state :: linorder
begin

fun rank_entry_state :: "entry_state \<Rightarrow> nat" where
  "rank_entry_state Unregistered = 0"
| "rank_entry_state Registered = 1"
| "rank_entry_state Fired = 2"

definition less_eq_entry_state :: "entry_state \<Rightarrow> entry_state \<Rightarrow> bool" where
  "less_eq_entry_state a b \<longleftrightarrow> rank_entry_state a \<le> rank_entry_state b"

definition less_entry_state :: "entry_state \<Rightarrow> entry_state \<Rightarrow> bool" where
  "less_entry_state a b \<longleftrightarrow> rank_entry_state a < rank_entry_state b"

instance
proof
  fix x y :: entry_state
  show "x \<le> y \<Longrightarrow> y \<le> x \<Longrightarrow> x = y"
    by (cases x; cases y) (simp_all add: less_eq_entry_state_def)
qed (auto simp: less_eq_entry_state_def less_entry_state_def)

end

lemma le_Fired [simp]: "(s :: entry_state) \<le> Fired"
  by (cases s) (simp_all add: less_eq_entry_state_def)

lemma Unregistered_le [simp]: "Unregistered \<le> (s :: entry_state)"
  by (simp add: less_eq_entry_state_def)

end
