(* ===== verification/Timer_Arith.thy ===== *)
theory Timer_Arith
  imports Main
begin

text \<open>
  The arithmetic of a hierarchical timer wheel with six levels of base-64 digits, on natural numbers:
  the level of a deadline \<open>d\<close> at time \<open>E\<close> is the position of the highest digit in which they differ
  (capped at the top level), its slot is that digit, and its slot starts at \<open>slot_start E d\<close>.
  The facts here are what makes the wheel correct: as long as time stays before the start of its
  slot, a deadline keeps its level and slot.
\<close>

definition agree :: "nat \<Rightarrow> nat \<Rightarrow> nat \<Rightarrow> bool" where
  "agree j a b \<longleftrightarrow> a div 64 ^ j = b div 64 ^ j"

definition level_of :: "nat \<Rightarrow> nat \<Rightarrow> nat" where
  "level_of E d =
     (if agree 1 E d then 0 else if agree 2 E d then 1 else if agree 3 E d then 2
      else if agree 4 E d then 3 else if agree 5 E d then 4 else 5)"

definition slot_of :: "nat \<Rightarrow> nat \<Rightarrow> nat" where
  "slot_of k d = d div 64 ^ k mod 64"

definition slot_start :: "nat \<Rightarrow> nat \<Rightarrow> nat" where
  "slot_start E d = d div 64 ^ level_of E d * 64 ^ level_of E d"

text \<open>A deadline is in the window of the wheel when its top-level slot is less than one rotation away.\<close>

definition in_window :: "nat \<Rightarrow> nat \<Rightarrow> bool" where
  "in_window E d \<longleftrightarrow> d div 64 ^ 5 < E div 64 ^ 5 + 64"

lemma level_of_lt: "level_of E d < 6"
  by (simp add: level_of_def)

lemma slot_of_lt: "slot_of k d < 64"
  by (simp add: slot_of_def)

text \<open>Agreement of two numbers above a digit is inherited by every higher digit.\<close>

lemma agree_mono:
  assumes "agree i a b" and "i \<le> j"
  shows "agree j a b"
proof -
  have split: "(64 :: nat) ^ j = 64 ^ i * 64 ^ (j - i)"
    using assms(2) by (simp flip: power_add)
  have "x div 64 ^ j = x div 64 ^ i div 64 ^ (j - i)" for x :: nat
    by (simp only: split div_mult2_eq)
  then show ?thesis using assms(1) by (simp add: agree_def)
qed

lemma agree_Suc: "agree (Suc k) a b \<longleftrightarrow> a div 64 ^ k div 64 = b div 64 ^ k div 64"
proof -
  have "x div 64 ^ Suc k = x div 64 ^ k div 64" for x :: nat
    using div_mult2_eq [of x "64 ^ k" 64] by (simp only: power_Suc2)
  then show ?thesis by (simp only: agree_def)
qed

text \<open>The level is the least digit above which the two numbers agree, or the top level.\<close>

lemma level_of_Suc: "level_of E d < 5 \<Longrightarrow> agree (Suc (level_of E d)) E d"
  by (auto simp: level_of_def numeral_eq_Suc)

lemma level_of_below:
  assumes "level_of E d = k" and "k < j" and "j \<le> 5"
  shows "agree j E d"
  using agree_mono [OF level_of_Suc, of E d j] assms by simp

lemma level_of_differs:
  assumes "level_of E d = k" and "E < d"
  shows "E div 64 ^ k < d div 64 ^ k"
proof -
  have "\<not> agree k E d"
  proof (cases "k = 0")
    case True
    then show ?thesis using assms(2) by (simp add: agree_def)
  next
    case False
    then show ?thesis using assms(1) by (auto simp: level_of_def split: if_splits)
  qed
  moreover have "E div 64 ^ k \<le> d div 64 ^ k"
    using assms(2) by (intro div_le_mono) simp
  ultimately show ?thesis by (simp add: agree_def)
qed

text \<open>The two facts above determine the level.\<close>

lemma level_of_eqI:
  assumes "k \<le> 5" and "\<not> agree k E d" and "k < 5 \<Longrightarrow> agree (Suc k) E d"
  shows "level_of E d = k"
proof -
  have ne: "j \<le> k \<Longrightarrow> \<not> agree j E d" for j
    using assms(2) agree_mono by blast
  have "k \<in> {0, 1, 2, 3, 4, 5}" using assms(1) by auto
  then show ?thesis
    using ne [of 1] ne [of 2] ne [of 3] ne [of 4] ne [of 5] assms(2,3)
    by (auto simp: level_of_def numeral_eq_Suc)
qed

lemma slot_start_le: "slot_start E d \<le> d"
  by (simp add: slot_start_def)

lemma lt_slot_start_iff:
  assumes "level_of E d = k"
  shows "X < slot_start E d \<longleftrightarrow> X div 64 ^ k < d div 64 ^ k"
proof -
  have "(0 :: nat) < 64 ^ k" by simp
  from div_less_iff_less_mult [OF this, of X "d div 64 ^ k"] show ?thesis
    unfolding slot_start_def assms by (rule sym)
qed

lemma now_lt_slot_start: "E < d \<Longrightarrow> E < slot_start E d"
  using lt_slot_start_iff [OF refl] level_of_differs [OF refl] by blast

text \<open>
  Time may move on to any point before the start of a deadline's slot: its level, slot and window
  stay the same.
\<close>

lemma level_of_advance:
  assumes "E \<le> X" and "E < d" and "X < slot_start E d"
  shows "level_of X d = level_of E d" and "X < d"
proof -
  let ?k = "level_of E d"
  show lt: "X < d" using assms(3) slot_start_le less_le_trans by blast
  have ne: "\<not> agree ?k X d"
    using assms(3) by (simp add: lt_slot_start_iff [OF refl] agree_def)
  have eq: "agree (Suc ?k) X d" if "?k < 5"
  proof -
    have "X div 64 ^ Suc ?k \<le> d div 64 ^ Suc ?k"
      using lt by (intro div_le_mono) simp
    moreover have "E div 64 ^ Suc ?k \<le> X div 64 ^ Suc ?k"
      using assms(1) by (intro div_le_mono)
    ultimately show ?thesis
      using level_of_Suc [OF that] unfolding agree_def by linarith
  qed
  show "level_of X d = ?k"
    using level_of_lt [of E d] by (intro level_of_eqI ne eq) simp_all
qed

lemma slot_start_advance:
  "E \<le> X \<Longrightarrow> E < d \<Longrightarrow> X < slot_start E d \<Longrightarrow> slot_start X d = slot_start E d"
  by (simp add: slot_start_def level_of_advance)

lemma in_window_advance: "in_window E d \<Longrightarrow> E \<le> X \<Longrightarrow> in_window X d"
  using div_le_mono [of E X "64 ^ 5"] by (simp add: in_window_def)

text \<open>Deadlines of a lower level start before those of a higher level.\<close>

lemma slot_start_level_less:
  assumes "E < d" and "E < d'" and "level_of E d < level_of E d'"
  shows "slot_start E d < slot_start E d'"
proof -
  let ?k = "level_of E d" and ?j = "level_of E d'"
  have "slot_start E d div 64 ^ ?j \<le> d div 64 ^ ?j"
    by (intro div_le_mono slot_start_le)
  also have "\<dots> = E div 64 ^ ?j"
    using level_of_below [OF refl assms(3)] level_of_lt [of E d'] by (simp add: agree_def)
  also have "\<dots> < d' div 64 ^ ?j"
    using level_of_differs [OF refl assms(2)] .
  finally show ?thesis by (simp only: lt_slot_start_iff [OF refl])
qed

text \<open>Within one level, the slot start is a function of the slot, increasing in its distance.\<close>

definition slot_dist :: "nat \<Rightarrow> nat \<Rightarrow> nat \<Rightarrow> nat" where
  "slot_dist E k s = (s + (64 - E div 64 ^ k mod 64)) mod 64"

lemma mod_dist:
  assumes "(q :: nat) < p" and "p < q + 64"
  shows "(p mod 64 + (64 - q mod 64)) mod 64 = p - q"
proof -
  have lt: "q mod 64 < 64" by simp
  have shift: "p + (64 - b) = (p - q) + 64 * (a + 1)" if "64 * a + b = q" "b < 64" for a b
    using that assms(1) by arith
  have "(p mod 64 + (64 - q mod 64)) mod 64 = (p + (64 - q mod 64)) mod 64"
    by (rule mod_add_left_eq)
  also have "p + (64 - q mod 64) = (p - q) + 64 * (q div 64 + 1)"
    using shift [OF mult_div_mod_eq lt] .
  also have "((p - q) + 64 * (q div 64 + 1)) mod 64 = (p - q) mod 64"
    by (rule mod_mult_self2)
  also have "\<dots> = p - q" using assms by simp
  finally show ?thesis .
qed

lemma level_of_digits:
  assumes "E < d" and "in_window E d" and "level_of E d = k"
  shows "E div 64 ^ k < d div 64 ^ k" and "d div 64 ^ k < E div 64 ^ k + 64"
proof -
  show "E div 64 ^ k < d div 64 ^ k" by (rule level_of_differs [OF assms(3,1)])
  show "d div 64 ^ k < E div 64 ^ k + 64"
  proof (cases "k = 5")
    case True
    then show ?thesis using assms(2) by (simp add: in_window_def)
  next
    case False
    then have "k < 5" using level_of_lt [of E d] assms(3) by simp
    then have "E div 64 ^ k div 64 = d div 64 ^ k div 64"
      using level_of_below [OF assms(3), of "Suc k"] by (simp add: agree_Suc)
    then show ?thesis
      using div_mult_mod_eq [of "d div 64 ^ k" 64] div_mult_mod_eq [of "E div 64 ^ k" 64]
        mod_less_divisor [of 64 "d div 64 ^ k"] by linarith
  qed
qed

lemma slot_dist_of:
  assumes "E < d" and "in_window E d" and "level_of E d = k"
  shows "slot_dist E k (slot_of k d) = d div 64 ^ k - E div 64 ^ k"
  using mod_dist [OF level_of_digits [OF assms]] by (simp add: slot_dist_def slot_of_def)

lemma slot_dist_pos:
  assumes "E < d" and "in_window E d" and "level_of E d = k"
  shows "0 < slot_dist E k (slot_of k d)"
  using slot_dist_of [OF assms] level_of_digits [OF assms] by simp

lemma slot_start_dist:
  assumes "E < d" and "in_window E d" and "level_of E d = k"
  shows "slot_start E d = (E div 64 ^ k + slot_dist E k (slot_of k d)) * 64 ^ k"
  using slot_dist_of [OF assms] level_of_digits [OF assms] assms(3)
  by (simp add: slot_start_def)

text \<open>Below the top level no occupied slot lies at or before the current one in the rotation.\<close>

lemma slot_of_ahead:
  assumes "E < d" and "level_of E d = k" and "k < 5"
  shows "E div 64 ^ k mod 64 < slot_of k d"
proof -
  have "E div 64 ^ k div 64 = d div 64 ^ k div 64"
    using level_of_below [OF assms(2), of "Suc k"] assms(3) by (simp add: agree_Suc)
  moreover have "E div 64 ^ k < d div 64 ^ k"
    by (rule level_of_differs [OF assms(2,1)])
  ultimately show ?thesis
    unfolding slot_of_def
    using div_mult_mod_eq [of "d div 64 ^ k" 64] div_mult_mod_eq [of "E div 64 ^ k" 64] by linarith
qed

end
