(* ===== verification/Timer_Level.thy ===== *)
theory Timer_Level
  imports Timer_Entry Timer_Arith
begin

text \<open>
  One level of the timer wheel (\<open>norn-timer/src/level.rs\<close>): 64 slots, each a list of entries, and a
  bitfield with one bit per slot that is not empty. Level \<open>l\<close> has slots of \<open>64 ^ l\<close> ticks. The
  functions that compute a level (\<open>wheel_for\<close>, of \<open>norn-timer/src/wheels.rs\<close>) and a slot from a deadline
  are here too, with the characterisation of both as numbers.
\<close>

abbreviation (input) LEVEL_MULT :: nat where
  "LEVEL_MULT \<equiv> 64"

abbreviation (input) NUM_LEVELS :: nat where
  "NUM_LEVELS \<equiv> 6"

definition MAX_DURATION :: u64 where
  "MAX_DURATION = push_bit (NUM_LEVELS ^ 2) 1 - 1"

record level =
  lv_level :: nat
  lv_bitfield :: u64
  lv_slots :: "nat list list"

record expiry = \<comment> \<open>\<open>Expiration\<close>\<close>
  ex_level :: nat
  ex_slot :: nat
  ex_deadline :: u64

definition level_new :: "env \<Rightarrow> nat \<Rightarrow> level" where
  "level_new C l =
     \<lparr> lv_level = l, lv_bitfield = 0, lv_slots = replicate LEVEL_MULT (list_new C) \<rparr>"

definition slot_range :: "nat \<Rightarrow> u64" where
  "slot_range l = of_nat LEVEL_MULT ^ l"

definition level_range :: "nat \<Rightarrow> u64" where
  "level_range l = of_nat LEVEL_MULT * slot_range l"

definition slot_for :: "u64 \<Rightarrow> nat \<Rightarrow> nat" where
  "slot_for duration l = unat (drop_bit (l * 6) duration mod of_nat LEVEL_MULT)"

definition occupied_bit :: "nat \<Rightarrow> u64" where
  "occupied_bit slot = push_bit slot 1"

definition wheel_for :: "u64 \<Rightarrow> u64 \<Rightarrow> nat" where
  "wheel_for elapsed when =
     (let SLOT_MASK = push_bit NUM_LEVELS 1 - 1;
          masked = (elapsed XOR when) OR SLOT_MASK;
          masked = (if MAX_DURATION \<le> masked then MAX_DURATION - 1 else masked);
          significant = 63 - leading_zeros masked
      in significant div NUM_LEVELS)"

definition next_occupied_slot :: "env \<Rightarrow> level \<Rightarrow> u64 \<Rightarrow> fault + nat option" where
  "next_occupied_slot C l now =
     (if lv_bitfield l = 0 then Inr None
      else
        let now_slot = now div slot_range (lv_level l);
            occupied = rotate_right (lv_bitfield l) (ucast now_slot);
            zeros = of_nat (trailing_zeros occupied) :: usize
        in and_then (add_word (debug_assertions C) zeros now_slot)
             (\<lambda>s. Inr (Some (unat (s mod 64)))))"

definition level_next_expiration :: "env \<Rightarrow> level \<Rightarrow> u64 \<Rightarrow> fault + expiry option" where
  "level_next_expiration C l now =
     and_then (next_occupied_slot C l now) (\<lambda>slot. case slot of
        None \<Rightarrow> Inr None
      | Some slot \<Rightarrow>
          let lr = level_range (lv_level l);
              sr = slot_range (lv_level l);
              level_start = now - now mod lr
          in and_then (mul_word (debug_assertions C) (of_nat slot) sr) (\<lambda>off.
             and_then (add_word (debug_assertions C) level_start off) (\<lambda>deadline.
             and_then
               (if deadline \<le> now
                then and_then (debug_assert (debug_assertions C) (lv_level l = NUM_LEVELS - 1))
                       (\<lambda>_. add_word (debug_assertions C) deadline lr)
                else Inr deadline) (\<lambda>deadline.
             and_then (debug_assert (debug_assertions C) (now \<le> deadline)) (\<lambda>_.
             Inr (Some \<lparr> ex_level = lv_level l, ex_slot = slot, ex_deadline = deadline \<rparr>))))))"

definition add_entry :: "env \<Rightarrow> sleeps \<Rightarrow> nat \<Rightarrow> level \<Rightarrow> fault + level" where
  "add_entry C m item l =
     and_then (expiration_of C m item) (\<lambda>exp.
       let slot = slot_for exp (lv_level l) in
       Inr (l\<lparr> lv_slots := (lv_slots l)[slot := push_front C item (lv_slots l ! slot)],
              lv_bitfield := lv_bitfield l OR occupied_bit slot \<rparr>))"

definition remove_entry :: "env \<Rightarrow> sleeps \<Rightarrow> nat \<Rightarrow> level \<Rightarrow> fault + (nat option \<times> level)" where
  "remove_entry C m item l =
     and_then (expiration_of C m item) (\<lambda>exp.
       let slot = slot_for exp (lv_level l);
           (removed, rest) = list_remove C item (lv_slots l ! slot);
           l' = l\<lparr> lv_slots := (lv_slots l)[slot := rest] \<rparr>
       in if list_is_empty C rest
          then and_then (debug_assert (debug_assertions C)
                           (lv_bitfield l' AND occupied_bit slot \<noteq> 0))
                 (\<lambda>_. Inr (removed, l'\<lparr> lv_bitfield := lv_bitfield l' XOR occupied_bit slot \<rparr>))
          else Inr (removed, l'))"

definition take_slot :: "env \<Rightarrow> nat \<Rightarrow> level \<Rightarrow> nat list \<times> level" where
  "take_slot C slot l =
     (let (rest, taken) = split_off C 0 (lv_slots l ! slot) in
      (taken, l\<lparr> lv_bitfield := lv_bitfield l AND NOT (occupied_bit slot),
                lv_slots := (lv_slots l)[slot := rest] \<rparr>))"

section \<open>Levels and slots as numbers\<close>

lemma unat_64_pow: "k \<le> 6 \<Longrightarrow> unat ((64 :: u64) ^ k) = 64 ^ k"
proof -
  assume "k \<le> 6"
  then have "k \<in> {0, 1, 2, 3, 4, 5, 6}" by auto
  then show ?thesis by auto
qed

lemma unat_slot_range: "k \<le> 5 \<Longrightarrow> unat (slot_range k) = 64 ^ k"
  by (simp add: slot_range_def unat_64_pow)

lemma unat_level_range: "k \<le> 5 \<Longrightarrow> unat (level_range k) = 64 ^ Suc k"
  using unat_64_pow [of "Suc k"] by (simp add: level_range_def slot_range_def)

lemma unat_drop_bit: "unat (drop_bit n (w :: 'a::len word)) = unat w div 2 ^ n"
  by (subst unat_drop_bit_eq) (simp only: drop_bit_eq_div)

lemma drop_bit_agree:
  fixes a b :: u64
  shows "drop_bit (6 * j) a = drop_bit (6 * j) b \<longleftrightarrow> agree j (unat a) (unat b)"
  by (simp add: word_unat_eq_iff unat_drop_bit agree_def power_mult)

lemma slot_for_unat: "slot_for d k = slot_of k (unat d)"
proof -
  have "(2 :: nat) ^ (k * 6) = 64 ^ k"
    by (simp add: mult.commute [of k] power_mult)
  then show ?thesis
    by (simp add: slot_for_def slot_of_def unat_mod_distrib unat_drop_bit)
qed

lemma xor_eq_0_iff: "(a :: 'a::len word) XOR b = 0 \<longleftrightarrow> a = b"
  by (metis xor_self_eq xor.assoc xor.right_neutral xor.left_neutral)

text \<open>The bits the mask sets are below every level boundary.\<close>

lemma drop_bit_masked:
  fixes a b :: u64
  assumes "1 \<le> j"
  shows "drop_bit (6 * j) ((a XOR b) OR 63) = 0 \<longleftrightarrow> agree j (unat a) (unat b)"
proof -
  have mask: "(63 :: u64) = mask 6" by (simp add: mask_eq_exp_minus_1)
  have "drop_bit (6 * j) (63 :: u64) = 0"
    unfolding mask by (intro bit_eqI) (use assms in \<open>auto simp: bit_drop_bit_eq bit_mask_iff\<close>)
  then have "drop_bit (6 * j) ((a XOR b) OR 63) = drop_bit (6 * j) a XOR drop_bit (6 * j) b"
    by (simp add: drop_bit_or drop_bit_xor)
  then show ?thesis by (simp add: xor_eq_0_iff drop_bit_agree)
qed

lemma MAX_DURATION_eq: "MAX_DURATION = 68719476735"
  by (simp add: MAX_DURATION_def push_bit_eq_mult)

lemma div_6_cases:
  "(s :: nat) < 36 \<Longrightarrow> s div 6 =
     (if s < 6 then 0 else if s < 12 then 1 else if s < 18 then 2 else if s < 24 then 3
      else if s < 30 then 4 else 5)"
  by (simp split: if_split) linarith

text \<open>\<open>wheel_for\<close> computes the level of the deadline: the highest 6-bit digit in which it differs from now.\<close>

lemma wheel_for_eq: "wheel_for e d = level_of (unat e) (unat d)"
proof -
  let ?m = "(e XOR d) OR 63"
  let ?M = "if MAX_DURATION \<le> ?m then MAX_DURATION - 1 else ?m"
  let ?s = "63 - leading_zeros ?M"
  have mask: "push_bit 6 1 - 1 = (63 :: u64)" by (simp add: push_bit_eq_mult)
  have wf: "wheel_for e d = ?s div 6"
    by (simp add: wheel_for_def Let_def mask)
  have bit0: "bit ?m 0" by (simp add: bit_or_iff)
  then have m0: "?m \<noteq> 0" by (metis bit_0_eq bot_apply bot_bool_def)
  have M0: "?M \<noteq> 0" using m0 by (simp add: MAX_DURATION_eq)
  have big: "drop_bit (6 * j) ?m \<noteq> 0 \<and> drop_bit (6 * j) ?M \<noteq> 0"
    if le: "MAX_DURATION \<le> ?m" and j: "j \<le> 5" for j
  proof -
    have "2 ^ (6 * j) \<le> (2 :: nat) ^ 30" using j by (intro power_increasing) simp_all
    moreover have "2 ^ 30 \<le> unat ?m"
      using le by (simp add: word_le_nat_alt MAX_DURATION_eq)
    ultimately have "2 ^ (6 * j) \<le> unat ?m" "2 ^ (6 * j) \<le> unat (MAX_DURATION - 1)"
      by (simp_all add: MAX_DURATION_eq)
    then have "unat (drop_bit (6 * j) ?m) \<noteq> 0" "unat (drop_bit (6 * j) (MAX_DURATION - 1)) \<noteq> 0"
      by (simp_all only: unat_drop_bit div_eq_0_iff not_less not_le) simp_all
    then have "drop_bit (6 * j) ?m \<noteq> 0" "drop_bit (6 * j) (MAX_DURATION - 1) \<noteq> 0"
      by (metis unat_0)+
    then show ?thesis using le by (simp only: if_True simp_thms)
  qed
  have small: "?s < 6 * j \<longleftrightarrow> agree j (unat e) (unat d)" if "1 \<le> j" "j \<le> 5" for j
    using top_bit_less_iff [OF M0, of "6 * j"] drop_bit_masked [OF that(1), of e d] big [of j] that(2)
    by (cases "MAX_DURATION \<le> ?m") auto
  have "drop_bit 36 ?M = 0"
  proof -
    have "unat ?M < 2 ^ 36"
      by (auto simp: MAX_DURATION_eq word_less_nat_alt not_le)
    then have "unat (drop_bit 36 ?M) = 0" by (simp only: unat_drop_bit div_less)
    then show ?thesis by (simp add: unat_eq_0)
  qed
  then have "?s < 36" by (simp add: top_bit_less_iff [OF M0])
  then have "wheel_for e d =
      (if ?s < 6 then 0 else if ?s < 12 then 1 else if ?s < 18 then 2 else if ?s < 24 then 3
       else if ?s < 30 then 4 else 5)"
    unfolding wf by (rule div_6_cases)
  moreover have "?s < 6 \<longleftrightarrow> agree 1 (unat e) (unat d)" "?s < 12 \<longleftrightarrow> agree 2 (unat e) (unat d)"
    "?s < 18 \<longleftrightarrow> agree 3 (unat e) (unat d)" "?s < 24 \<longleftrightarrow> agree 4 (unat e) (unat d)"
    "?s < 30 \<longleftrightarrow> agree 5 (unat e) (unat d)"
    using small [of 1] small [of 2] small [of 3] small [of 4] small [of 5] by simp_all
  ultimately show ?thesis
    unfolding level_of_def by (simp only:)
qed

section \<open>The next occupied slot and its deadline\<close>

lemma rot_dist:
  assumes "z < 64"
  shows "((z + q) mod 64 + (64 - q mod 64)) mod 64 = (z :: nat)"
proof -
  have shift: "z + q + (64 - b) = z + 64 * (a + 1)" if "64 * a + b = q" "b < 64" for a b
    using that by arith
  have "((z + q) mod 64 + (64 - q mod 64)) mod 64 = (z + q + (64 - q mod 64)) mod 64"
    by (rule mod_add_left_eq)
  also have "\<dots> = (z + 64 * (q div 64 + 1)) mod 64"
    using shift [OF mult_div_mod_eq] by simp
  also have "\<dots> = z" using assms by (simp only: mod_mult_self2 mod_less)
  finally show ?thesis .
qed

lemma rot_back:
  assumes "s < 64"
  shows "((s + (64 - q mod 64)) mod 64 + q) mod 64 = (s :: nat)"
proof -
  have shift: "s + (64 - b) + q = s + 64 * (a + 1)" if "64 * a + b = q" "b < 64" for a b
    using that by arith
  have "((s + (64 - q mod 64)) mod 64 + q) mod 64 = (s + (64 - q mod 64) + q) mod 64"
    by (rule mod_add_left_eq)
  also have "\<dots> = (s + 64 * (q div 64 + 1)) mod 64"
    using shift [OF mult_div_mod_eq] by simp
  also have "\<dots> = s" using assms by (simp only: mod_mult_self2 mod_less)
  finally show ?thesis .
qed

lemma next_occupied_slot_spec:
  assumes lvl: "lv_level l = k" "k \<le> 5" and bf: "lv_bitfield l \<noteq> 0"
    and room: "unat now + 64 < 2 ^ 64"
  shows "\<exists>s < 64. next_occupied_slot C l now = Inr (Some s) \<and> bit (lv_bitfield l) s \<and>
    (\<forall>s'. bit (lv_bitfield l) s' \<longrightarrow> slot_dist (unat now) k s \<le> slot_dist (unat now) k s')"
proof -
  let ?q = "unat now div 64 ^ k"
  let ?ns = "now div slot_range k"
  let ?occ = "rotate_right (lv_bitfield l) (ucast ?ns)"
  let ?z = "trailing_zeros ?occ"
  have q: "unat ?ns = ?q"
    using lvl(2) by (simp add: unat_div_distrib unat_slot_range)
  have "unat (ucast ?ns :: u32) mod 64 = ?q mod 64"
    by (simp add: unsigned_ucast_eq unsigned_take_bit_eq take_bit_eq_mod q mod_mod_cancel)
  then have occ: "bit ?occ i \<longleftrightarrow> i < 64 \<and> bit (lv_bitfield l) ((i + ?q) mod 64)" for i
    using mod_add_right_eq [of i "unat (ucast ?ns :: u32)" 64] mod_add_right_eq [of i ?q 64]
    by (simp add: bit_rotate_right)
  have dist: "bit ?occ (slot_dist (unat now) k s)" if "bit (lv_bitfield l) s" for s
    using that bit_u64_lt [OF that] rot_back [of s ?q] by (simp add: occ slot_dist_def)
  from bf obtain s0 where "bit (lv_bitfield l) s0"
    using bit_eqI [of "lv_bitfield l" 0] by auto
  then have nz: "?occ \<noteq> 0" using dist by fastforce
  have z: "?z < 64" by (rule trailing_zeros_lt [OF nz])
  have bz: "bit (lv_bitfield l) ((?z + ?q) mod 64)"
    using trailing_zeros_bit [OF nz] by (simp add: occ)
  have qle: "?q \<le> unat now" by (rule div_le_dividend)
  have uz: "unat (of_nat ?z :: u64) = ?z" using z by (simp add: unat_of_nat)
  have "?z + ?q < 2 ^ 64" using room z qle by linarith
  then have sum: "unat (of_nat ?z :: u64) + unat ?ns < 2 ^ LENGTH(64)"
    using q uz by simp
  have s: "unat ((of_nat ?z + ?ns) mod 64) = (?z + ?q) mod 64"
    using unat_add_no_overflow [OF sum] q uz by (simp add: unat_mod_distrib)
  have res: "next_occupied_slot C l now = Inr (Some ((?z + ?q) mod 64))"
    using bf add_word_no_overflow [OF sum, of "debug_assertions C"] s
    by (simp add: next_occupied_slot_def Let_def lvl(1))
  have "slot_dist (unat now) k ((?z + ?q) mod 64) = ?z"
    using rot_dist [OF z, of ?q] by (simp add: slot_dist_def)
  moreover have "?z \<le> slot_dist (unat now) k s'" if "bit (lv_bitfield l) s'" for s'
    using trailing_zeros_before [of "slot_dist (unat now) k s'" ?occ] dist [OF that]
    by (meson not_le)
  ultimately show ?thesis using res bz by (intro exI [of _ "(?z + ?q) mod 64"]) auto
qed

lemma next_occupied_slot_None: "lv_bitfield l = 0 \<Longrightarrow> next_occupied_slot C l now = Inr None"
  by (simp add: next_occupied_slot_def)

text \<open>
  The deadline of a level is the start of its nearest occupied slot: the distance \<open>0\<close> means a whole
  rotation, which only the top level can hold. No check of the code fails.
\<close>

definition rot_dist64 :: "nat \<Rightarrow> nat \<Rightarrow> nat \<Rightarrow> nat" where
  "rot_dist64 E k s = (if slot_dist E k s = 0 then 64 else slot_dist E k s)"

lemma slot_dist_cases:
  assumes "s < 64"
  shows "E div 64 ^ k + rot_dist64 E k s =
    (if s \<le> E div 64 ^ k mod 64 then E div 64 ^ k div 64 * 64 + s + 64 else E div 64 ^ k div 64 * 64 + s)"
proof -
  define q where "q = E div 64 ^ k"
  have split: "q = q div 64 * 64 + q mod 64" by simp
  have lt: "q mod 64 < 64" by simp
  have dist: "(s + (64 - r)) mod 64 = (if s < r then s + 64 - r else s - r)" if "r < 64" for r :: nat
  proof (cases "s < r")
    case True
    then show ?thesis using that by simp
  next
    case False
    then have "s + (64 - r) = (s - r) + 64" using that by simp
    then have "(s + (64 - r)) mod 64 = (s - r) mod 64" by (simp only: mod_add_self2)
    then show ?thesis using False assms by simp
  qed
  have arith: "a * 64 + r + (if (if s < r then s + 64 - r else s - r) = 0 then 64
      else (if s < r then s + 64 - r else s - r)) = (if s \<le> r then a * 64 + s + 64 else a * 64 + s)"
    if "r < 64" for a r :: nat
    using that by (cases "s < r"; cases "s = r") auto
  have "q + rot_dist64 E k s = (if s \<le> q mod 64 then q div 64 * 64 + s + 64 else q div 64 * 64 + s)"
    unfolding rot_dist64_def slot_dist_def q_def [symmetric] dist [OF lt]
    using arith [OF lt, of "q div 64"] split by simp
  then show ?thesis by (simp only: q_def)
qed

lemma level_next_expiration_spec:
  assumes lvl: "lv_level l = k" "k \<le> 5" and bf: "lv_bitfield l \<noteq> 0"
    and room: "unat now + 2 ^ 37 < 2 ^ 64"
    and ahead: "\<And>s. k < 5 \<Longrightarrow> bit (lv_bitfield l) s \<Longrightarrow> unat now div 64 ^ k mod 64 < s"
  shows "\<exists>s D. level_next_expiration C l now =
      Inr (Some \<lparr> ex_level = k, ex_slot = s, ex_deadline = D \<rparr>) \<and> s < 64 \<and> bit (lv_bitfield l) s \<and>
    (\<forall>s'. bit (lv_bitfield l) s' \<longrightarrow> slot_dist (unat now) k s \<le> slot_dist (unat now) k s') \<and>
    unat D = (unat now div 64 ^ k + rot_dist64 (unat now) k s) * 64 ^ k"
proof -
  let ?E = "unat now" and ?q = "unat now div 64 ^ k"
  let ?lr = "level_range k" and ?sr = "slot_range k"
  let ?ls = "now - now mod ?lr"
  let ?dbg = "debug_assertions C"
  obtain s where s: "s < 64" "next_occupied_slot C l now = Inr (Some s)" "bit (lv_bitfield l) s"
    and min: "\<And>s'. bit (lv_bitfield l) s' \<Longrightarrow> slot_dist ?E k s \<le> slot_dist ?E k s'"
    using next_occupied_slot_spec [OF lvl bf, of now C] room by auto
  have pow: "(64 :: nat) ^ k \<le> 64 ^ 5" using lvl(2) by (intro power_increasing) simp_all
  have sr: "unat ?sr = 64 ^ k" and lr: "unat ?lr = 64 * 64 ^ k"
    using lvl(2) by (simp_all add: unat_slot_range unat_level_range)
  have ls: "unat ?ls = ?q div 64 * 64 * 64 ^ k"
  proof -
    have "now mod ?lr \<le> now" by (simp add: word_le_nat_alt unat_mod_distrib)
    then have "unat ?ls = ?E - ?E mod (64 * 64 ^ k)"
      by (simp add: unat_sub_le unat_mod_distrib lr)
    also have "\<dots> = ?E div (64 ^ k * 64) * (64 ^ k * 64)"
      by (simp add: minus_mod_eq_div_mult mult.commute)
    also have "\<dots> = ?q div 64 * 64 * 64 ^ k"
      by (simp add: div_mult2_eq)
    finally show ?thesis .
  qed
  have "s * 64 ^ k \<le> 63 * 64 ^ 5" using s(1) pow by (intro mult_le_mono) simp_all
  then have soff: "unat (of_nat s :: u64) * unat ?sr < 2 ^ LENGTH(64)" "s * 64 ^ k < 2 ^ 36"
    using s(1) by (simp_all add: unat_of_nat sr)
  obtain off where off: "mul_word ?dbg (of_nat s) ?sr = Inr off" "unat off = s * 64 ^ k"
    using mul_word_no_overflow [OF soff(1), of ?dbg] s(1) by (auto simp: unat_of_nat sr)
  have le1: "?q div 64 * 64 * 64 ^ k \<le> ?E"
    using div_times_less_eq_dividend [of ?q 64] div_times_less_eq_dividend [of ?E "64 ^ k"]
    by (meson le_trans mult_le_mono1)
  have sum1: "unat ?ls + unat off < 2 ^ LENGTH(64)"
    using le1 soff(2) room ls off(2) by simp
  define a where "a = ?q div 64 * 64 + s"
  obtain D0 where D0: "add_word ?dbg ?ls off = Inr D0" "unat D0 = a * 64 ^ k"
    using add_word_no_overflow [OF sum1, of ?dbg] ls off(2) by (simp add: a_def add_mult_distrib)
  have D0_le: "D0 \<le> now \<longleftrightarrow> s \<le> ?q mod 64"
  proof -
    have "a * 64 ^ k \<le> ?E \<longleftrightarrow> a \<le> ?q" by (simp add: less_eq_div_iff_mult_less_eq)
    moreover have "?q = ?q div 64 * 64 + ?q mod 64" by simp
    ultimately show ?thesis unfolding word_le_nat_alt D0(2) a_def by linarith
  qed
  show ?thesis
  proof (cases "D0 \<le> now")
    case True
    then have k5: "k = 5" using ahead [OF _ s(3)] D0_le lvl(2) by (cases "k < 5") auto
    have sum2: "unat D0 + unat ?lr < 2 ^ LENGTH(64)"
      using True room k5 lr by (simp add: word_le_nat_alt)
    obtain D where D: "add_word ?dbg D0 ?lr = Inr D" "unat D = (a + 64) * 64 ^ k"
      using add_word_no_overflow [OF sum2, of ?dbg] D0(2) lr by (simp add: add_mult_distrib)
    have dD: "unat D = (?q + rot_dist64 ?E k s) * 64 ^ k"
      using slot_dist_cases [OF s(1), of ?E k] True D0_le D(2) by (simp add: a_def)
    have "?q < ?q + rot_dist64 ?E k s" by (simp add: rot_dist64_def)
    then have "?E < unat D" unfolding dD by (simp add: div_less_iff_less_mult [symmetric])
    then have "now \<le> D" by (simp add: word_le_nat_alt)
    then have "level_next_expiration C l now =
        Inr (Some \<lparr> ex_level = k, ex_slot = s, ex_deadline = D \<rparr>)"
      using s(2) off(1) D0(1) True k5 D(1)
      by (simp add: level_next_expiration_def Let_def lvl(1))
    then show ?thesis using s min dD by blast
  next
    case False
    then have dD: "unat D0 = (?q + rot_dist64 ?E k s) * 64 ^ k"
      using slot_dist_cases [OF s(1), of ?E k] D0_le D0(2) by (simp add: a_def)
    have "level_next_expiration C l now =
        Inr (Some \<lparr> ex_level = k, ex_slot = s, ex_deadline = D0 \<rparr>)"
      using s(2) off(1) D0(1) False
      by (simp add: level_next_expiration_def Let_def lvl(1))
    then show ?thesis using s min dD by blast
  qed
qed

lemma level_next_expiration_None:
  "lv_bitfield l = 0 \<Longrightarrow> level_next_expiration C l now = Inr None"
  by (simp add: level_next_expiration_def next_occupied_slot_None)

end
