(* ===== verification/Timer_Wheels.thy ===== *)
theory Timer_Wheels
  imports Timer_Level
begin

text \<open>
  The hierarchical timer wheel (\<open>norn-timer/src/wheels.rs\<close>): six levels, the ticks elapsed, and the
  operations that insert, remove and fire entries. The heap of sleeps the entries live in and the log
  of woken wakers are part of the state.
\<close>

record wheels =
  wh_elapsed :: u64
  wh_shutdown :: bool
  wh_levels :: "level list"
  wh_sleeps :: sleeps
  wh_woken :: "nat list"

definition wheels_new :: "env \<Rightarrow> wheels" where
  "wheels_new C = \<lparr> wh_elapsed = 0, wh_shutdown = False,
     wh_levels = map (level_new C) [0..<NUM_LEVELS], wh_sleeps = Map.empty, wh_woken = [] \<rparr>"

text \<open>Indexing the vector of levels panics out of range.\<close>

definition level_at :: "wheels \<Rightarrow> nat \<Rightarrow> fault + level" where
  "level_at w k = (if k < length (wh_levels w) then Inr (wh_levels w ! k) else Inl Panic)"

definition set_level :: "nat \<Rightarrow> level \<Rightarrow> wheels \<Rightarrow> wheels" where
  "set_level k l w = w\<lparr>wh_levels := (wh_levels w)[k := l]\<rparr>"

definition fire :: "completion \<Rightarrow> nat \<Rightarrow> wheels \<Rightarrow> fault + wheels" where
  "fire c i w =
     and_then (entry_at (wh_sleeps w) i) (\<lambda>e.
       Inr (w\<lparr> wh_sleeps := set_entry i (fst (fire_entry c e)) (wh_sleeps w),
              wh_woken := wh_woken w @ snd (fire_entry c e) \<rparr>))"

fun scan_levels :: "env \<Rightarrow> wheels \<Rightarrow> nat list \<Rightarrow> fault + expiry option" where
  "scan_levels C w [] = Inr None"
| "scan_levels C w (k # ks) =
     and_then (level_at w k) (\<lambda>l.
     and_then (level_next_expiration C l (wh_elapsed w)) (\<lambda>x. case x of
       Some x \<Rightarrow> Inr (Some x)
     | None \<Rightarrow> scan_levels C w ks))"

definition next_expiration :: "env \<Rightarrow> wheels \<Rightarrow> fault + expiry option" where
  "next_expiration C w = scan_levels C w [0..<NUM_LEVELS]"

definition set_elapsed :: "u64 \<Rightarrow> wheels \<Rightarrow> fault + wheels" where
  "set_elapsed when w =
     and_then (assert_that (wh_elapsed w \<le> when)) (\<lambda>_.
       Inr (if wh_elapsed w < when then w\<lparr>wh_elapsed := when\<rparr> else w))"

definition take_entries :: "env \<Rightarrow> expiry \<Rightarrow> wheels \<Rightarrow> fault + (nat list \<times> wheels)" where
  "take_entries C x w =
     and_then (level_at w (ex_level x)) (\<lambda>l.
       let (taken, l') = take_slot C (ex_slot x) l in Inr (taken, set_level (ex_level x) l' w))"

definition wheels_insert :: "env \<Rightarrow> nat \<Rightarrow> wheels \<Rightarrow> fault + wheels" where
  "wheels_insert C i w =
     (if wh_shutdown w then fire (Inl Timer_Shutdown) i w
      else and_then (expiration_of C (wh_sleeps w) i) (\<lambda>exp.
        if exp \<le> wh_elapsed w then fire (Inr ()) i w
        else
          let k = wheel_for (wh_elapsed w) exp in
          and_then (level_at w k) (\<lambda>l.
          and_then (add_entry C (wh_sleeps w) i l) (\<lambda>l'.
          Inr (set_level k l' w)))))"

definition wheels_remove :: "env \<Rightarrow> nat \<Rightarrow> wheels \<Rightarrow> fault + (nat option \<times> wheels)" where
  "wheels_remove C i w =
     and_then (expiration_of C (wh_sleeps w) i) (\<lambda>exp.
       let k = wheel_for (wh_elapsed w) exp in
       and_then (level_at w k) (\<lambda>l.
       and_then (remove_entry C (wh_sleeps w) i l) (\<lambda>(removed, l').
       Inr (removed, set_level k l' w))))"

text \<open>\<open>duration.as_millis() as u64\<close>: the conversion from \<open>u128\<close> keeps the low 64 bits.\<close>

definition as_millis_u64 :: "nat \<Rightarrow> u64" where
  "as_millis_u64 ns = of_nat (ns div 1000000)"

definition wheels_add :: "env \<Rightarrow> nat \<Rightarrow> nat \<Rightarrow> wheels \<Rightarrow> fault + wheels" where
  "wheels_add C i duration w =
     (if duration = 0 then fire (Inr ()) i w
      else
        and_then (add_word (debug_assertions C) (wh_elapsed w) (as_millis_u64 duration)) (\<lambda>exp.
        and_then (entry_at (wh_sleeps w) i) (\<lambda>e.
        and_then (set_registered C exp e) (\<lambda>e'.
        wheels_insert C i (w\<lparr>wh_sleeps := set_entry i e' (wh_sleeps w)\<rparr>)))))"

text \<open>
  \<open>Wheels::advance\<close>. The inner \<open>for\<close> over the entries of one slot, the body of the \<open>while let\<close>, the
  loop, and the re-insertion of the entries that were cascaded. The loop is a
  \<^theory_text>\<open>partial_function\<close>: \<open>None\<close> would be a loop that does not end.
\<close>

fun advance_entries ::
  "env \<Rightarrow> u64 \<Rightarrow> expiry \<Rightarrow> nat list \<Rightarrow> nat list \<times> nat \<times> wheels \<Rightarrow> fault + (nat list \<times> nat \<times> wheels)"
where
  "advance_entries C now x [] st = Inr st"
| "advance_entries C now x (i # is) (pending, fired, w) =
     and_then (expiration_of C (wh_sleeps w) i) (\<lambda>exp.
       if now < exp
       then and_then (assert_that (ex_level x \<noteq> 0)) (\<lambda>_.
              advance_entries C now x is (push_front C i pending, fired, w))
       else and_then (fire (Inr ()) i w) (\<lambda>w'.
              advance_entries C now x is (pending, Suc fired, w')))"

definition advance_body ::
  "env \<Rightarrow> u64 \<Rightarrow> expiry \<Rightarrow> nat list \<times> nat \<times> wheels
   \<Rightarrow> fault + (expiry option \<times> nat list \<times> nat \<times> wheels)"
where
  "advance_body C now x st =
     (let (pending, fired, w) = st in
      and_then (take_entries C x w) (\<lambda>(entries, w1).
      and_then (advance_entries C now x (into_iter C entries) (pending, fired, w1)) (\<lambda>(pending, fired, w2).
      and_then (set_elapsed (ex_deadline x) w2) (\<lambda>w3.
      and_then (next_expiration C w3) (\<lambda>nxt.
      Inr (nxt, pending, fired, w3))))))"

partial_function (option) advance_loop ::
  "env \<Rightarrow> u64 \<Rightarrow> expiry option \<Rightarrow> nat list \<times> nat \<times> wheels
   \<Rightarrow> (fault + (expiry option \<times> nat list \<times> nat \<times> wheels)) option"
where
  "advance_loop C now nxt st =
     (case nxt of
        None \<Rightarrow> Some (Inr (None, st))
      | Some x \<Rightarrow>
          if now < ex_deadline x then Some (Inr (Some x, st))
          else (case advance_body C now x st of
                  Inl f \<Rightarrow> Some (Inl f)
                | Inr (nxt', st') \<Rightarrow> advance_loop C now nxt' st'))"

declare advance_loop.simps [code]

fun insert_all :: "env \<Rightarrow> nat list \<Rightarrow> wheels \<Rightarrow> fault + wheels" where
  "insert_all C [] w = Inr w"
| "insert_all C (i # is) w = and_then (wheels_insert C i w) (insert_all C is)"

definition advance_finish ::
  "env \<Rightarrow> u64 \<Rightarrow> expiry option \<times> nat list \<times> nat \<times> wheels
   \<Rightarrow> fault + (nat \<times> expiry option \<times> wheels)"
where
  "advance_finish C now r =
     (let (nxt, pending, fired, w) = r in
      and_then (set_elapsed now w) (\<lambda>w1.
        let needs_reschedule = (\<not> list_is_empty C pending) in
        and_then (insert_all C (into_iter C pending) w1) (\<lambda>w2.
        and_then (if needs_reschedule then next_expiration C w2 else Inr nxt) (\<lambda>nxt.
        Inr (fired, nxt, w2)))))"

definition advance :: "env \<Rightarrow> u64 \<Rightarrow> wheels \<Rightarrow> (fault + (nat \<times> expiry option \<times> wheels)) option" where
  "advance C now w =
     (case next_expiration C w of
        Inl f \<Rightarrow> Some (Inl f)
      | Inr nxt \<Rightarrow>
          map_option (\<lambda>r. and_then r (advance_finish C now))
            (advance_loop C now nxt (list_new C, 0, w)))"

text \<open>\<open>Wheels::shutdown\<close>: every entry is taken out and fired with the shutdown error.\<close>

fun fire_all :: "completion \<Rightarrow> nat list \<Rightarrow> wheels \<Rightarrow> fault + wheels" where
  "fire_all c [] w = Inr w"
| "fire_all c (i # is) w = and_then (fire c i w) (fire_all c is)"

definition shutdown_body :: "env \<Rightarrow> expiry \<Rightarrow> wheels \<Rightarrow> fault + wheels" where
  "shutdown_body C x w =
     and_then (take_entries C x w) (\<lambda>(entries, w1).
       fire_all (Inl Timer_Shutdown) (into_iter C entries) w1)"

partial_function (option) shutdown_loop :: "env \<Rightarrow> wheels \<Rightarrow> (fault + wheels) option" where
  "shutdown_loop C w =
     (case next_expiration C w of
        Inl f \<Rightarrow> Some (Inl f)
      | Inr None \<Rightarrow> Some (Inr w)
      | Inr (Some x) \<Rightarrow>
          (case shutdown_body C x w of
             Inl f \<Rightarrow> Some (Inl f)
           | Inr w' \<Rightarrow> shutdown_loop C w'))"

declare shutdown_loop.simps [code]

definition wheels_shutdown :: "env \<Rightarrow> wheels \<Rightarrow> (fault + wheels) option" where
  "wheels_shutdown C w = shutdown_loop C (w\<lparr>wh_shutdown := True\<rparr>)"

definition num_registered :: "wheels \<Rightarrow> nat" where
  "num_registered w = sum_list (map (\<lambda>l. sum_list (map length (lv_slots l))) (wh_levels w))"

end
