(* ===== verification/Timer_Inv.thy ===== *)
theory Timer_Inv
  imports Timer_Wheels
begin

text \<open>
  The invariant of the timer wheel and its preservation. The abstract state of a wheel is the map
  \<open>timers\<close> from the registered entries to their deadlines; the invariant says that the slots hold
  exactly these entries, each in the level and slot its deadline has at the elapsed time, that the
  bitfields say which slots are occupied, and that no registered deadline has passed. It is indexed by
  a set \<open>P\<close> of entries that are registered but taken out of the slots, which is the state in the
  middle of \<open>advance\<close> and \<open>shutdown\<close>.
\<close>

section \<open>The abstract state and the invariant\<close>

definition timers :: "sleeps \<Rightarrow> nat \<rightharpoonup> nat" where
  "timers m i = (case m i of
     None \<Rightarrow> None
   | Some sl \<Rightarrow> if en_state (sl_entry sl) = Registered then Some (unat (en_deadline (sl_entry sl))) else None)"

definition slot_at :: "wheels \<Rightarrow> nat \<Rightarrow> nat \<Rightarrow> nat list" where
  "slot_at w k s = lv_slots (wh_levels w ! k) ! s"

definition wf_levels :: "wheels \<Rightarrow> bool" where
  "wf_levels w \<longleftrightarrow> length (wh_levels w) = 6 \<and>
     (\<forall>k < 6. lv_level (wh_levels w ! k) = k \<and> length (lv_slots (wh_levels w ! k)) = 64 \<and>
        (\<forall>s < 64. bit (lv_bitfield (wh_levels w ! k)) s \<longleftrightarrow> slot_at w k s \<noteq> []))"

definition slots_exact :: "nat set \<Rightarrow> wheels \<Rightarrow> bool" where
  "slots_exact P w \<longleftrightarrow>
     (\<forall>k < 6. \<forall>s < 64. distinct (slot_at w k s) \<and>
        set (slot_at w k s) = {i. i \<notin> P \<and> (\<exists>d. timers (wh_sleeps w) i = Some d \<and>
           level_of (unat (wh_elapsed w)) d = k \<and> slot_of k d = s)})"

definition deadlines_ahead :: "nat set \<Rightarrow> wheels \<Rightarrow> bool" where
  "deadlines_ahead P w \<longleftrightarrow>
     (\<forall>i d. i \<notin> P \<longrightarrow> timers (wh_sleeps w) i = Some d \<longrightarrow>
        unat (wh_elapsed w) < d \<and> in_window (unat (wh_elapsed w)) d)"

definition wheels_inv :: "nat set \<Rightarrow> wheels \<Rightarrow> bool" where
  "wheels_inv P w \<longleftrightarrow> wf_levels w \<and> slots_exact P w \<and> deadlines_ahead P w"

text \<open>Between operations no entry is taken out, and after a shutdown none is registered.\<close>

definition wheels_ok :: "wheels \<Rightarrow> bool" where
  "wheels_ok w \<longleftrightarrow> wheels_inv {} w \<and> (wh_shutdown w \<longrightarrow> (\<forall>i. timers (wh_sleeps w) i = None))"

lemma timers_Some:
  "timers m i = Some d \<longleftrightarrow> (\<exists>sl. m i = Some sl \<and> en_state (sl_entry sl) = Registered \<and>
     d = unat (en_deadline (sl_entry sl)))"
  by (auto simp: timers_def split: option.splits)

lemma slot_iff:
  assumes "wheels_inv P w" and "k < 6" and "s < 64"
  shows "i \<in> set (slot_at w k s) \<longleftrightarrow> i \<notin> P \<and> (\<exists>d. timers (wh_sleeps w) i = Some d \<and>
    level_of (unat (wh_elapsed w)) d = k \<and> slot_of k d = s)"
  using assms by (simp add: wheels_inv_def slots_exact_def)

lemma inv_ahead:
  assumes "wheels_inv P w" and "i \<notin> P" and "timers (wh_sleeps w) i = Some d"
  shows "unat (wh_elapsed w) < d" and "in_window (unat (wh_elapsed w)) d"
  using assms by (simp_all add: wheels_inv_def deadlines_ahead_def)

lemma inv_levels:
  assumes "wheels_inv P w"
  shows "length (wh_levels w) = 6" and "k < 6 \<Longrightarrow> lv_level (wh_levels w ! k) = k"
    and "k < 6 \<Longrightarrow> length (lv_slots (wh_levels w ! k)) = 64"
    and "k < 6 \<Longrightarrow> s < 64 \<Longrightarrow> bit (lv_bitfield (wh_levels w ! k)) s \<longleftrightarrow> slot_at w k s \<noteq> []"
    and "k < 6 \<Longrightarrow> s < 64 \<Longrightarrow> distinct (slot_at w k s)"
  using assms by (simp_all add: wheels_inv_def wf_levels_def slots_exact_def)

lemma level_at_inv [simp]:
  "wheels_inv P w \<Longrightarrow> k < 6 \<Longrightarrow> level_at w k = Inr (wh_levels w ! k)"
  by (simp add: level_at_def inv_levels)

text \<open>The entries outside \<open>P\<close> are all linked, so there are finitely many.\<close>

lemma in_own_slot:
  assumes "wheels_inv P w" and "i \<notin> P" and "timers (wh_sleeps w) i = Some d"
  shows "i \<in> set (slot_at w (level_of (unat (wh_elapsed w)) d) (slot_of (level_of (unat (wh_elapsed w)) d) d))"
  using assms by (simp add: slot_iff level_of_lt slot_of_lt)

lemma finite_timers:
  assumes "wheels_inv P w"
  shows "finite {i. i \<notin> P \<and> timers (wh_sleeps w) i \<noteq> None}"
proof (rule finite_subset)
  show "{i. i \<notin> P \<and> timers (wh_sleeps w) i \<noteq> None}
      \<subseteq> (\<Union>k < 6. \<Union>s < 64. set (slot_at w k s))"
  proof
    fix i assume "i \<in> {i. i \<notin> P \<and> timers (wh_sleeps w) i \<noteq> None}"
    then obtain d where "i \<notin> P" "timers (wh_sleeps w) i = Some d" by auto
    from in_own_slot [OF assms this] show "i \<in> (\<Union>k < 6. \<Union>s < 64. set (slot_at w k s))"
      using level_of_lt slot_of_lt by (meson UN_I lessThan_iff)
  qed
qed auto

lemma bitfield_0_iff:
  assumes "wheels_inv P w" and "k < 6"
  shows "lv_bitfield (wh_levels w ! k) = 0 \<longleftrightarrow> (\<forall>s < 64. slot_at w k s = [])"
proof
  assume "lv_bitfield (wh_levels w ! k) = 0"
  then show "\<forall>s < 64. slot_at w k s = []"
    using inv_levels(4) [OF assms] by force
next
  assume empty: "\<forall>s < 64. slot_at w k s = []"
  show "lv_bitfield (wh_levels w ! k) = 0"
  proof (rule bit_eqI)
    fix n
    have "\<not> bit (lv_bitfield (wh_levels w ! k)) n"
      using inv_levels(4) [OF assms, of n] empty bit_u64_lt [of _ n] by blast
    then show "bit (lv_bitfield (wh_levels w ! k)) n = bit 0 n" by simp
  qed
qed

lemma wheels_ok_new:
  assumes "linked_list C"
  shows "wheels_ok (wheels_new C)"
  using linked_list.list_new_law [OF assms]
  by (auto simp: wheels_ok_def wheels_inv_def wheels_new_def wf_levels_def slots_exact_def deadlines_ahead_def
      slot_at_def level_new_def timers_def)

text \<open>Entries that are no longer registered may leave \<open>P\<close>.\<close>

lemma wheels_inv_shrink:
  assumes "wheels_inv Q w" and "P \<subseteq> Q" and "\<And>i. i \<in> Q - P \<Longrightarrow> timers (wh_sleeps w) i = None"
  shows "wheels_inv P w"
proof -
  have same: "i \<notin> Q \<longleftrightarrow> i \<notin> P" if "timers (wh_sleeps w) i = Some d" for i d
    using that assms(2) assms(3) [of i] by (cases "i \<in> Q"; cases "i \<in> P") auto
  then have "{i. i \<notin> P \<and> (\<exists>d. timers (wh_sleeps w) i = Some d \<and> R i d)}
      = {i. i \<notin> Q \<and> (\<exists>d. timers (wh_sleeps w) i = Some d \<and> R i d)}" for R :: "nat \<Rightarrow> nat \<Rightarrow> bool"
    by blast
  then have "slots_exact P w \<longleftrightarrow> slots_exact Q w"
    by (simp only: slots_exact_def)
  moreover have "deadlines_ahead P w \<longleftrightarrow> deadlines_ahead Q w"
    using same unfolding deadlines_ahead_def by blast
  ultimately show ?thesis
    using assms(1) unfolding wheels_inv_def by blast
qed

text \<open>Only the registered entries outside \<open>P\<close>, the levels and the elapsed time matter.\<close>

lemma wheels_inv_frame:
  assumes "wheels_inv P w" and "wh_levels w' = wh_levels w" and "wh_elapsed w' = wh_elapsed w"
    and "\<And>i. i \<notin> P \<Longrightarrow> timers (wh_sleeps w') i = timers (wh_sleeps w) i"
  shows "wheels_inv P w'"
proof -
  have "slot_at w' = slot_at w" by (intro ext) (simp add: slot_at_def assms(2))
  then show ?thesis
    using assms by (auto simp: wheels_inv_def wf_levels_def slots_exact_def deadlines_ahead_def)
qed

text \<open>Time may move to any point before the start of every occupied slot.\<close>

lemma wheels_inv_elapsed:
  assumes inv: "wheels_inv P w" and le: "wh_elapsed w \<le> X"
    and before: "\<And>i d. i \<notin> P \<Longrightarrow> timers (wh_sleeps w) i = Some d \<Longrightarrow>
      unat X < slot_start (unat (wh_elapsed w)) d"
  shows "wheels_inv P (w\<lparr>wh_elapsed := X\<rparr>)"
proof -
  let ?E = "unat (wh_elapsed w)"
  have le': "?E \<le> unat X" using le by (simp add: word_le_nat_alt)
  have keep: "level_of (unat X) d = level_of ?E d" "unat X < d" "in_window (unat X) d"
    if "i \<notin> P" "timers (wh_sleeps w) i = Some d" for i d
    using level_of_advance [OF le' inv_ahead(1) [OF inv that] before [OF that]]
      in_window_advance [OF inv_ahead(2) [OF inv that] le'] by simp_all
  let ?w = "w\<lparr>wh_elapsed := X\<rparr>"
  have slots: "slot_at ?w k s = slot_at w k s" for k s by (simp add: slot_at_def)
  have "{i. i \<notin> P \<and> (\<exists>d. timers (wh_sleeps w) i = Some d \<and> level_of (unat X) d = k \<and> slot_of k d = s)}
      = {i. i \<notin> P \<and> (\<exists>d. timers (wh_sleeps w) i = Some d \<and> level_of ?E d = k \<and> slot_of k d = s)}" for k s
    by (intro Collect_cong conj_cong ex_cong1 refl) (simp add: keep(1))
  then have "slots_exact P ?w"
    using inv unfolding wheels_inv_def slots_exact_def slots by simp
  moreover have "wf_levels ?w"
    using inv unfolding wheels_inv_def wf_levels_def slots by simp
  moreover have "deadlines_ahead P ?w"
    using keep(2,3) unfolding deadlines_ahead_def by simp
  ultimately show ?thesis
    using inv by (simp add: wheels_inv_def)
qed

section \<open>The next expiration\<close>

definition room :: "u64 \<Rightarrow> bool" where
  "room t \<longleftrightarrow> unat t + 2 ^ 37 < 2 ^ 64"

lemma room_mono: "room b \<Longrightarrow> a \<le> b \<Longrightarrow> room a"
  by (auto simp: room_def word_le_nat_alt)

lemma scan_levels_None:
  assumes "wheels_inv P w" and "\<And>k. k \<in> set ks \<Longrightarrow> k < 6 \<and> lv_bitfield (wh_levels w ! k) = 0"
  shows "scan_levels C w ks = Inr None"
  using assms(2)
  by (induction ks) (simp_all add: level_at_inv [OF assms(1)] level_next_expiration_None
      del: and_then_eq_Inr)

lemma scan_levels_first:
  assumes "wheels_inv P w" and "\<And>j. j \<in> set ks \<Longrightarrow> j < 6 \<and> lv_bitfield (wh_levels w ! j) = 0"
    and "k < 6" and "level_next_expiration C (wh_levels w ! k) (wh_elapsed w) = Inr (Some x)"
  shows "scan_levels C w (ks @ k # js) = Inr (Some x)"
  using assms(2)
  by (induction ks) (simp_all add: level_at_inv [OF assms(1)] assms(3,4) level_next_expiration_None
      del: and_then_eq_Inr)

text \<open>
  What \<open>next_expiration\<close> returns: nothing if no entry is linked, and else the slot whose entries start
  first; every other linked entry starts strictly later.
\<close>

definition expiry_ok :: "nat set \<Rightarrow> wheels \<Rightarrow> expiry \<Rightarrow> bool" where
  "expiry_ok P w x \<longleftrightarrow> ex_level x < 6 \<and> ex_slot x < 64 \<and> slot_at w (ex_level x) (ex_slot x) \<noteq> [] \<and>
     wh_elapsed w < ex_deadline x \<and>
     (\<forall>i d. i \<notin> P \<longrightarrow> timers (wh_sleeps w) i = Some d \<longrightarrow>
        (if i \<in> set (slot_at w (ex_level x) (ex_slot x))
         then slot_start (unat (wh_elapsed w)) d = unat (ex_deadline x) \<and>
              level_of (unat (wh_elapsed w)) d = ex_level x
         else unat (ex_deadline x) < slot_start (unat (wh_elapsed w)) d))"

lemma level_expiry_ok:
  assumes inv: "wheels_inv P w" and rm: "room (wh_elapsed w)" and k: "k < 6"
    and bf: "lv_bitfield (wh_levels w ! k) \<noteq> 0"
    and below: "\<And>j. j < k \<Longrightarrow> lv_bitfield (wh_levels w ! j) = 0"
  shows "\<exists>x. level_next_expiration C (wh_levels w ! k) (wh_elapsed w) = Inr (Some x) \<and> expiry_ok P w x"
proof -
  let ?E = "unat (wh_elapsed w)" and ?l = "wh_levels w ! k"
  have occ: "bit (lv_bitfield ?l) s \<longleftrightarrow> s < 64 \<and> slot_at w k s \<noteq> []" for s
    using inv_levels(4) [OF inv k, of s] bit_u64_lt [of "lv_bitfield ?l" s] by blast
  have ahead: "?E div 64 ^ k mod 64 < s" if "k < 5" "bit (lv_bitfield ?l) s" for s
  proof -
    from that(2) occ obtain i where s: "s < 64" and "i \<in> set (slot_at w k s)"
      by (metis list.set_intros(1) neq_Nil_conv)
    then obtain d where "i \<notin> P" "timers (wh_sleeps w) i = Some d" "level_of ?E d = k" "slot_of k d = s"
      by (auto simp: slot_iff [OF inv k])
    then show ?thesis using slot_of_ahead inv_ahead(1) [OF inv] that(1) by blast
  qed
  obtain s D where x: "level_next_expiration C ?l (wh_elapsed w) =
        Inr (Some \<lparr> ex_level = k, ex_slot = s, ex_deadline = D \<rparr>)" "s < 64" "bit (lv_bitfield ?l) s"
    and min: "\<And>s'. bit (lv_bitfield ?l) s' \<Longrightarrow> slot_dist ?E k s \<le> slot_dist ?E k s'"
    and D: "unat D = (?E div 64 ^ k + rot_dist64 ?E k s) * 64 ^ k"
    using level_next_expiration_spec [OF inv_levels(2) [OF inv k] _ bf, of "wh_elapsed w" C] k rm ahead
    by (auto simp: room_def)
  from x(3) occ obtain i0 where "i0 \<in> set (slot_at w k s)"
    by (metis list.set_intros(1) neq_Nil_conv)
  then obtain d0 where d0: "i0 \<notin> P" "timers (wh_sleeps w) i0 = Some d0" "level_of ?E d0 = k" "slot_of k d0 = s"
    using slot_iff [OF inv k x(2)] by blast
  note a0 = inv_ahead [OF inv d0(1,2)]
  have "rot_dist64 ?E k s = slot_dist ?E k s"
    using slot_dist_pos [OF a0 d0(3)] by (simp add: rot_dist64_def d0(4))
  then have D': "unat D = (?E div 64 ^ k + slot_dist ?E k s) * 64 ^ k" using D by simp
  then have D0: "unat D = slot_start ?E d0" using slot_start_dist [OF a0 d0(3)] by (simp add: d0(4))
  have other: "if i \<in> set (slot_at w k s) then slot_start ?E d = unat D \<and> level_of ?E d = k
      else unat D < slot_start ?E d"
    if i: "i \<notin> P" "timers (wh_sleeps w) i = Some d" for i d
  proof -
    note a = inv_ahead [OF inv i]
    let ?j = "level_of ?E d"
    have own: "i \<in> set (slot_at w ?j (slot_of ?j d))" by (rule in_own_slot [OF inv i])
    have "\<not> ?j < k"
      using below [of ?j] own bitfield_0_iff [OF inv, of ?j] k slot_of_lt [of ?j d] by force
    then consider (same) "?j = k" | (higher) "k < ?j" by linarith
    then show ?thesis
    proof cases
      case same
      then have "bit (lv_bitfield ?l) (slot_of k d)"
        using own slot_of_lt [of k d] by (auto simp: occ)
      then have le: "slot_dist ?E k s \<le> slot_dist ?E k (slot_of k d)" by (rule min)
      have start: "slot_start ?E d = (?E div 64 ^ k + slot_dist ?E k (slot_of k d)) * 64 ^ k"
        by (rule slot_start_dist [OF a same])
      have mem: "i \<in> set (slot_at w k s) \<longleftrightarrow> slot_of k d = s"
        using i same by (simp add: slot_iff [OF inv k x(2)])
      have inj: "slot_of k d = s" if "slot_dist ?E k s = slot_dist ?E k (slot_of k d)"
        using that rot_back [OF x(2), of "?E div 64 ^ k"]
          rot_back [OF slot_of_lt [of k d], of "?E div 64 ^ k"]
        by (simp add: slot_dist_def)
      show ?thesis
      proof (cases "slot_of k d = s")
        case True
        then show ?thesis using start D' mem same by simp
      next
        case False
        then have "slot_dist ?E k s < slot_dist ?E k (slot_of k d)" using le inj by fastforce
        then show ?thesis using start D' mem False by simp
      qed
    next
      case higher
      then have "i \<notin> set (slot_at w k s)" using i by (auto simp: slot_iff [OF inv k x(2)])
      moreover have "slot_start ?E d0 < slot_start ?E d"
        using slot_start_level_less [OF a0(1) a(1)] higher d0(3) by simp
      ultimately show ?thesis using D0 by simp
    qed
  qed
  have "wh_elapsed w < D" using now_lt_slot_start [OF a0(1)] D0 by (simp add: word_less_nat_alt)
  then have "expiry_ok P w \<lparr> ex_level = k, ex_slot = s, ex_deadline = D \<rparr>"
    using k x(2,3) occ other by (simp add: expiry_ok_def)
  with x(1) show ?thesis by blast
qed

lemma next_expiration_spec:
  assumes inv: "wheels_inv P w" and rm: "room (wh_elapsed w)"
  shows "(next_expiration C w = Inr None \<and> (\<forall>i. i \<notin> P \<longrightarrow> timers (wh_sleeps w) i = None)) \<or>
    (\<exists>x. next_expiration C w = Inr (Some x) \<and> expiry_ok P w x)"
proof (cases "\<forall>k < 6. lv_bitfield (wh_levels w ! k) = 0")
  case True
  then have "next_expiration C w = Inr None"
    unfolding next_expiration_def by (intro scan_levels_None [OF inv]) auto
  moreover have "timers (wh_sleeps w) i = None" if "i \<notin> P" for i
    using in_own_slot [OF inv that] True bitfield_0_iff [OF inv] level_of_lt slot_of_lt
    by (metis empty_iff list.set(1) not_Some_eq)
  ultimately show ?thesis by blast
next
  case False
  define k where "k = (LEAST k. k < 6 \<and> lv_bitfield (wh_levels w ! k) \<noteq> 0)"
  have k: "k < 6" "lv_bitfield (wh_levels w ! k) \<noteq> 0"
    using LeastI_ex [of "\<lambda>k. k < 6 \<and> lv_bitfield (wh_levels w ! k) \<noteq> 0"] False
    unfolding k_def by blast+
  have below: "lv_bitfield (wh_levels w ! j) = 0" if "j < k" for j
    using not_less_Least [of j "\<lambda>k. k < 6 \<and> lv_bitfield (wh_levels w ! k) \<noteq> 0"] that k(1)
    unfolding k_def [symmetric] by auto
  obtain x where x: "level_next_expiration C (wh_levels w ! k) (wh_elapsed w) = Inr (Some x)" "expiry_ok P w x"
    using level_expiry_ok [OF inv rm k below] by blast
  have "[0..<6] = [0..<k] @ k # [Suc k..<6]"
    using upt_add_eq_append [of 0 k "6 - k"] upt_conv_Cons [OF k(1)] k(1) by simp
  then have "next_expiration C w = Inr (Some x)"
    unfolding next_expiration_def
    using scan_levels_first [OF inv _ k(1) x(1), of "[0..<k]"] below k(1) by auto
  with x(2) show ?thesis by blast
qed

end
