(* ===== verification/Timer_Fire.thy ===== *)
theory Timer_Fire
  imports Timer_Inv
begin

text \<open>
  The effect of the single operations of the wheel: firing entries, taking a slot, and inserting
  and removing one entry, each with its effect on the invariant.
\<close>

section \<open>Firing\<close>

text \<open>Firing a set of sleeps, and the wakers it wakes.\<close>

definition fire_set :: "completion \<Rightarrow> nat set \<Rightarrow> sleeps \<Rightarrow> sleeps" where
  "fire_set c I m i =
     (if i \<in> I then map_option (\<lambda>sl. sl\<lparr>sl_entry := fst (fire_entry c (sl_entry sl))\<rparr>) (m i) else m i)"

definition wakers_of :: "sleeps \<Rightarrow> nat \<Rightarrow> nat list" where
  "wakers_of m i = (case m i of None \<Rightarrow> [] | Some sl \<Rightarrow> snd (fire_entry (Inr ()) (sl_entry sl)))"

definition fired_from :: "completion \<Rightarrow> wheels \<Rightarrow> nat list \<Rightarrow> wheels \<Rightarrow> bool" where
  "fired_from c w0 is w \<longleftrightarrow> distinct is \<and> (\<forall>i \<in> set is. timers (wh_sleeps w0) i \<noteq> None) \<and>
     wh_sleeps w = fire_set c (set is) (wh_sleeps w0) \<and>
     wh_woken w = wh_woken w0 @ concat (map (wakers_of (wh_sleeps w0)) is)"

text \<open>Two wheels with the same levels, elapsed time and shutdown flag.\<close>

definition same_wheel :: "wheels \<Rightarrow> wheels \<Rightarrow> bool" where
  "same_wheel w w' \<longleftrightarrow> wh_levels w' = wh_levels w \<and> wh_elapsed w' = wh_elapsed w \<and>
     wh_shutdown w' = wh_shutdown w"

lemma same_wheel_refl [simp]: "same_wheel w w"
  by (simp add: same_wheel_def)

lemma same_wheel_trans: "same_wheel u v \<Longrightarrow> same_wheel v w \<Longrightarrow> same_wheel u w"
  by (simp add: same_wheel_def)

lemma timers_fire_set [simp]:
  "timers (fire_set c I m) i = (if i \<in> I then None else timers m i)"
  by (simp add: timers_def fire_set_def split: option.splits)

lemma timers_fired_from:
  "fired_from c w0 is w \<Longrightarrow> timers (wh_sleeps w) i = (if i \<in> set is then None else timers (wh_sleeps w0) i)"
  by (simp add: fired_from_def)

lemma fired_from_refl: "fired_from c w [] w"
  by (simp add: fired_from_def fire_set_def fun_eq_iff)

lemma fire_set_insert:
  "m i = Some sl \<Longrightarrow> i \<notin> I \<Longrightarrow>
   set_entry i (fst (fire_entry c (sl_entry sl))) (fire_set c I m) = fire_set c (insert i I) m"
  by (rule ext) (simp add: fire_set_def set_entry_def)

lemma snd_fire_entry: "snd (fire_entry c e) = snd (fire_entry c' e)"
  by (simp add: fire_entry_def)

lemma fire_step:
  assumes ff: "fired_from c w0 is w" and i: "timers (wh_sleeps w) i = Some d"
  shows "\<exists>w'. fire c i w = Inr w' \<and> fired_from c w0 (is @ [i]) w' \<and> same_wheel w w'"
proof -
  have i0: "i \<notin> set is" "timers (wh_sleeps w0) i = Some d"
    using i by (simp_all add: timers_fired_from [OF ff] split: if_splits)
  then obtain sl where sl: "wh_sleeps w0 i = Some sl" by (auto simp: timers_Some)
  have w: "wh_sleeps w = fire_set c (set is) (wh_sleeps w0)" using ff by (simp add: fired_from_def)
  then have "wh_sleeps w i = Some sl" using sl i0(1) by (simp add: fire_set_def)
  then have "fire c i w = Inr (w\<lparr> wh_sleeps := fire_set c (insert i (set is)) (wh_sleeps w0),
      wh_woken := wh_woken w @ snd (fire_entry c (sl_entry sl)) \<rparr>)"
    using fire_set_insert [of "wh_sleeps w0" i sl "set is" c] sl i0(1)
    by (simp add: fire_def entry_at_def w)
  moreover have "wakers_of (wh_sleeps w0) i = snd (fire_entry c (sl_entry sl))"
    using sl by (simp add: wakers_of_def snd_fire_entry [of c _ "Inr ()"])
  ultimately show ?thesis
    using ff i0 by (simp add: fired_from_def same_wheel_def)
qed

lemma same_wheel_inv:
  assumes "wheels_inv P w" and "same_wheel w w'"
    and "\<And>i. i \<notin> P \<Longrightarrow> timers (wh_sleeps w') i = timers (wh_sleeps w) i"
  shows "wheels_inv P w'"
  using assms(2,3) by (intro wheels_inv_frame [OF assms(1)]) (simp_all add: same_wheel_def)

lemma fire_all_spec:
  assumes "fired_from c w0 is w" and "distinct es"
    and "\<And>i. i \<in> set es \<Longrightarrow> timers (wh_sleeps w) i \<noteq> None"
  shows "\<exists>w'. fire_all c es w = Inr w' \<and> fired_from c w0 (is @ es) w' \<and> same_wheel w w'"
  using assms
proof (induction es arbitrary: "is" w)
  case Nil
  then show ?case by simp
next
  case (Cons i es)
  obtain d where "timers (wh_sleeps w) i = Some d" using Cons.prems(3) by force
  then obtain w' where w': "fire c i w = Inr w'" "fired_from c w0 (is @ [i]) w'" "same_wheel w w'"
    using fire_step [OF Cons.prems(1)] by blast
  have "timers (wh_sleeps w') j \<noteq> None" if "j \<in> set es" for j
    using that Cons.prems(2) Cons.prems(3) [of j]
    by (auto simp: timers_fired_from [OF w'(2)] timers_fired_from [OF Cons.prems(1)])
  then obtain w'' where "fire_all c es w' = Inr w''" "fired_from c w0 ((is @ [i]) @ es) w''" "same_wheel w' w''"
    using Cons.IH [OF w'(2)] Cons.prems(2) by auto
  then show ?case using w' same_wheel_trans [OF w'(3)] by simp
qed

section \<open>Taking a slot\<close>

lemma bit_occupied: "bit (occupied_bit s) n \<longleftrightarrow> n = s \<and> s < 64"
  by (auto simp: occupied_bit_def bit_exp_iff)

lemma slot_at_set_level:
  assumes "length (wh_levels w) = 6" and "k < 6"
  shows "slot_at (set_level k l w) j s = (if j = k then lv_slots l ! s else slot_at w j s)"
  using assms by (simp add: slot_at_def set_level_def nth_list_update)

lemma set_level_simps [simp]:
  "wh_elapsed (set_level k l w) = wh_elapsed w" "wh_shutdown (set_level k l w) = wh_shutdown w"
  "wh_sleeps (set_level k l w) = wh_sleeps w" "wh_woken (set_level k l w) = wh_woken w"
  "wh_levels (set_level k l w) = (wh_levels w)[k := l]"
  by (simp_all add: set_level_def)

text \<open>
  Replacing one slot by a list \<open>es\<close>, with its bit right: how the invariant changes with \<open>P\<close>.
\<close>

lemma replace_slot_inv:
  assumes inv: "wheels_inv P w" and k: "k < 6" and s: "s < 64" and "distinct es"
    and l': "lv_level l' = k" "lv_slots l' = (lv_slots (wh_levels w ! k))[s := es]"
    and bits: "\<And>n. n < 64 \<Longrightarrow> bit (lv_bitfield l') n \<longleftrightarrow>
      (if n = s then es \<noteq> [] else bit (lv_bitfield (wh_levels w ! k)) n)"
    and exact: "\<And>i d. timers (wh_sleeps w) i = Some d \<Longrightarrow>
      level_of (unat (wh_elapsed w)) d = k \<and> slot_of k d = s \<Longrightarrow> i \<in> set es \<longleftrightarrow> i \<notin> Q"
    and sub: "\<And>i. i \<in> set es \<Longrightarrow> \<exists>d. timers (wh_sleeps w) i = Some d \<and>
      level_of (unat (wh_elapsed w)) d = k \<and> slot_of k d = s"
    and rest: "\<And>i d. timers (wh_sleeps w) i = Some d \<Longrightarrow>
      \<not> (level_of (unat (wh_elapsed w)) d = k \<and> slot_of k d = s) \<Longrightarrow> i \<in> Q \<longleftrightarrow> i \<in> P"
    and ahead: "\<And>i d. i \<notin> Q \<Longrightarrow> timers (wh_sleeps w) i = Some d \<Longrightarrow>
      unat (wh_elapsed w) < d \<and> in_window (unat (wh_elapsed w)) d"
  shows "wheels_inv Q (set_level k l' w)"
proof -
  let ?E = "unat (wh_elapsed w)" and ?w = "set_level k l' w"
  note lv = inv_levels [OF inv]
  have slot: "slot_at ?w j t = (if j = k \<and> t = s then es else slot_at w j t)" if "t < 64" for j t
    using slot_at_set_level [OF lv(1) k, of l' j t] that s k lv(3) [OF k]
    by (simp add: l'(2) nth_list_update slot_at_def)
  have "wf_levels ?w"
    unfolding wf_levels_def
    using lv(1,2,3,4) k bits l' s by (auto simp: nth_list_update slot slot_at_def [of w])
  moreover have "slots_exact Q ?w"
    unfolding slots_exact_def
  proof (intro allI impI)
    fix j t :: nat assume j: "j < 6" and t: "t < 64"
    have "i \<in> set (slot_at ?w j t) \<longleftrightarrow> i \<notin> Q \<and> (\<exists>d. timers (wh_sleeps w) i = Some d \<and>
        level_of ?E d = j \<and> slot_of j d = t)" for i
    proof (cases "timers (wh_sleeps w) i")
      case None
      then show ?thesis using sub [of i] by (auto simp: slot [OF t] slot_iff [OF inv j t])
    next
      case (Some d)
      show ?thesis
      proof (cases "j = k \<and> t = s")
        case True
        then have "slot_at ?w j t = es" using slot [OF t, of j] by presburger
        then show ?thesis using exact [OF Some] sub [of i] Some True by (metis option.inject)
      next
        case False
        then have "slot_at ?w j t = slot_at w j t" by (simp only: slot [OF t] if_False)
        then have "i \<in> set (slot_at ?w j t) \<longleftrightarrow> i \<notin> P \<and> level_of ?E d = j \<and> slot_of j d = t"
          by (simp add: slot_iff [OF inv j t] Some)
        moreover have "i \<in> Q \<longleftrightarrow> i \<in> P" if "level_of ?E d = j \<and> slot_of j d = t"
          using rest [OF Some] that False by blast
        ultimately show ?thesis using Some by auto
      qed
    qed
    then show "distinct (slot_at ?w j t) \<and> set (slot_at ?w j t) = {i. i \<notin> Q \<and>
        (\<exists>d. timers (wh_sleeps ?w) i = Some d \<and> level_of (unat (wh_elapsed ?w)) d = j \<and> slot_of j d = t)}"
      using lv(5) [OF j t] assms(4) slot [OF t, of j] by (simp split: if_splits) blast+
  qed
  moreover have "deadlines_ahead Q ?w"
    using ahead by (simp add: deadlines_ahead_def)
  ultimately show ?thesis
    by (simp add: wheels_inv_def)
qed

lemma take_entries_spec:
  assumes C: "linked_list C" and inv: "wheels_inv P w" and x: "ex_level x < 6" "ex_slot x < 64"
  shows "\<exists>w1. take_entries C x w = Inr (slot_at w (ex_level x) (ex_slot x), w1) \<and>
    wheels_inv (P \<union> set (slot_at w (ex_level x) (ex_slot x))) w1 \<and>
    wh_elapsed w1 = wh_elapsed w \<and> wh_shutdown w1 = wh_shutdown w \<and>
    wh_sleeps w1 = wh_sleeps w \<and> wh_woken w1 = wh_woken w"
proof -
  let ?k = "ex_level x" and ?s = "ex_slot x"
  let ?es = "slot_at w ?k ?s" and ?l = "wh_levels w ! ?k"
  define l' where "l' = snd (take_slot C ?s ?l)"
  have l': "take_slot C ?s ?l = (?es, l')" "lv_level l' = ?k" "lv_slots l' = (lv_slots ?l)[?s := []]"
    "lv_bitfield l' = lv_bitfield ?l AND NOT (occupied_bit ?s)"
    using linked_list.split_off_0 [OF C] inv_levels(2) [OF inv x(1)]
    by (simp_all add: l'_def take_slot_def slot_at_def)
  have res: "take_entries C x w = Inr (?es, set_level ?k l' w)"
    by (simp add: take_entries_def level_at_inv [OF inv x(1)] l'(1) del: and_then_eq_Inr)
  have "wheels_inv (P \<union> set ?es) (set_level ?k l' w)"
    using inv_ahead [OF inv]
    by (intro replace_slot_inv [OF inv x, of "[]"])
      (auto simp: l' bit_and_iff bit_not_iff bit_occupied slot_iff [OF inv x] x)
  then show ?thesis using res by simp
qed

section \<open>Inserting and removing one entry\<close>

text \<open>An entry taken out of the slots is put back where its deadline belongs.\<close>

lemma wheels_insert_spec:
  assumes C: "linked_list C" and inv: "wheels_inv P w" and i: "i \<in> P"
    and d: "timers (wh_sleeps w) i = Some d" "unat (wh_elapsed w) < d" "in_window (unat (wh_elapsed w)) d"
    and up: "\<not> wh_shutdown w"
  shows "\<exists>w'. wheels_insert C i w = Inr w' \<and> wheels_inv (P - {i}) w' \<and>
    wh_elapsed w' = wh_elapsed w \<and> wh_shutdown w' = wh_shutdown w \<and>
    wh_sleeps w' = wh_sleeps w \<and> wh_woken w' = wh_woken w"
proof -
  let ?E = "unat (wh_elapsed w)"
  let ?k = "level_of ?E d"
  let ?s = "slot_of ?k d" and ?l = "wh_levels w ! ?k"
  have k: "?k < 6" and s: "?s < 64" by (rule level_of_lt, rule slot_of_lt)
  obtain sl where sl: "wh_sleeps w i = Some sl" "en_state (sl_entry sl) = Registered"
    "unat (en_deadline (sl_entry sl)) = d"
    using d(1) by (auto simp: timers_Some)
  then have exp: "expiration_of C (wh_sleeps w) i = Inr (en_deadline (sl_entry sl))" by simp
  define l' where "l' = ?l\<lparr> lv_slots := (lv_slots ?l)[?s := i # slot_at w ?k ?s],
      lv_bitfield := lv_bitfield ?l OR occupied_bit ?s \<rparr>"
  have "add_entry C (wh_sleeps w) i ?l = Inr l'"
    using linked_list.push_front_law [OF C]
    by (simp add: add_entry_def exp Let_def l'_def slot_for_unat inv_levels(2) [OF inv k] slot_at_def sl(3))
  moreover have "wheel_for (wh_elapsed w) (en_deadline (sl_entry sl)) = ?k"
    by (simp add: wheel_for_eq sl(3))
  moreover have "\<not> en_deadline (sl_entry sl) \<le> wh_elapsed w"
    using d(2) by (simp add: sl(3) word_le_nat_alt)
  ultimately have res: "wheels_insert C i w = Inr (set_level ?k l' w)"
    using up by (simp add: wheels_insert_def exp Let_def level_at_inv [OF inv k] del: and_then_eq_Inr)
  have "i \<notin> set (slot_at w ?k ?s)" using i by (simp add: slot_iff [OF inv k s])
  then have "wheels_inv (P - {i}) (set_level ?k l' w)"
    using inv_ahead [OF inv] d
    by (intro replace_slot_inv [OF inv k s, of "i # slot_at w ?k ?s"])
      (auto simp: l'_def inv_levels [OF inv] k s bit_or_iff bit_occupied slot_iff [OF inv k s])
  then show ?thesis using res by simp
qed

lemma remove1_Nil: "remove1 x xs = [] \<longleftrightarrow> xs = [] \<or> xs = [x]"
  by (cases xs) auto

text \<open>Removing a linked entry unlinks it; it is found, and the bit of its slot is kept right.\<close>

lemma wheels_remove_spec:
  assumes C: "linked_list C" and inv: "wheels_inv P w" and i: "i \<notin> P" "timers (wh_sleeps w) i = Some d"
  shows "\<exists>w'. wheels_remove C i w = Inr (Some i, w') \<and> wheels_inv (insert i P) w' \<and>
    wh_elapsed w' = wh_elapsed w \<and> wh_shutdown w' = wh_shutdown w \<and>
    wh_sleeps w' = wh_sleeps w \<and> wh_woken w' = wh_woken w"
proof -
  let ?E = "unat (wh_elapsed w)"
  let ?k = "level_of ?E d"
  let ?s = "slot_of ?k d" and ?l = "wh_levels w ! ?k"
  let ?es = "slot_at w ?k ?s"
  let ?rest = "remove1 i ?es"
  have k: "?k < 6" and s: "?s < 64" by (rule level_of_lt, rule slot_of_lt)
  obtain sl where sl: "wh_sleeps w i = Some sl" "en_state (sl_entry sl) = Registered"
    "unat (en_deadline (sl_entry sl)) = d"
    using i(2) by (auto simp: timers_Some)
  then have exp: "expiration_of C (wh_sleeps w) i = Inr (en_deadline (sl_entry sl))" by simp
  have own: "i \<in> set ?es" by (rule in_own_slot [OF inv i])
  have dist: "distinct ?es" by (rule inv_levels(5) [OF inv k s])
  have occ: "bit (lv_bitfield ?l) ?s" using own inv_levels(4) [OF inv k s] by auto
  then have occ0: "lv_bitfield ?l AND occupied_bit ?s \<noteq> 0"
    using bit_and_iff [of "lv_bitfield ?l" "occupied_bit ?s" ?s] s by (auto simp: bit_occupied)
  define l' where "l' = ?l\<lparr> lv_slots := (lv_slots ?l)[?s := ?rest],
      lv_bitfield := (if ?rest = [] then lv_bitfield ?l XOR occupied_bit ?s else lv_bitfield ?l) \<rparr>"
  have "remove_entry C (wh_sleeps w) i ?l = Inr (Some i, l')"
    using linked_list.list_remove_law [OF C dist, of i] linked_list.list_is_empty_law [OF C] own occ0
    by (simp add: remove_entry_def exp Let_def l'_def slot_for_unat inv_levels(2) [OF inv k]
        slot_at_def [symmetric] sl(3) del: and_then_eq_Inr)
  moreover have "wheel_for (wh_elapsed w) (en_deadline (sl_entry sl)) = ?k"
    by (simp add: wheel_for_eq sl(3))
  ultimately have res: "wheels_remove C i w = Inr (Some i, set_level ?k l' w)"
    by (simp add: wheels_remove_def exp Let_def level_at_inv [OF inv k] del: and_then_eq_Inr)
  have "wheels_inv (insert i P) (set_level ?k l' w)"
  proof (rule replace_slot_inv [OF inv k s, of ?rest])
    fix n :: nat assume "n < 64"
    then show "bit (lv_bitfield l') n \<longleftrightarrow> (if n = ?s then ?rest \<noteq> [] else bit (lv_bitfield ?l) n)"
      using occ by (auto simp: l'_def bit_xor_iff bit_occupied)
  qed (use inv_ahead [OF inv] dist i in
      \<open>auto simp: l'_def inv_levels [OF inv] k s slot_iff [OF inv k s]\<close>)
  then show ?thesis using res by simp
qed

end
