(* ===== verification/Timer_Advance.thy ===== *)
theory Timer_Advance
  imports Timer_Fire
begin

text \<open>
  Advancing the wheel. The loop of \<open>Wheels::advance\<close> ends because every round moves the elapsed time
  forward; its invariant relates the wheel in the middle of the loop to the wheel at the start by the
  list of the entries fired so far.
\<close>

section \<open>The entries of one slot\<close>

definition due :: "u64 \<Rightarrow> sleeps \<Rightarrow> nat set" where
  "due now m = {i. \<exists>d. timers m i = Some d \<and> d \<le> unat now}"

definition late :: "u64 \<Rightarrow> sleeps \<Rightarrow> nat \<Rightarrow> bool" where
  "late now m i \<longleftrightarrow> (\<exists>d. timers m i = Some d \<and> unat now < d)"

lemma late_iff: "timers m i = Some d \<Longrightarrow> late now m i \<longleftrightarrow> unat now < d"
  by (simp add: late_def)

lemma late_fired_from:
  assumes "fired_from c w0 is w" and "timers (wh_sleeps w) i \<noteq> None"
  shows "late now (wh_sleeps w) i \<longleftrightarrow> late now (wh_sleeps w0) i"
    and "timers (wh_sleeps w) i = timers (wh_sleeps w0) i"
  using assms by (simp_all add: late_def timers_fired_from [OF assms(1)] split: if_splits)

lemma advance_entries_spec:
  assumes C: "linked_list C" and "fired_from (Inr ()) w0 is w" and "distinct es"
    and "\<And>i. i \<in> set es \<Longrightarrow> timers (wh_sleeps w) i \<noteq> None"
    and "\<And>i. i \<in> set es \<Longrightarrow> ex_level x = 0 \<Longrightarrow> \<not> late now (wh_sleeps w0) i"
  shows "\<exists>w'. advance_entries C now x es (p, f, w) =
      Inr (rev (filter (late now (wh_sleeps w0)) es) @ p,
           f + length (filter (\<lambda>i. \<not> late now (wh_sleeps w0) i) es), w') \<and>
    fired_from (Inr ()) w0 (is @ filter (\<lambda>i. \<not> late now (wh_sleeps w0) i) es) w' \<and> same_wheel w w'"
  using assms(2-)
proof (induction es arbitrary: "is" w p f)
  case Nil
  then show ?case by simp
next
  case (Cons i es)
  note ff = Cons.prems(1)
  obtain d where d: "timers (wh_sleeps w) i = Some d" using Cons.prems(3) [of i] by auto
  then obtain sl where sl: "wh_sleeps w i = Some sl" "en_state (sl_entry sl) = Registered"
    "unat (en_deadline (sl_entry sl)) = d" by (auto simp: timers_Some)
  then have exp: "expiration_of C (wh_sleeps w) i = Inr (en_deadline (sl_entry sl))" by simp
  have late: "late now (wh_sleeps w0) i \<longleftrightarrow> now < en_deadline (sl_entry sl)"
    using late_fired_from(1) [OF ff, of i now] d by (simp add: late_iff sl(3) word_less_nat_alt)
  show ?case
  proof (cases "late now (wh_sleeps w0) i")
    case True
    then have lx: "0 < ex_level x" using Cons.prems(4) [of i] by auto
    from True have step: "advance_entries C now x (i # es) (p, f, w) = advance_entries C now x es (i # p, f, w)"
      using exp late lx linked_list.push_front_law [OF C]
      by (simp del: and_then_eq_Inr)
    show ?thesis
      using Cons.IH [OF ff, of "i # p" f] Cons.prems(2,3,4) True unfolding step by simp
  next
    case False
    obtain w' where w': "fire (Inr ()) i w = Inr w'" "fired_from (Inr ()) w0 (is @ [i]) w'" "same_wheel w w'"
      using fire_step [OF ff d] by blast
    have step: "advance_entries C now x (i # es) (p, f, w) = advance_entries C now x es (p, Suc f, w')"
      using exp late False w'(1) by (simp del: and_then_eq_Inr)
    have "timers (wh_sleeps w') j \<noteq> None" if "j \<in> set es" for j
      using that Cons.prems(2) Cons.prems(3) [of j]
      by (auto simp: timers_fired_from [OF w'(2)] timers_fired_from [OF ff])
    then show ?thesis
      using Cons.IH [OF w'(2), of p "Suc f"] Cons.prems(2,4) False same_wheel_trans [OF w'(3)]
      unfolding step by auto
  qed
qed

section \<open>One round of the loop\<close>

definition nxt_ok :: "nat set \<Rightarrow> wheels \<Rightarrow> expiry option \<Rightarrow> bool" where
  "nxt_ok P w nxt = (case nxt of
     None \<Rightarrow> \<forall>i. i \<notin> P \<longrightarrow> timers (wh_sleeps w) i = None
   | Some x \<Rightarrow> expiry_ok P w x)"

lemma next_expiration_ok:
  assumes "wheels_inv P w" and "room (wh_elapsed w)"
  shows "\<exists>nxt. next_expiration C w = Inr nxt \<and> nxt_ok P w nxt"
  using next_expiration_spec [OF assms, of C] by (auto simp: nxt_ok_def)

definition advancing :: "wheels \<Rightarrow> u64 \<Rightarrow> nat list \<Rightarrow> nat list \<times> nat \<times> wheels \<Rightarrow> bool" where
  "advancing w0 now is st = (case st of (p, f, w) \<Rightarrow>
     wheels_inv (set p) w \<and> distinct p \<and> fired_from (Inr ()) w0 is w \<and> f = length is \<and>
     (\<forall>i \<in> set is. \<not> late now (wh_sleeps w0) i) \<and>
     (\<forall>i \<in> set p. late now (wh_sleeps w) i \<and>
        (\<forall>d. timers (wh_sleeps w) i = Some d \<longrightarrow> in_window (unat now) d)) \<and>
     wh_elapsed w \<le> now \<and> wh_shutdown w = wh_shutdown w0)"

lemma expiry_okD:
  assumes "expiry_ok P w x"
  shows "ex_level x < 6" and "ex_slot x < 64" and "wh_elapsed w < ex_deadline x"
    and "i \<notin> P \<Longrightarrow> timers (wh_sleeps w) i = Some d \<Longrightarrow>
      i \<in> set (slot_at w (ex_level x) (ex_slot x)) \<Longrightarrow> slot_start (unat (wh_elapsed w)) d = unat (ex_deadline x)"
    and "i \<notin> P \<Longrightarrow> timers (wh_sleeps w) i = Some d \<Longrightarrow>
      i \<in> set (slot_at w (ex_level x) (ex_slot x)) \<Longrightarrow> level_of (unat (wh_elapsed w)) d = ex_level x"
    and "i \<notin> P \<Longrightarrow> timers (wh_sleeps w) i = Some d \<Longrightarrow>
      i \<notin> set (slot_at w (ex_level x) (ex_slot x)) \<Longrightarrow> unat (ex_deadline x) < slot_start (unat (wh_elapsed w)) d"
  using assms by (auto simp: expiry_ok_def split: if_splits)

lemma set_elapsed_forward:
  "wh_elapsed w \<le> X \<Longrightarrow> set_elapsed X w = Inr (w\<lparr>wh_elapsed := X\<rparr>)"
  by (auto simp: set_elapsed_def)

lemma advance_body_spec:
  assumes C: "linked_list C" and adv: "advancing w0 now is (p, f, w)" and rm: "room now"
    and x: "expiry_ok (set p) w x" "ex_deadline x \<le> now"
  shows "\<exists>nxt is' p' f' w'. advance_body C now x (p, f, w) = Inr (nxt, p', f', w') \<and>
    advancing w0 now is' (p', f', w') \<and> nxt_ok (set p') w' nxt \<and> wh_elapsed w < wh_elapsed w'"
proof -
  let ?E = "unat (wh_elapsed w)" and ?D = "unat (ex_deadline x)"
  note X = expiry_okD [OF x(1)]
  have inv: "wheels_inv (set p) w" and ff: "fired_from (Inr ()) w0 is w" and f: "f = length is"
    and pl: "\<And>i. i \<in> set p \<Longrightarrow> late now (wh_sleeps w) i"
    and pw: "\<And>i d. i \<in> set p \<Longrightarrow> timers (wh_sleeps w) i = Some d \<Longrightarrow> in_window (unat now) d"
    using adv by (auto simp: advancing_def)
  let ?es = "slot_at w (ex_level x) (ex_slot x)"
  obtain w1 where w1: "take_entries C x w = Inr (?es, w1)" "wheels_inv (set p \<union> set ?es) w1"
    "wh_elapsed w1 = wh_elapsed w" "wh_shutdown w1 = wh_shutdown w"
    "wh_sleeps w1 = wh_sleeps w" "wh_woken w1 = wh_woken w"
    using take_entries_spec [OF C inv X(1,2)] by blast
  have ff1: "fired_from (Inr ()) w0 is w1" using ff by (simp add: fired_from_def w1)
  have es: "i \<notin> set p" "timers (wh_sleeps w) i \<noteq> None" if "i \<in> set ?es" for i
    using that by (auto simp: slot_iff [OF inv X(1,2)])
  have lvl0: "\<not> late now (wh_sleeps w0) i" if m: "i \<in> set ?es" and l0: "ex_level x = 0" for i
  proof -
    obtain d where d: "timers (wh_sleeps w) i = Some d" using es(2) [OF m] by blast
    have "slot_start ?E d = d" using X(5) [OF es(1) [OF m] d m] l0 by (simp add: slot_start_def)
    then have "d = ?D" using X(4) [OF es(1) [OF m] d m] by simp
    then show ?thesis
      using late_fired_from(1) [OF ff, of i now] d x(2) by (simp add: late_iff word_le_nat_alt)
  qed
  define L where "L = filter (late now (wh_sleeps w0)) ?es"
  define D where "D = filter (\<lambda>i. \<not> late now (wh_sleeps w0) i) ?es"
  obtain w2 where w2: "advance_entries C now x ?es (p, f, w1) = Inr (rev L @ p, f + length D, w2)"
    "fired_from (Inr ()) w0 (is @ D) w2" "same_wheel w1 w2"
    using advance_entries_spec [OF C ff1 inv_levels(5) [OF inv X(1,2)], of x now p f] es(2) lvl0
    by (auto simp: w1 L_def D_def)
  have es_split: "set ?es = set L \<union> set D" by (auto simp: L_def D_def)
  have t2: "timers (wh_sleeps w2) i = (if i \<in> set D then None else timers (wh_sleeps w) i)" for i
    by (simp add: timers_fired_from [OF w2(2)] timers_fired_from [OF ff])
  have inv2: "wheels_inv (set p \<union> set ?es) w2"
    using w2(3) by (intro same_wheel_inv [OF w1(2)]) (simp_all add: t2 w1 es_split)
  have e2: "wh_elapsed w2 = wh_elapsed w" using w2(3) w1(3) by (simp add: same_wheel_def)
  let ?w3 = "w2\<lparr>wh_elapsed := ex_deadline x\<rparr>"
  have le: "wh_elapsed w2 \<le> ex_deadline x" using X(3) e2 by simp
  have "wheels_inv (set p \<union> set ?es) ?w3"
    using X(6) le by (intro wheels_inv_elapsed [OF inv2]) (auto simp: t2 e2 split: if_splits)
  then have inv3: "wheels_inv (set (rev L @ p)) ?w3"
    by (rule wheels_inv_shrink) (use es_split in \<open>auto simp: t2\<close>)
  obtain nxt where nxt: "next_expiration C ?w3 = Inr nxt" "nxt_ok (set (rev L @ p)) ?w3 nxt"
    using next_expiration_ok [OF inv3, of C] room_mono [OF rm x(2)] by auto
  have res: "advance_body C now x (p, f, w) = Inr (nxt, rev L @ p, f + length D, ?w3)"
    using w1(1) w2(1) set_elapsed_forward [OF le] nxt(1) linked_list.into_iter_law [OF C]
    by (simp add: advance_body_def del: and_then_eq_Inr)
  have pend: "late now (wh_sleeps w2) i \<and> (\<forall>d. timers (wh_sleeps w2) i = Some d \<longrightarrow> in_window (unat now) d)"
    if "i \<in> set (rev L @ p)" for i
  proof -
    have nD: "i \<notin> set D" using that es(1) by (auto simp: L_def D_def)
    show ?thesis
    proof (cases "i \<in> set p")
      case True
      then show ?thesis using pl [OF True] pw [OF True] nD by (simp add: t2 late_def)
    next
      case False
      then have L: "i \<in> set ?es" "late now (wh_sleeps w0) i" using that by (auto simp: L_def)
      have "?E \<le> unat now" using X(3) x(2) by (simp add: word_le_nat_alt word_less_nat_alt)
      then have "in_window (unat now) d" if "timers (wh_sleeps w) i = Some d" for d
        using in_window_advance [OF inv_ahead(2) [OF inv False that]] by blast
      then show ?thesis
        using late_fired_from(1) [OF ff es(2) [OF L(1)], of now] L(2) nD by (simp add: t2 late_def)
    qed
  qed
  have "distinct (rev L @ p)"
    using adv inv_levels(5) [OF inv X(1,2)] es(1) by (auto simp: L_def advancing_def)
  moreover have "\<not> late now (wh_sleeps w0) i" if "i \<in> set (is @ D)" for i
    using that adv by (auto simp: advancing_def D_def)
  moreover have "fired_from (Inr ()) w0 (is @ D) ?w3" using w2(2) by (simp add: fired_from_def)
  moreover have "wh_shutdown ?w3 = wh_shutdown w0"
    using adv w1(4) w2(3) by (simp add: advancing_def same_wheel_def)
  ultimately have "advancing w0 now (is @ D) (rev L @ p, f + length D, ?w3)"
    using inv3 pend x(2) f by (simp add: advancing_def)
  then show ?thesis using res nxt(2) X(3) by fastforce
qed

section \<open>The loop\<close>

lemma advance_loop_spec:
  assumes C: "linked_list C" and rm: "room now"
    and "advancing w0 now is (p, f, w)" and "nxt_ok (set p) w nxt"
  shows "\<exists>nxt' is' p' f' w'. advance_loop C now nxt (p, f, w) = Some (Inr (nxt', p', f', w')) \<and>
    advancing w0 now is' (p', f', w') \<and> nxt_ok (set p') w' nxt' \<and>
    (\<forall>x. nxt' = Some x \<longrightarrow> now < ex_deadline x)"
  using assms(3,4)
proof (induction "unat now - unat (wh_elapsed w)" arbitrary: "is" p f w nxt rule: less_induct)
  case less
  show ?case
  proof (cases "\<exists>x. nxt = Some x \<and> ex_deadline x \<le> now")
    case True
    then obtain x where x: "nxt = Some x" "ex_deadline x \<le> now" by blast
    obtain nxt1 is1 p1 f1 w1 where body: "advance_body C now x (p, f, w) = Inr (nxt1, p1, f1, w1)"
      and adv1: "advancing w0 now is1 (p1, f1, w1)" "nxt_ok (set p1) w1 nxt1" "wh_elapsed w < wh_elapsed w1"
      using advance_body_spec [OF C less.prems(1) rm _ x(2)] less.prems(2) x(1) by (auto simp: nxt_ok_def)
    have "wh_elapsed w1 \<le> now" using adv1(1) by (simp add: advancing_def)
    then have "unat now - unat (wh_elapsed w1) < unat now - unat (wh_elapsed w)"
      using adv1(3) by (simp add: word_less_nat_alt word_le_nat_alt)
    moreover have "\<not> now < ex_deadline x" using x(2) by simp
    ultimately show ?thesis
      using less.hyps [OF _ adv1(1,2)] body x(1)
      by (simp add: advance_loop.simps [of C now "Some x"] del: and_then_eq_Inr)
  next
    case False
    then have "advance_loop C now nxt (p, f, w) = Some (Inr (nxt, p, f, w))"
      by (simp add: advance_loop.simps [of C now nxt] not_le split: option.splits)
    then show ?thesis using less.prems False by fastforce
  qed
qed

section \<open>Re-inserting the cascaded entries\<close>

lemma insert_all_spec:
  assumes C: "linked_list C" and "wheels_inv (set p) w" and "distinct p"
    and "\<And>i. i \<in> set p \<Longrightarrow> \<exists>d. timers (wh_sleeps w) i = Some d \<and> unat (wh_elapsed w) < d \<and>
      in_window (unat (wh_elapsed w)) d"
    and "p \<noteq> [] \<Longrightarrow> \<not> wh_shutdown w"
  shows "\<exists>w'. insert_all C p w = Inr w' \<and> wheels_inv {} w' \<and> wh_elapsed w' = wh_elapsed w \<and>
    wh_shutdown w' = wh_shutdown w \<and> wh_sleeps w' = wh_sleeps w \<and> wh_woken w' = wh_woken w"
  using assms(2-)
proof (induction p arbitrary: w)
  case Nil
  then show ?case by simp
next
  case (Cons i p)
  obtain d where d: "timers (wh_sleeps w) i = Some d" "unat (wh_elapsed w) < d" "in_window (unat (wh_elapsed w)) d"
    using Cons.prems(3) [of i] by auto
  obtain w' where w': "wheels_insert C i w = Inr w'" "wheels_inv (set (i # p) - {i}) w'"
    "wh_elapsed w' = wh_elapsed w" "wh_shutdown w' = wh_shutdown w"
    "wh_sleeps w' = wh_sleeps w" "wh_woken w' = wh_woken w"
    using wheels_insert_spec [OF C Cons.prems(1) _ d] Cons.prems(4) by auto
  have "set (i # p) - {i} = set p" using Cons.prems(2) by auto
  then show ?case
    using Cons.IH [of w'] w' Cons.prems(2,3,4) by (simp del: and_then_eq_Inr)
qed

section \<open>The whole of advance\<close>

text \<open>What \<open>advance\<close> reports as the next deadline.\<close>

definition next_deadline_ok :: "wheels \<Rightarrow> expiry option \<Rightarrow> bool" where
  "next_deadline_ok w nxt = (case nxt of
     None \<Rightarrow> \<forall>i. timers (wh_sleeps w) i = None
   | Some x \<Rightarrow> wh_elapsed w < ex_deadline x \<and> (\<exists>i. timers (wh_sleeps w) i \<noteq> None) \<and>
       (\<forall>i d. timers (wh_sleeps w) i = Some d \<longrightarrow> unat (ex_deadline x) \<le> d))"

lemma expiry_ok_le:
  assumes "expiry_ok P w x" and "i \<notin> P" and "timers (wh_sleeps w) i = Some d"
  shows "unat (ex_deadline x) \<le> slot_start (unat (wh_elapsed w)) d" and "unat (ex_deadline x) \<le> d"
proof -
  show "unat (ex_deadline x) \<le> slot_start (unat (wh_elapsed w)) d"
    using expiry_okD(4,6) [OF assms] by fastforce
  then show "unat (ex_deadline x) \<le> d" using slot_start_le le_trans by blast
qed

lemma expiry_ok_nonempty:
  assumes "wheels_inv P w" and "expiry_ok P w x"
  shows "\<exists>i. i \<notin> P \<and> timers (wh_sleeps w) i \<noteq> None"
proof -
  have "slot_at w (ex_level x) (ex_slot x) \<noteq> []"
    using assms(2) by (simp add: expiry_ok_def)
  then obtain i where "i \<in> set (slot_at w (ex_level x) (ex_slot x))"
    using list.set_sel(1) by blast
  then show ?thesis using slot_iff [OF assms(1) expiry_okD(1,2) [OF assms(2)]] by force
qed

lemma nxt_ok_deadline:
  assumes "wheels_inv {} w" and "nxt_ok {} w nxt"
  shows "next_deadline_ok w nxt"
  using assms expiry_ok_le(2) [of "{}" w] expiry_ok_nonempty [OF assms(1)] expiry_okD(3)
  by (auto simp: nxt_ok_def next_deadline_ok_def split: option.splits)

definition advance_result :: "u64 \<Rightarrow> wheels \<Rightarrow> nat \<Rightarrow> expiry option \<Rightarrow> wheels \<Rightarrow> bool" where
  "advance_result now w fired nxt w' \<longleftrightarrow>
     (\<exists>is. fired_from (Inr ()) w is w' \<and> set is = due now (wh_sleeps w) \<and> fired = length is) \<and>
     wheels_ok w' \<and> wh_elapsed w' = now \<and> wh_shutdown w' = wh_shutdown w \<and>
     next_deadline_ok w' nxt"

lemma advance_finish_spec:
  assumes C: "linked_list C" and rm: "room now" and inv0: "wheels_ok w0"
    and adv: "advancing w0 now is (p, f, w)" and ok: "nxt_ok (set p) w nxt"
    and after: "\<And>x. nxt = Some x \<Longrightarrow> now < ex_deadline x"
  shows "\<exists>fired nxt' w'. advance_finish C now (nxt, p, f, w) = Inr (fired, nxt', w') \<and>
    advance_result now w0 fired nxt' w'"
proof -
  have inv: "wheels_inv (set p) w" and ff: "fired_from (Inr ()) w0 is w" and f: "f = length is"
    and pl: "\<And>i. i \<in> set p \<Longrightarrow> late now (wh_sleeps w) i"
    and pw: "\<And>i d. i \<in> set p \<Longrightarrow> timers (wh_sleeps w) i = Some d \<Longrightarrow> in_window (unat now) d"
    and le: "wh_elapsed w \<le> now" and shut: "wh_shutdown w = wh_shutdown w0"
    and isl: "\<And>i. i \<in> set is \<Longrightarrow> \<not> late now (wh_sleeps w0) i" and dp: "distinct p"
    using adv by (auto simp: advancing_def)
  have start: "unat now < slot_start (unat (wh_elapsed w)) d"
    if "i \<notin> set p" "timers (wh_sleeps w) i = Some d" for i d
  proof (cases nxt)
    case None
    then show ?thesis using ok that by (simp add: nxt_ok_def)
  next
    case (Some x)
    then show ?thesis
      using expiry_ok_le(1) [of "set p" w x, OF _ that] ok after
      by (fastforce simp: nxt_ok_def word_less_nat_alt)
  qed
  let ?w1 = "w\<lparr>wh_elapsed := now\<rparr>"
  have inv1: "wheels_inv (set p) ?w1" by (rule wheels_inv_elapsed [OF inv le start])
  have up: "\<not> wh_shutdown w" if ne: "p \<noteq> []"
  proof -
    obtain i where "i \<in> set p" using ne by (cases p) auto
    then have "timers (wh_sleeps w0) i \<noteq> None"
      using pl [of i] by (auto simp: late_def timers_fired_from [OF ff] split: if_splits)
    then show ?thesis using inv0 shut by (auto simp: wheels_ok_def)
  qed
  have "\<exists>d. timers (wh_sleeps ?w1) i = Some d \<and> unat (wh_elapsed ?w1) < d \<and> in_window (unat (wh_elapsed ?w1)) d"
    if "i \<in> set p" for i
    using pl [OF that] pw [OF that] by (auto simp: late_def)
  moreover have "\<not> wh_shutdown ?w1" if "p \<noteq> []" using up that by simp
  ultimately have "\<exists>w'. insert_all C p ?w1 = Inr w' \<and> wheels_inv {} w' \<and> wh_elapsed w' = now \<and>
      wh_shutdown w' = wh_shutdown w \<and> wh_sleeps w' = wh_sleeps w \<and> wh_woken w' = wh_woken w"
    using insert_all_spec [OF C inv1 dp] by simp
  then obtain w2 where w2: "insert_all C p ?w1 = Inr w2" "wheels_inv {} w2" "wh_elapsed w2 = now"
    "wh_shutdown w2 = wh_shutdown w" "wh_sleeps w2 = wh_sleeps w" "wh_woken w2 = wh_woken w"
    by blast
  obtain nxt2 where nxt2: "next_expiration C w2 = Inr nxt2" "nxt_ok {} w2 nxt2"
    using next_expiration_ok [OF w2(2)] rm w2(3) by auto
  have "due now (wh_sleeps w0) \<subseteq> set is"
  proof
    fix i assume "i \<in> due now (wh_sleeps w0)"
    then obtain d where d: "timers (wh_sleeps w0) i = Some d" "d \<le> unat now" by (auto simp: due_def)
    show "i \<in> set is"
    proof (rule ccontr)
      assume "i \<notin> set is"
      then have dw: "timers (wh_sleeps w) i = Some d" using d(1) by (simp add: timers_fired_from [OF ff])
      then have "i \<notin> set p" using pl [of i] d(2) by (auto simp: late_def)
      then show False using start [OF _ dw] slot_start_le [of "unat (wh_elapsed w)" d] d(2) by simp
    qed
  qed
  moreover have "set is \<subseteq> due now (wh_sleeps w0)"
    using isl ff by (auto simp: fired_from_def due_def late_def not_less)
  ultimately have fired: "fired_from (Inr ()) w0 is w2" "set is = due now (wh_sleeps w0)"
    using ff by (simp_all add: fired_from_def w2)
  have last: "next_deadline_ok w2 nxt" if "p = []"
  proof (cases nxt)
    case None
    then show ?thesis using ok that w2(5) by (simp add: nxt_ok_def next_deadline_ok_def)
  next
    case (Some x)
    then have "expiry_ok {} w x" using ok that by (simp add: nxt_ok_def)
    then show ?thesis
      using expiry_ok_le(2) [of "{}" w x] expiry_ok_nonempty [of "{}" w x] inv that Some after w2(3,5)
      by (auto simp: next_deadline_ok_def)
  qed
  let ?nxt = "if p = [] then nxt else nxt2"
  have "advance_finish C now (nxt, p, f, w) = Inr (f, ?nxt, w2)"
    using set_elapsed_forward [OF le] w2(1) nxt2(1) linked_list.into_iter_law [OF C]
      linked_list.list_is_empty_law [OF C]
    by (simp add: advance_finish_def Let_def del: and_then_eq_Inr)
  moreover have "next_deadline_ok w2 ?nxt"
    using last nxt_ok_deadline [OF w2(2) nxt2(2)] by simp
  moreover have "wheels_ok w2"
    using inv0 w2 shut by (auto simp: wheels_ok_def timers_fired_from [OF ff])
  ultimately show ?thesis
    using fired w2 shut f unfolding advance_result_def by blast
qed

theorem advance_correct:
  assumes C: "linked_list C" and ok: "wheels_ok w" and le: "wh_elapsed w \<le> now" and rm: "room now"
  shows "\<exists>fired nxt w'. advance C now w = Some (Inr (fired, nxt, w')) \<and> advance_result now w fired nxt w'"
proof -
  have inv: "wheels_inv {} w" using ok by (simp add: wheels_ok_def)
  obtain nxt where nxt: "next_expiration C w = Inr nxt" "nxt_ok {} w nxt"
    using next_expiration_ok [OF inv, of C] room_mono [OF rm le] by blast
  have "advancing w now [] ([], 0, w)"
    using inv le fired_from_refl by (simp add: advancing_def)
  from advance_loop_spec [OF C rm this, of nxt] nxt(2)
  obtain nxt1 is1 p1 f1 w1 where "advance_loop C now nxt ([], 0, w) = Some (Inr (nxt1, p1, f1, w1))"
    and adv: "advancing w now is1 (p1, f1, w1)" "nxt_ok (set p1) w1 nxt1" "\<And>x. nxt1 = Some x \<Longrightarrow> now < ex_deadline x"
    by auto
  moreover obtain fired nxt' w' where "advance_finish C now (nxt1, p1, f1, w1) = Inr (fired, nxt', w')"
    "advance_result now w fired nxt' w'"
    using advance_finish_spec [OF C rm ok adv] by blast
  ultimately show ?thesis
    using nxt(1) linked_list.list_new_law [OF C] by (simp add: advance_def del: and_then_eq_Inr)
qed

end
