(* ===== verification/Timer_Sleep.thy ===== *)
theory Timer_Sleep
  imports Timer_Advance
begin

text \<open>
  The \<open>Sleep\<close> future of \<open>norn-timer/src/entry.rs\<close> and the interface it uses, the trait
  \<open>TimerList\<close>: \<open>add\<close> and \<open>remove\<close>. \<open>Sleep\<close> is written over a record of the two operations and of the
  access to the heap of sleeps; the locale \<open>timer_list\<close> states what a timer promises, the lemmas
  about \<open>Sleep\<close> are proved from it, and the wheel is an instance. \<open>Wheels::add\<close> and
  \<open>Wheels::shutdown\<close> are proved here too.
\<close>

record 't timer_ops =
  tl_add :: "nat \<Rightarrow> nat \<Rightarrow> 't \<Rightarrow> fault + 't"
  tl_remove :: "nat \<Rightarrow> 't \<Rightarrow> fault + 't"
  tl_sleeps :: "'t \<Rightarrow> sleeps"
  tl_put :: "sleeps \<Rightarrow> 't \<Rightarrow> 't"

definition wheel_ops :: "env \<Rightarrow> wheels timer_ops" where
  "wheel_ops C = \<lparr> tl_add = wheels_add C,
     tl_remove = (\<lambda>i w. and_then (wheels_remove C i w) (\<lambda>r. Inr (snd r))),
     tl_sleeps = wh_sleeps, tl_put = (\<lambda>m w. w\<lparr>wh_sleeps := m\<rparr>) \<rparr>"

text \<open>\<open>Handle::sleep\<close>: a new future at a fresh address.\<close>

definition sleep_create :: "'t timer_ops \<Rightarrow> nat \<Rightarrow> nat \<Rightarrow> 't \<Rightarrow> 't" where
  "sleep_create T i d t = tl_put T ((tl_sleeps T t)(i \<mapsto> sleep_new d)) t"

text \<open>
  \<open>Sleep::poll\<close>, whose \<open>loop\<close> goes round while the entry is not registered: \<open>None\<close> would be a loop
  that does not end.
\<close>

partial_function (option) sleep_poll ::
  "env \<Rightarrow> 't timer_ops \<Rightarrow> nat \<Rightarrow> nat \<Rightarrow> 't \<Rightarrow> (fault + (completion poll \<times> 't)) option"
where
  "sleep_poll C T i waker t =
     (case tl_sleeps T t i of
        None \<Rightarrow> Some (Inl Dangling)
      | Some sl \<Rightarrow>
          let e = sl_entry sl in
          (case en_state e of
             Unregistered \<Rightarrow>
               (case and_then (debug_assert (debug_assertions C) (\<not> is_registered e))
                       (\<lambda>_. tl_add T i (sl_duration sl) t) of
                  Inl f \<Rightarrow> Some (Inl f)
                | Inr t' \<Rightarrow> sleep_poll C T i waker t')
           | Registered \<Rightarrow>
               Some (and_then (debug_assert (debug_assertions C) (is_registered e)) (\<lambda>_.
                 Inr (Pending, tl_put T (set_entry i (e\<lparr>en_waker := Some waker\<rparr>) (tl_sleeps T t)) t)))
           | Fired \<Rightarrow>
               Some (and_then (debug_assert (debug_assertions C) (\<not> is_registered e)) (\<lambda>_.
                 Inr (Ready (en_complete e),
                      tl_put T (set_entry i (e\<lparr>en_complete := Inr ()\<rparr>) (tl_sleeps T t)) t)))))"

declare sleep_poll.simps [code]

definition sleep_reset :: "env \<Rightarrow> 't timer_ops \<Rightarrow> nat \<Rightarrow> 't \<Rightarrow> fault + 't" where
  "sleep_reset C T i t =
     and_then (entry_at (tl_sleeps T t) i) (\<lambda>e.
     and_then (if is_registered e then tl_remove T i t else Inr t) (\<lambda>t.
     and_then (entry_at (tl_sleeps T t) i) (\<lambda>e.
     and_then (debug_assert (debug_assertions C) (\<not> is_registered e)) (\<lambda>_.
     Inr (tl_put T (set_entry i (e\<lparr>en_complete := Inr (), en_deadline := 0, en_waker := None\<rparr>)
            (tl_sleeps T t)) t)))))"

text \<open>The \<open>PinnedDrop\<close> of a \<open>Sleep\<close>, after which its memory is free.\<close>

definition sleep_drop :: "'t timer_ops \<Rightarrow> nat \<Rightarrow> 't \<Rightarrow> fault + 't" where
  "sleep_drop T i t =
     and_then (entry_at (tl_sleeps T t) i) (\<lambda>e.
     and_then (if is_registered e then tl_remove T i t else Inr t) (\<lambda>t.
     Inr (tl_put T ((tl_sleeps T t)(i := None)) t)))"

section \<open>The interface\<close>

text \<open>
  \<open>inv P t\<close> is the state invariant of the timer when the entries \<open>P\<close> are not linked though they may
  say so; \<open>fits t d\<close> are the durations the timer can hold.
\<close>

locale timer_list =
  fixes T :: "'t timer_ops" and inv :: "nat set \<Rightarrow> 't \<Rightarrow> bool" and fits :: "'t \<Rightarrow> nat \<Rightarrow> bool"
  assumes put_get: "tl_sleeps T (tl_put T m t) = m"
    and put_inv: "inv P t \<Longrightarrow> (\<And>j. j \<notin> P \<Longrightarrow> timers m j = timers (tl_sleeps T t) j) \<Longrightarrow> inv P (tl_put T m t)"
    and release: "inv P t \<Longrightarrow> timers (tl_sleeps T t) i = None \<Longrightarrow> inv (P - {i}) t"
    and add_law: "inv {} t \<Longrightarrow> fits t (sl_duration sl) \<Longrightarrow> tl_sleeps T t i = Some sl \<Longrightarrow>
      en_state (sl_entry sl) = Unregistered \<Longrightarrow>
      \<exists>t' e. tl_add T i (sl_duration sl) t = Inr t' \<and> inv {} t' \<and>
        tl_sleeps T t' = (tl_sleeps T t)(i \<mapsto> sl\<lparr>sl_entry := e\<rparr>) \<and> Unregistered < en_state e"
    and remove_law: "inv {} t \<Longrightarrow> tl_sleeps T t i = Some sl \<Longrightarrow> en_state (sl_entry sl) = Registered \<Longrightarrow>
      \<exists>t'. tl_remove T i t = Inr t' \<and> inv {i} t' \<and> tl_sleeps T t' = tl_sleeps T t"
begin

text \<open>
  Polling a sleep ends, never fails, leaves the others alone, and is ready exactly if the entry has fired,
  with the entry's completion.
\<close>

lemma poll_registered:
  assumes "inv {} t" and sl: "tl_sleeps T t i = Some sl" and reg: "en_state (sl_entry sl) = Registered"
  shows "\<exists>t'. sleep_poll C T i k t = Some (Inr (Pending, t')) \<and> inv {} t' \<and>
    tl_sleeps T t' = (tl_sleeps T t)(i \<mapsto> sl\<lparr>sl_entry := (sl_entry sl)\<lparr>en_waker := Some k\<rparr>\<rparr>)"
proof -
  let ?m = "set_entry i ((sl_entry sl)\<lparr>en_waker := Some k\<rparr>) (tl_sleeps T t)"
  have "timers ?m j = timers (tl_sleeps T t) j" for j
    using sl reg by (cases "j = i") (simp_all add: timers_def)
  then have "inv {} (tl_put T ?m t)" by (intro put_inv [OF assms(1)]) simp
  moreover have "sleep_poll C T i k t = Some (Inr (Pending, tl_put T ?m t))"
    by (subst sleep_poll.simps) (simp add: sl reg is_registered_def del: and_then_eq_Inr)
  ultimately show ?thesis using sl by (intro exI conjI) (auto simp: put_get set_entry_def)
qed

lemma poll_fired:
  assumes "inv {} t" and sl: "tl_sleeps T t i = Some sl" and st: "en_state (sl_entry sl) = Fired"
  shows "\<exists>t'. sleep_poll C T i k t = Some (Inr (Ready (en_complete (sl_entry sl)), t')) \<and> inv {} t' \<and>
    tl_sleeps T t' = (tl_sleeps T t)(i \<mapsto> sl\<lparr>sl_entry := (sl_entry sl)\<lparr>en_complete := Inr ()\<rparr>\<rparr>)"
proof -
  let ?m = "set_entry i ((sl_entry sl)\<lparr>en_complete := Inr ()\<rparr>) (tl_sleeps T t)"
  have "timers ?m j = timers (tl_sleeps T t) j" for j
    using sl st by (cases "j = i") (simp_all add: timers_def)
  then have "inv {} (tl_put T ?m t)" by (intro put_inv [OF assms(1)]) simp
  moreover have "sleep_poll C T i k t = Some (Inr (Ready (en_complete (sl_entry sl)), tl_put T ?m t))"
    by (subst sleep_poll.simps) (simp add: sl st is_registered_def Let_def del: and_then_eq_Inr)
  ultimately show ?thesis using sl by (intro exI conjI) (auto simp: put_get set_entry_def)
qed

lemma poll_total:
  assumes inv: "inv {} t" and sl: "tl_sleeps T t i = Some sl"
    and fits: "en_state (sl_entry sl) = Unregistered \<Longrightarrow> fits t (sl_duration sl)"
  shows "\<exists>r t' e. sleep_poll C T i k t = Some (Inr (r, t')) \<and> inv {} t' \<and>
    tl_sleeps T t' = (tl_sleeps T t)(i \<mapsto> sl\<lparr>sl_entry := e\<rparr>) \<and> Unregistered < en_state e \<and>
    (r = Pending \<longleftrightarrow> en_state e = Registered) \<and> en_state (sl_entry sl) \<le> en_state e"
proof -
  have ready: "\<exists>r t' e. sleep_poll C T i k u = Some (Inr (r, t')) \<and> inv {} t' \<and>
      tl_sleeps T t' = (tl_sleeps T u)(i \<mapsto> sl'\<lparr>sl_entry := e\<rparr>) \<and> Unregistered < en_state e \<and>
      (r = Pending \<longleftrightarrow> en_state e = Registered) \<and> en_state (sl_entry sl') \<le> en_state e"
    if u: "inv {} u" and s: "tl_sleeps T u i = Some sl'" and st: "Unregistered < en_state (sl_entry sl')" for u sl'
  proof (cases "en_state (sl_entry sl')")
    case Unregistered
    then show ?thesis using st by simp
  next
    case Registered
    obtain t' where "sleep_poll C T i k u = Some (Inr (Pending, t'))" "inv {} t'"
        "tl_sleeps T t' = (tl_sleeps T u)(i \<mapsto> sl'\<lparr>sl_entry := (sl_entry sl')\<lparr>en_waker := Some k\<rparr>\<rparr>)"
      using poll_registered [OF u s Registered] by blast
    then show ?thesis
      using Registered st by (intro exI [of _ Pending] exI [of _ t'] exI [of _ "(sl_entry sl')\<lparr>en_waker := Some k\<rparr>"]) simp
  next
    case Fired
    obtain t' where "sleep_poll C T i k u = Some (Inr (Ready (en_complete (sl_entry sl')), t'))" "inv {} t'"
        "tl_sleeps T t' = (tl_sleeps T u)(i \<mapsto> sl'\<lparr>sl_entry := (sl_entry sl')\<lparr>en_complete := Inr ()\<rparr>\<rparr>)"
      using poll_fired [OF u s Fired] by blast
    then show ?thesis
      using Fired st by (intro exI [of _ "Ready (en_complete (sl_entry sl'))"] exI [of _ t']
          exI [of _ "(sl_entry sl')\<lparr>en_complete := Inr ()\<rparr>"]) simp
  qed
  show ?thesis
  proof (cases "en_state (sl_entry sl) = Unregistered")
    case False
    then show ?thesis using ready [OF inv sl] Unregistered_le by (simp add: less_le)
  next
    case True
    then obtain t1 e1 where t1: "tl_add T i (sl_duration sl) t = Inr t1" "inv {} t1"
        "tl_sleeps T t1 = (tl_sleeps T t)(i \<mapsto> sl\<lparr>sl_entry := e1\<rparr>)" "Unregistered < en_state e1"
      using add_law [OF inv fits sl] by blast
    have step: "sleep_poll C T i k t = sleep_poll C T i k t1"
      by (subst sleep_poll.simps) (simp add: sl True is_registered_def t1(1) del: and_then_eq_Inr)
    show ?thesis
      using ready [OF t1(2), of "sl\<lparr>sl_entry := e1\<rparr>"] t1(3,4) True by (simp add: step) blast
  qed
qed

text \<open>Dropping a sleep unlinks it: the timer keeps no handle to the freed entry.\<close>

lemma drop_total:
  assumes inv: "inv {} t" and sl: "tl_sleeps T t i = Some sl"
  shows "\<exists>t'. sleep_drop T i t = Inr t' \<and> inv {} t' \<and> tl_sleeps T t' = (tl_sleeps T t)(i := None)"
proof -
  have unlink: "\<exists>t1. (if is_registered (sl_entry sl) then tl_remove T i t else Inr t) = Inr t1 \<and>
      (\<exists>P \<subseteq> {i}. inv P t1 \<and> (timers (tl_sleeps T t) i = None \<or> P = {i})) \<and> tl_sleeps T t1 = tl_sleeps T t"
    using remove_law [OF inv sl] inv sl
    by (cases "en_state (sl_entry sl)") (auto simp: is_registered_def timers_def)
  then obtain t1 P where t1: "(if is_registered (sl_entry sl) then tl_remove T i t else Inr t) = Inr t1"
      "P \<subseteq> {i}" "inv P t1" "timers (tl_sleeps T t) i = None \<or> P = {i}" "tl_sleeps T t1 = tl_sleeps T t"
    by blast
  let ?m = "(tl_sleeps T t1)(i := None)"
  have "inv P (tl_put T ?m t1)"
  proof (rule put_inv [OF t1(3)])
    fix j assume "j \<notin> P"
    then show "timers ?m j = timers (tl_sleeps T t1) j"
      using t1(4,5) by (cases "j = i") (auto simp: timers_def)
  qed
  from release [OF this, of i] have "inv (P - {i}) (tl_put T ?m t1)"
    by (simp add: put_get timers_def)
  moreover have "P - {i} = {}" using t1(2) by auto
  moreover have "entry_at (tl_sleeps T t) i = Inr (sl_entry sl)"
    using sl by (simp add: entry_at_def)
  ultimately show ?thesis
    using t1(1,5) by (simp add: sleep_drop_def put_get del: and_then_eq_Inr entry_at_Inr)
qed

end

section \<open>The wheel as a timer\<close>

definition wheel_state :: "nat set \<Rightarrow> wheels \<Rightarrow> bool" where
  "wheel_state P w \<longleftrightarrow> wheels_inv P w \<and> (wh_shutdown w \<longrightarrow> (\<forall>i. i \<notin> P \<longrightarrow> timers (wh_sleeps w) i = None))"

text \<open>
  The durations the wheel can hold: less than 63 turns of the top level, about two years, on a wheel
  that has not run for half a billion years.
\<close>

definition wheel_fits :: "wheels \<Rightarrow> nat \<Rightarrow> bool" where
  "wheel_fits w d \<longleftrightarrow> room (wh_elapsed w) \<and> d div 1000000 \<le> 63 * 2 ^ 30"

lemma wheels_ok_state: "wheels_ok w \<longleftrightarrow> wheel_state {} w"
  by (simp add: wheels_ok_def wheel_state_def)

text \<open>The entry after \<open>Wheels::add\<close>.\<close>

definition add_result :: "u64 \<Rightarrow> bool \<Rightarrow> nat \<Rightarrow> entry \<Rightarrow> entry" where
  "add_result E down d e =
     (if d = 0 then fst (fire_entry (Inr ()) e)
      else
        let e' = e\<lparr>en_state := Registered, en_deadline := E + as_millis_u64 d\<rparr> in
        if down then fst (fire_entry (Inl Timer_Shutdown) e')
        else if d < 1000000 then fst (fire_entry (Inr ()) e') else e')"

lemma fits_deadline:
  assumes "wheel_fits w d"
  shows "add_word dbg (wh_elapsed w) (as_millis_u64 d) = Inr (wh_elapsed w + as_millis_u64 d)"
    and "unat (wh_elapsed w + as_millis_u64 d) = unat (wh_elapsed w) + d div 1000000"
    and "in_window (unat (wh_elapsed w)) (unat (wh_elapsed w) + d div 1000000)"
proof -
  have d: "d div 1000000 \<le> 63 * 2 ^ 30" and r: "unat (wh_elapsed w) + 2 ^ 37 < 2 ^ 64"
    using assms by (auto simp: wheel_fits_def room_def)
  have "unat (as_millis_u64 d) = d div 1000000 mod 2 ^ 64" by (simp add: as_millis_u64_def unat_of_nat)
  also have "\<dots> = d div 1000000" using d by (intro mod_less) simp
  finally have ms: "unat (as_millis_u64 d) = d div 1000000" .
  then have sum: "unat (wh_elapsed w) + unat (as_millis_u64 d) < 2 ^ LENGTH(64)" using d r by simp
  then show "add_word dbg (wh_elapsed w) (as_millis_u64 d) = Inr (wh_elapsed w + as_millis_u64 d)"
    by (simp add: add_word_no_overflow)
  show "unat (wh_elapsed w + as_millis_u64 d) = unat (wh_elapsed w) + d div 1000000"
    using unat_add_no_overflow [OF sum] ms by simp
  have "(unat (wh_elapsed w) + d div 1000000) div 64 ^ 5 \<le> (unat (wh_elapsed w) + 63 * 64 ^ 5) div 64 ^ 5"
    using d by (intro div_le_mono) simp
  also have "\<dots> = unat (wh_elapsed w) div 64 ^ 5 + 63" by simp
  finally show "in_window (unat (wh_elapsed w)) (unat (wh_elapsed w) + d div 1000000)"
    by (simp add: in_window_def)
qed

text \<open>An entry outside the slots that is fired.\<close>

lemma fire_loose:
  assumes inv: "wheels_inv {i} w" and sl: "wh_sleeps w i = Some sl"
  shows "\<exists>w'. fire c i w = Inr w' \<and> wheels_inv {} w' \<and> wh_elapsed w' = wh_elapsed w \<and>
    wh_shutdown w' = wh_shutdown w \<and>
    wh_sleeps w' = (wh_sleeps w)(i \<mapsto> sl\<lparr>sl_entry := fst (fire_entry c (sl_entry sl))\<rparr>)"
proof -
  let ?w = "w\<lparr>wh_sleeps := set_entry i (fst (fire_entry c (sl_entry sl))) (wh_sleeps w),
      wh_woken := wh_woken w @ snd (fire_entry c (sl_entry sl))\<rparr>"
  have "wheels_inv {i} ?w"
    by (rule wheels_inv_frame [OF inv]) (auto simp: timers_def)
  then have "wheels_inv {} ?w"
    by (rule wheels_inv_shrink) (use sl in \<open>auto simp: timers_def\<close>)
  moreover have "fire c i w = Inr ?w" using sl by (simp add: fire_def entry_at_def)
  ultimately show ?thesis using sl by (intro exI [of _ ?w]) (simp add: set_entry_def)
qed

lemma wheels_add_spec:
  assumes C: "linked_list C" and ok: "wheels_ok w" and fits: "wheel_fits w d"
    and sl: "wh_sleeps w i = Some sl" and un: "en_state (sl_entry sl) = Unregistered"
  shows "\<exists>w'. wheels_add C i d w = Inr w' \<and> wheels_ok w' \<and> wh_elapsed w' = wh_elapsed w \<and>
    wh_shutdown w' = wh_shutdown w \<and>
    wh_sleeps w' = (wh_sleeps w)(i \<mapsto> sl\<lparr>sl_entry := add_result (wh_elapsed w) (wh_shutdown w) d (sl_entry sl)\<rparr>)"
proof -
  have inv: "wheels_inv {} w" and down: "\<And>j. wh_shutdown w \<Longrightarrow> timers (wh_sleeps w) j = None"
    using ok by (auto simp: wheels_ok_def)
  have none: "timers (wh_sleeps w) i = None" using sl un by (simp add: timers_def)
  have inv_i: "wheels_inv {i} w'" if "wh_levels w' = wh_levels w" "wh_elapsed w' = wh_elapsed w"
      "wh_sleeps w' = set_entry i e (wh_sleeps w)" for w' e
  proof -
    have "wheels_inv {} w" by (rule inv)
    then have "wheels_inv {i} w"
      using none by (auto simp: wheels_inv_def slots_exact_def deadlines_ahead_def)
    then show ?thesis
      by (rule wheels_inv_frame) (use that in \<open>auto simp: timers_def\<close>)
  qed
  let ?e = "(sl_entry sl)\<lparr>en_state := Registered, en_deadline := wh_elapsed w + as_millis_u64 d\<rparr>"
  let ?w1 = "w\<lparr>wh_sleeps := set_entry i ?e (wh_sleeps w)\<rparr>"
  have sl1: "wh_sleeps ?w1 i = Some (sl\<lparr>sl_entry := ?e\<rparr>)" using sl by simp
  have t1: "timers (wh_sleeps ?w1) i = Some (unat (wh_elapsed w) + d div 1000000)"
    using fits_deadline(2) [OF fits] sl1 by (simp add: timers_def)
  have set_reg: "set_registered C (wh_elapsed w + as_millis_u64 d) (sl_entry sl) = Inr ?e"
    using un by (simp add: set_registered_def is_registered_def)
  have keep: "timers (m(i \<mapsto> s)) j = timers m j" if "j \<noteq> i" for m :: sleeps and s j
    using that by (simp add: timers_def)
  have exp: "expiration_of C (wh_sleeps ?w1) i = Inr (wh_elapsed w + as_millis_u64 d)"
    using sl1 by (subst expiration_of_registered [of _ _ "sl\<lparr>sl_entry := ?e\<rparr>"]) simp_all
  have add: "wheels_add C i d w = (if d = 0 then fire (Inr ()) i w else wheels_insert C i ?w1)"
    using fits_deadline(1) [OF fits, of "debug_assertions C"] sl set_reg
    by (simp add: wheels_add_def entry_at_def)
  have past: "wh_elapsed w + as_millis_u64 d \<le> wh_elapsed w \<longleftrightarrow> d < 1000000"
    unfolding word_le_nat_alt fits_deadline(2) [OF fits] by (auto simp: div_eq_0_iff)
  show ?thesis
  proof (cases "d = 0 \<or> wh_shutdown w \<or> d < 1000000")
    case False
    moreover have "unat (wh_elapsed ?w1) < unat (wh_elapsed w) + d div 1000000"
      using False by (simp add: div_greater_zero_iff)
    moreover obtain w' where "wheels_insert C i ?w1 = Inr w'" "wheels_inv ({i} - {i}) w'"
        "wh_elapsed w' = wh_elapsed w" "wh_shutdown w' = wh_shutdown w" "wh_sleeps w' = wh_sleeps ?w1"
      using wheels_insert_spec [OF C inv_i [of ?w1 ?e] _ t1] fits_deadline(3) [OF fits] calculation by auto
    ultimately show ?thesis
      using add sl by (auto simp: wheels_ok_def add_result_def set_entry_def Let_def)
  next
    case True
    define c where "c = (if d \<noteq> 0 \<and> wh_shutdown w then Inl Timer_Shutdown else Inr () :: completion)"
    define w2 where "w2 = (if d = 0 then w else ?w1)"
    obtain sl2 where sl2: "wh_sleeps w2 i = Some sl2" using sl sl1 by (cases "d = 0") (auto simp: w2_def)
    have inv2: "wheels_inv {i} w2"
      using inv_i [of w "sl_entry sl", OF refl refl] inv_i [of ?w1 ?e] sl
      by (cases "d = 0") (simp_all add: w2_def set_entry_def fun_upd_idem)
    have fire: "wheels_add C i d w = fire c i w2"
      using True past exp by (auto simp: add w2_def c_def wheels_insert_def)
    obtain w' where w': "fire c i w2 = Inr w'" "wheels_inv {} w'" "wh_elapsed w' = wh_elapsed w2"
        "wh_shutdown w' = wh_shutdown w2"
        "wh_sleeps w' = (wh_sleeps w2)(i \<mapsto> sl2\<lparr>sl_entry := fst (fire_entry c (sl_entry sl2))\<rparr>)"
      using fire_loose [OF inv2 sl2] by blast
    have sleeps: "wh_sleeps w' =
        (wh_sleeps w)(i \<mapsto> sl\<lparr>sl_entry := add_result (wh_elapsed w) (wh_shutdown w) d (sl_entry sl)\<rparr>)"
      using w'(5) sl sl2 True by (auto simp: w2_def add_result_def c_def set_entry_def Let_def)
    have "timers (wh_sleeps w') j = None" if "wh_shutdown w" for j
      using down [OF that, of j] True that
      by (cases "j = i") (simp_all add: sleeps keep timers_def [of _ i] add_result_def Let_def)
    then show ?thesis
      using fire w' sleeps by (auto simp: wheels_ok_def w2_def)
  qed
qed

lemma wheel_timer_list:
  assumes C: "linked_list C"
  shows "timer_list (wheel_ops C) wheel_state wheel_fits"
proof
  fix P w m assume "wheel_state P w" "\<And>j. j \<notin> P \<Longrightarrow> timers m j = timers (tl_sleeps (wheel_ops C) w) j"
  then show "wheel_state P (tl_put (wheel_ops C) m w)"
    by (auto simp: wheel_state_def wheel_ops_def intro: wheels_inv_frame)
next
  fix P w i assume "wheel_state P w" "timers (tl_sleeps (wheel_ops C) w) i = None"
  then show "wheel_state (P - {i}) w"
    by (auto simp: wheel_state_def wheel_ops_def intro: wheels_inv_shrink)
next
  fix w sl i
  assume "wheel_state {} w" "wheel_fits w (sl_duration sl)"
    "tl_sleeps (wheel_ops C) w i = Some sl" "en_state (sl_entry sl) = Unregistered"
  then obtain w' where "wheels_add C i (sl_duration sl) w = Inr w'" "wheels_ok w'"
      "wh_sleeps w' = (wh_sleeps w)(i \<mapsto> sl\<lparr>sl_entry :=
         add_result (wh_elapsed w) (wh_shutdown w) (sl_duration sl) (sl_entry sl)\<rparr>)"
    using wheels_add_spec [OF C, of w "sl_duration sl" i sl]
    by (auto simp: wheels_ok_state wheel_ops_def)
  moreover have "Unregistered < en_state (add_result E b d e)" for E b d e
    by (auto simp: add_result_def Let_def less_entry_state_def)
  ultimately show "\<exists>t' e. tl_add (wheel_ops C) i (sl_duration sl) w = Inr t' \<and> wheel_state {} t' \<and>
      tl_sleeps (wheel_ops C) t' = (tl_sleeps (wheel_ops C) w)(i \<mapsto> sl\<lparr>sl_entry := e\<rparr>) \<and>
      Unregistered < en_state e"
    by (auto simp: wheels_ok_state wheel_ops_def)
next
  fix w i sl
  assume w: "wheel_state {} w" "tl_sleeps (wheel_ops C) w i = Some sl" "en_state (sl_entry sl) = Registered"
  then have t: "timers (wh_sleeps w) i = Some (unat (en_deadline (sl_entry sl)))"
    by (simp add: timers_def wheel_ops_def)
  with w(1) have "wheels_inv {} w" "\<not> wh_shutdown w"
    by (auto simp: wheel_state_def)
  moreover then obtain w' where "wheels_remove C i w = Inr (Some i, w')" "wheels_inv {i} w'"
      "wh_shutdown w' = wh_shutdown w" "wh_sleeps w' = wh_sleeps w"
    using wheels_remove_spec [OF C _ _ t] by blast
  ultimately show "\<exists>t'. tl_remove (wheel_ops C) i w = Inr t' \<and> wheel_state {i} t' \<and>
      tl_sleeps (wheel_ops C) t' = tl_sleeps (wheel_ops C) w"
    by (auto simp: wheel_ops_def wheel_state_def)
qed (simp add: wheel_ops_def)

interpretation wheel: timer_list "wheel_ops (seq_env dbg)" wheel_state wheel_fits for dbg
  by (rule wheel_timer_list) simp

section \<open>Shutdown\<close>

lemma shutdown_body_spec:
  assumes C: "linked_list C" and ff: "fired_from (Inl Timer_Shutdown) w0 is w" and inv: "wheels_inv {} w"
    and x: "expiry_ok {} w x"
  shows "\<exists>es w'. es \<noteq> [] \<and> shutdown_body C x w = Inr w' \<and>
    fired_from (Inl Timer_Shutdown) w0 (is @ es) w' \<and> wheels_inv {} w' \<and>
    wh_elapsed w' = wh_elapsed w \<and> wh_shutdown w' = wh_shutdown w"
proof -
  note X = expiry_okD [OF x]
  let ?es = "slot_at w (ex_level x) (ex_slot x)"
  obtain w1 where w1: "take_entries C x w = Inr (?es, w1)" "wheels_inv (set ?es) w1"
    "wh_elapsed w1 = wh_elapsed w" "wh_shutdown w1 = wh_shutdown w"
    "wh_sleeps w1 = wh_sleeps w" "wh_woken w1 = wh_woken w"
    using take_entries_spec [OF C inv X(1,2)] by auto
  have ff1: "fired_from (Inl Timer_Shutdown) w0 is w1" using ff by (simp add: fired_from_def w1)
  have "timers (wh_sleeps w1) i \<noteq> None" if "i \<in> set ?es" for i
    using that by (auto simp: slot_iff [OF inv X(1,2)] w1)
  then obtain w2 where w2: "fire_all (Inl Timer_Shutdown) ?es w1 = Inr w2"
    "fired_from (Inl Timer_Shutdown) w0 (is @ ?es) w2" "same_wheel w1 w2"
    using fire_all_spec [OF ff1 inv_levels(5) [OF inv X(1,2)]] by blast
  have t2: "timers (wh_sleeps w2) i = (if i \<in> set ?es then None else timers (wh_sleeps w1) i)" for i
    by (simp add: timers_fired_from [OF w2(2)] timers_fired_from [OF ff1])
  have "wheels_inv (set ?es) w2"
    using w2(3) by (intro same_wheel_inv [OF w1(2)]) (simp_all add: t2)
  then have "wheels_inv {} w2" by (rule wheels_inv_shrink) (simp_all add: t2)
  moreover have "shutdown_body C x w = Inr w2"
    using w1(1) w2(1) linked_list.into_iter_law [OF C] by (simp add: shutdown_body_def)
  moreover have "?es \<noteq> []" using x by (simp add: expiry_ok_def)
  ultimately show ?thesis using w2 w1 by (auto simp: same_wheel_def)
qed

lemma shutdown_loop_spec:
  assumes C: "linked_list C" and "room (wh_elapsed w)" and "wheels_inv {} w"
    and "fired_from (Inl Timer_Shutdown) w0 is w"
  shows "\<exists>js w'. shutdown_loop C w = Some (Inr w') \<and> fired_from (Inl Timer_Shutdown) w0 js w' \<and>
    wheels_inv {} w' \<and> (\<forall>i. timers (wh_sleeps w') i = None) \<and>
    wh_elapsed w' = wh_elapsed w \<and> wh_shutdown w' = wh_shutdown w"
  using assms(2-)
proof (induction "card {i. timers (wh_sleeps w) i \<noteq> None}" arbitrary: "is" w rule: less_induct)
  case less
  note inv = less.prems(2)
  consider (none) "next_expiration C w = Inr None" "\<And>i. timers (wh_sleeps w) i = None"
    | (some) x where "next_expiration C w = Inr (Some x)" "expiry_ok {} w x"
    using next_expiration_spec [OF inv less.prems(1), of C] by auto
  then show ?case
  proof cases
    case none
    then have "shutdown_loop C w = Some (Inr w)" by (simp add: shutdown_loop.simps [of C w])
    then show ?thesis using none less.prems by blast
  next
    case some
    obtain es w' where es: "es \<noteq> []" "shutdown_body C x w = Inr w'"
      "fired_from (Inl Timer_Shutdown) w0 (is @ es) w'" "wheels_inv {} w'"
      "wh_elapsed w' = wh_elapsed w" "wh_shutdown w' = wh_shutdown w"
      using shutdown_body_spec [OF C less.prems(3) inv some(2)] by blast
    let ?T = "\<lambda>w. {i. timers (wh_sleeps w) i \<noteq> None}"
    have t: "timers (wh_sleeps w') i = (if i \<in> set es then None else timers (wh_sleeps w) i)" for i
      by (simp add: timers_fired_from [OF es(3)] timers_fired_from [OF less.prems(3)])
    have "hd es \<in> set es" using es(1) by simp
    moreover from this have "hd es \<notin> set is" "timers (wh_sleeps w0) (hd es) \<noteq> None"
      using es(3) by (auto simp: fired_from_def)
    ultimately have "hd es \<in> ?T w - ?T w'"
      by (simp add: t timers_fired_from [OF less.prems(3)])
    moreover have "?T w' \<subseteq> ?T w" by (auto simp: t split: if_splits)
    moreover have "finite (?T w)" using finite_timers [OF inv] by simp
    ultimately have "card (?T w') < card (?T w)" by (intro psubset_card_mono) blast+
    from less.hyps [OF this _ es(4,3)] show ?thesis
      using less.prems(1) es some(1) by (simp add: shutdown_loop.simps [of C w])
  qed
qed

lemma wheels_shutdown_spec:
  assumes C: "linked_list C" and rm: "room (wh_elapsed w)" and ok: "wheels_ok w"
  shows "\<exists>js w'. wheels_shutdown C w = Some (Inr w') \<and> fired_from (Inl Timer_Shutdown) w js w' \<and>
    set js = {i. timers (wh_sleeps w) i \<noteq> None} \<and> wheels_ok w' \<and> wh_shutdown w' \<and>
    wh_elapsed w' = wh_elapsed w"
proof -
  let ?w = "w\<lparr>wh_shutdown := True\<rparr>"
  have inv: "wheels_inv {} w" using ok by (simp add: wheels_ok_def)
  then have "wheels_inv {} ?w" by (rule wheels_inv_frame) simp_all
  moreover have "fired_from (Inl Timer_Shutdown) w [] ?w"
    using fired_from_refl [of _ w] by (simp add: fired_from_def)
  ultimately obtain js w' where w': "shutdown_loop C ?w = Some (Inr w')"
      "fired_from (Inl Timer_Shutdown) w js w'" "wheels_inv {} w'" "\<And>i. timers (wh_sleeps w') i = None"
      "wh_shutdown w'" "wh_elapsed w' = wh_elapsed w"
    using shutdown_loop_spec [OF C, of ?w w "[]"] rm by auto
  have "set js = {i. timers (wh_sleeps w) i \<noteq> None}"
  proof (intro equalityI subsetI CollectI)
    fix i assume "i \<in> set js"
    then show "timers (wh_sleeps w) i \<noteq> None" using w'(2) by (simp add: fired_from_def)
  next
    fix i assume "i \<in> {i. timers (wh_sleeps w) i \<noteq> None}"
    then show "i \<in> set js"
      using w'(4) [of i] timers_fired_from [OF w'(2), of i] by (simp split: if_splits)
  qed
  then show ?thesis using w' by (auto simp: wheels_shutdown_def wheels_ok_def)
qed

end
