(* ===== verification/Park.thy ===== *)
theory Park
  imports Rust_Int
begin

text \<open>
  The interface between the layers of the runtime, the trait \<open>Park\<close> of
  \<open>norn-executor/src/park/mod.rs\<close>, and its two implementations that block the thread,
  \<open>SpinPark\<close> and \<open>ThreadPark\<close> (\<open>park/spin.rs\<close>, \<open>park/thread.rs\<close>). A layer is a record of its
  operations over its state. The mutex and the condition variable
  of \<open>ThreadPark\<close> are modelled by whether a thread waits on the variable.
\<close>

text \<open>An \<open>io::Error\<close>: an error of the operating system by its number, or an error of another kind.\<close>

datatype io_error = Os_Error i32 | Other_Error

datatype park_mode = NoPark | NextCompletion | Timeout nat \<comment> \<open>a \<open>Duration\<close>, in nanoseconds\<close>

text \<open>\<open>park\<close> and \<open>shutdown\<close> may run for ever (\<open>None\<close>).\<close>

record 'p park_ops =
  pk_park :: "park_mode \<Rightarrow> 'p \<Rightarrow> (fault + ((io_error + unit) \<times> 'p)) option"
  pk_enter :: "'p \<Rightarrow> fault + 'p"
  pk_leave :: "'p \<Rightarrow> fault + 'p" \<comment> \<open>the drop of the \<open>Guard\<close>\<close>
  pk_needs_park :: "'p \<Rightarrow> bool"
  pk_shutdown :: "'p \<Rightarrow> (fault + 'p) option"

text \<open>
  What the executor relies on: every operation keeps the layer's invariant, and a guard taken by
  \<open>enter\<close> can be dropped.
\<close>

locale park_layer =
  fixes L :: "'p park_ops" and ok :: "'p \<Rightarrow> bool" and inside :: "'p \<Rightarrow> bool"
  assumes park_keeps: "ok p \<Longrightarrow> pk_park L m p = Some (Inr (r, p')) \<Longrightarrow> ok p' \<and> (inside p' \<longleftrightarrow> inside p)"
    and enter_keeps: "ok p \<Longrightarrow> \<not> inside p \<Longrightarrow> \<exists>p'. pk_enter L p = Inr p' \<and> ok p' \<and> inside p'"
    and leave_keeps: "ok p \<Longrightarrow> inside p \<Longrightarrow> \<exists>p'. pk_leave L p = Inr p' \<and> ok p' \<and> \<not> inside p'"
    and shutdown_keeps: "ok p \<Longrightarrow> pk_shutdown L p = Some (Inr p') \<Longrightarrow> ok p' \<and> (inside p' \<longleftrightarrow> inside p)"
begin

lemma enter_leave:
  assumes "ok p" and "\<not> inside p"
  shows "\<exists>p' p''. pk_enter L p = Inr p' \<and> pk_leave L p' = Inr p'' \<and> ok p'' \<and> \<not> inside p''"
  using enter_keeps [OF assms] leave_keeps by blast

end

section \<open>SpinPark\<close>

definition spin_park :: "park_mode \<Rightarrow> bool \<Rightarrow> (fault + ((io_error + unit) \<times> bool)) option" where
  "spin_park m p = Some (Inr (Inr (), p))"

definition spin_ops :: "bool park_ops" where
  "spin_ops = \<lparr> pk_park = spin_park, pk_enter = (\<lambda>_. Inr True), pk_leave = (\<lambda>_. Inr False),
     pk_needs_park = (\<lambda>_. False), pk_shutdown = (\<lambda>p. Some (Inr p)) \<rparr>"

interpretation spin: park_layer spin_ops "\<lambda>_. True" "\<lambda>p. p"
  by unfold_locales (auto simp: spin_ops_def spin_park_def)

section \<open>ThreadPark\<close>

datatype thread_wait = No_Wait | Wait_Notify | Wait_Timeout nat

definition thread_park :: "park_mode \<Rightarrow> thread_wait" where
  "thread_park m = (case m of
     NoPark \<Rightarrow> No_Wait | NextCompletion \<Rightarrow> Wait_Notify | Timeout t \<Rightarrow> Wait_Timeout t)"

text \<open>\<open>condvar.notify_all()\<close>: it ends the wait of a thread that waits, and leaves no trace else.\<close>

definition thread_unpark :: "thread_wait \<Rightarrow> thread_wait" where
  "thread_unpark w = No_Wait"

section \<open>The executor's thread-local context\<close>

text \<open>\<open>Context::enter\<close>, \<open>Context::handle\<close> and the drop of the guard (\<open>norn-executor/src/context.rs\<close>).\<close>

definition ctx_enter :: "'h \<Rightarrow> 'h option \<Rightarrow> fault + 'h option" where
  "ctx_enter h c = and_then (assert_that (c = None)) (\<lambda>_. Inr (Some h))"

definition ctx_handle :: "'h option \<Rightarrow> 'h option" where
  "ctx_handle c = c"

definition ctx_guard_drop :: "'h option \<Rightarrow> fault + 'h option" where
  "ctx_guard_drop c = and_then (assert_that (c \<noteq> None)) (\<lambda>_. Inr None)"

lemma ctx_round: "and_then (ctx_enter h None) ctx_guard_drop = Inr None"
  by (simp add: ctx_enter_def ctx_guard_drop_def)

lemma ctx_nested: "ctx_enter h (Some g) = Inl Panic"
  by (simp add: ctx_enter_def assert_that_def)

end
