(* ===== verification/Timer_Driver.thy ===== *)
theory Timer_Driver
  imports Timer_Sleep Park
begin

text \<open>
  The clock (\<open>norn-timer/src/clock.rs\<close>), the thread-local handle (\<open>context.rs\<close>) and the timer's layer of
  the runtime (\<open>Driver\<close> in \<open>norn-timer/src/lib.rs\<close>), which advances the wheel to the clock's tick and
  parks the layer below no longer than to the next deadline. Instants and durations are nanoseconds; the
  reading of the system clock is an argument.
\<close>

section \<open>The clock\<close>

datatype time_source = System | Simulated (sim_offset: nat)

record clock =
  ck_start :: nat
  ck_time :: time_source

text \<open>
  \<open>Duration\<close> holds a \<open>u64\<close> of seconds and less than a second of nanoseconds, an \<open>Instant\<close> a signed
  64-bit number of seconds; the sums panic on overflow.
\<close>

definition duration_limit :: nat where
  "duration_limit = 2 ^ 64 * 1000000000"

definition instant_limit :: nat where
  "instant_limit = 2 ^ 63 * 1000000000"

definition clock_system :: "nat \<Rightarrow> clock" where
  "clock_system sysnow = \<lparr> ck_start = sysnow, ck_time = System \<rparr>"

definition clock_simulated :: "nat \<Rightarrow> clock" where
  "clock_simulated sysnow = \<lparr> ck_start = sysnow, ck_time = Simulated 0 \<rparr>"

definition clock_now :: "nat \<Rightarrow> clock \<Rightarrow> fault + nat" where
  "clock_now sysnow c = (case ck_time c of
     System \<Rightarrow> Inr sysnow
   | Simulated off \<Rightarrow>
       and_then (assert_that (ck_start c + off < instant_limit)) (\<lambda>_. Inr (ck_start c + off)))"

definition instant_to_tick :: "clock \<Rightarrow> nat \<Rightarrow> fault + u64" where
  "instant_to_tick c t =
     (let dur = (if ck_start c \<le> t then t - ck_start c else 0);
          ms = dur div 1000000
      in and_then (assert_that (ms < 2 ^ 64)) (\<lambda>_. Inr (of_nat ms)))"

definition tick_to_duration :: "u64 \<Rightarrow> nat" where
  "tick_to_duration t = unat t * 1000000"

definition clock_tick :: "nat \<Rightarrow> clock \<Rightarrow> fault + u64" where
  "clock_tick sysnow c = and_then (clock_now sysnow c) (instant_to_tick c)"

definition clock_advance :: "nat \<Rightarrow> clock \<Rightarrow> fault + clock" where
  "clock_advance d c = (case ck_time c of
     System \<Rightarrow> Inl Panic
   | Simulated off \<Rightarrow>
       and_then (assert_that (off + d < duration_limit)) (\<lambda>_. Inr (c\<lparr>ck_time := Simulated (off + d)\<rparr>)))"

lemma simulated_tick:
  assumes "ck_time c = Simulated off" and "ck_start c + off < instant_limit" and "off div 1000000 < 2 ^ 64"
  shows "\<exists>t. clock_tick s c = Inr t \<and> unat t = off div 1000000"
  using assms by (simp add: clock_tick_def clock_now_def instant_to_tick_def unat_of_nat)

section \<open>The thread-local handle\<close>

definition timer_ctx_enter :: "'h \<Rightarrow> 'h option \<Rightarrow> fault + 'h option" where
  "timer_ctx_enter h c = and_then (assert_that (c = None)) (\<lambda>_. Inr (Some h))"

definition timer_ctx_leave :: "'h option \<Rightarrow> fault + 'h option" where
  "timer_ctx_leave c = and_then (assert_that (c \<noteq> None)) (\<lambda>_. Inr None)"

text \<open>\<open>Handle::current\<close> panics outside a timer context.\<close>

definition timer_handle_current :: "'h option \<Rightarrow> fault + 'h" where
  "timer_handle_current c = (case c of None \<Rightarrow> Inl Panic | Some h \<Rightarrow> Inr h)"

section \<open>The driver\<close>

record 'p timer_driver =
  td_wheels :: wheels
  td_inner :: 'p
  td_clock :: clock
  td_context :: "unit option" \<comment> \<open>whether the thread-local handle is set\<close>

definition timer_park_mode :: "u64 \<Rightarrow> nat \<Rightarrow> expiry option \<Rightarrow> park_mode \<Rightarrow> park_mode" where
  "timer_park_mode ticks fired nxt mode =
     (let mode = (if 0 < fired then NoPark else mode) in
      case nxt of
        None \<Rightarrow> mode
      | Some x \<Rightarrow>
          let delta = saturating_sub (ex_deadline x) ticks;
              duration = tick_to_duration delta
          in (case mode of Timeout timeout \<Rightarrow> Timeout (min timeout duration) | _ \<Rightarrow> Timeout duration))"

definition timer_park ::
  "env \<Rightarrow> 'p park_ops \<Rightarrow> nat \<Rightarrow> park_mode \<Rightarrow> 'p timer_driver
   \<Rightarrow> (fault + ((io_error + unit) \<times> 'p timer_driver)) option"
where
  "timer_park C L sysnow mode d =
     run_then (Some (clock_tick sysnow (td_clock d))) (\<lambda>ticks.
     run_then (advance C ticks (td_wheels d)) (\<lambda>(fired, nxt, w).
     run_then (pk_park L (timer_park_mode ticks fired nxt mode) (td_inner d)) (\<lambda>(res, p).
     Some (Inr (res, d\<lparr>td_wheels := w, td_inner := p\<rparr>)))))"

definition timer_enter :: "'p park_ops \<Rightarrow> 'p timer_driver \<Rightarrow> fault + 'p timer_driver" where
  "timer_enter L d =
     and_then (timer_ctx_enter () (td_context d)) (\<lambda>c.
     and_then (pk_enter L (td_inner d)) (\<lambda>p.
     Inr (d\<lparr>td_context := c, td_inner := p\<rparr>)))"

definition timer_needs_park :: "'p park_ops \<Rightarrow> 'p timer_driver \<Rightarrow> bool" where
  "timer_needs_park L d = pk_needs_park L (td_inner d)"

definition timer_shutdown ::
  "env \<Rightarrow> 'p park_ops \<Rightarrow> 'p timer_driver \<Rightarrow> (fault + 'p timer_driver) option"
where
  "timer_shutdown C L d =
     run_then (wheels_shutdown C (td_wheels d)) (\<lambda>w.
     run_then (pk_shutdown L (td_inner d)) (\<lambda>p. Some (Inr (d\<lparr>td_wheels := w, td_inner := p\<rparr>))))"

text \<open>The mode passed down never sleeps past a deadline, nor longer than the caller allows.\<close>

lemma timer_park_mode_cases:
  "timer_park_mode ticks fired nxt mode =
     (case nxt of
        None \<Rightarrow> if 0 < fired then NoPark else mode
      | Some x \<Rightarrow>
          let d = tick_to_duration (saturating_sub (ex_deadline x) ticks) in
          if 0 < fired then Timeout d
          else (case mode of Timeout t \<Rightarrow> Timeout (min t d) | _ \<Rightarrow> Timeout d))"
  by (simp add: timer_park_mode_def Let_def split: option.splits)

lemma timer_park_mode_bound:
  assumes "next_deadline_ok w nxt" and "wh_elapsed w = ticks" and "timers (wh_sleeps w) i = Some d"
  shows "\<exists>t. timer_park_mode ticks fired nxt mode = Timeout t \<and> t \<le> (d - unat ticks) * 1000000"
proof -
  obtain x where x: "nxt = Some x" "unat (ex_deadline x) \<le> d"
    using assms(1,3) by (auto simp: next_deadline_ok_def split: option.splits)
  let ?D = "tick_to_duration (saturating_sub (ex_deadline x) ticks)"
  have D: "?D \<le> (d - unat ticks) * 1000000"
    using x(2) by (auto simp: tick_to_duration_def unat_saturating_sub intro: diff_le_mono)
  then have "min t ?D \<le> (d - unat ticks) * 1000000" for t by simp
  then show ?thesis
    using D by (cases mode) (auto simp: timer_park_mode_cases x(1) Let_def)
qed

end
