(* ===== verification/Timer_Properties.thy ===== *)
theory Timer_Properties
  imports Timer_Driver
begin

text \<open>
  The properties of the timer, over the definitions of the wheel, the \<open>Sleep\<close> future and the driver,
  each with an instance of its hypotheses on a concrete wheel.
\<close>

section \<open>A concrete wheel\<close>

text \<open>A wheel in a debug build with one sleep of five seconds, at address \<open>0\<close>, before and after its first poll.\<close>

definition wheel_one :: wheels where
  "wheel_one = (wheels_new (seq_env True))\<lparr>wh_sleeps := [0 \<mapsto> sleep_new 5000000000]\<rparr>"

definition wheel_two :: wheels where
  "wheel_two = (case wheels_add (seq_env True) 0 5000000000 wheel_one of Inl _ \<Rightarrow> wheel_one | Inr w \<Rightarrow> w)"

lemma wheel_one_simps [simp]:
  "wh_elapsed wheel_one = 0" "wh_shutdown wheel_one = False"
  "wh_sleeps wheel_one = [0 \<mapsto> sleep_new 5000000000]"
  by (simp_all add: wheel_one_def wheels_new_def)

lemma wheel_one_ok: "wheels_ok wheel_one"
proof -
  have "wheels_inv {} (wheels_new (seq_env True))"
    using wheels_ok_new [OF linked_list_seq_env] by (simp add: wheels_ok_def)
  then have "wheels_inv {} wheel_one"
    by (rule wheels_inv_frame)
      (auto simp: wheel_one_def wheels_new_def timers_def sleep_new_def entry_new_def)
  then show ?thesis by (simp add: wheels_ok_def)
qed

lemma wheel_one_fits: "wheel_fits wheel_one 5000000000"
  by (simp add: wheel_fits_def room_def)

lemma wheel_two_spec:
  "wheels_add (seq_env True) 0 5000000000 wheel_one = Inr wheel_two \<and> wheels_ok wheel_two \<and>
   wh_elapsed wheel_two = 0 \<and> wh_shutdown wheel_two = False \<and>
   wh_sleeps wheel_two = [0 \<mapsto> \<lparr> sl_entry = entry_new\<lparr>en_state := Registered, en_deadline := 5000\<rparr>,
     sl_duration = 5000000000 \<rparr>]"
proof -
  have "en_state (sl_entry (sleep_new 5000000000)) = Unregistered"
    by (simp add: sleep_new_def entry_new_def)
  from wheels_add_spec [OF linked_list_seq_env wheel_one_ok wheel_one_fits _ this, of 0]
  obtain w' where w': "wheels_add (seq_env True) 0 5000000000 wheel_one = Inr w'" "wheels_ok w'"
    "wh_elapsed w' = 0" "wh_shutdown w' = False"
    "wh_sleeps w' = (wh_sleeps wheel_one)(0 \<mapsto> (sleep_new 5000000000)\<lparr>sl_entry :=
       add_result 0 False 5000000000 (sl_entry (sleep_new 5000000000))\<rparr>)"
    by auto
  then show ?thesis
    by (simp add: wheel_two_def add_result_def Let_def sleep_new_def as_millis_u64_def)
qed

lemma wheel_two_timers: "timers (wh_sleeps wheel_two) = [0 \<mapsto> 5000]"
  using wheel_two_spec by (simp add: timers_def fun_eq_iff)

section \<open>The wheel\<close>

text \<open>
  C6: advancing the wheel to a tick ends without a panic and fires, once each and with success,
  exactly the registered timers whose deadline has been reached, waking their wakers; every other timer is
  left as it was, the elapsed time is the tick, the reported count is the number of timers fired, and
  the reported next deadline is after the tick and not after the deadline of any timer left.
\<close>

theorem advance_fires_due:
  assumes "linked_list C" and "wheels_ok w" and "wh_elapsed w \<le> now" and "room now"
  shows "\<exists>fired nxt w' is. advance C now w = Some (Inr (fired, nxt, w')) \<and>
    fired_from (Inr ()) w is w' \<and> set is = due now (wh_sleeps w) \<and> fired = length is \<and>
    wheels_ok w' \<and> wh_elapsed w' = now \<and> wh_shutdown w' = wh_shutdown w \<and> next_deadline_ok w' nxt"
  using advance_correct [OF assms] unfolding advance_result_def by blast

theorem advance_fires_due_witness:
  "\<exists>fired nxt w' is. advance (seq_env True) 6000 wheel_two = Some (Inr (fired, nxt, w')) \<and>
    fired_from (Inr ()) wheel_two is w' \<and> set is = {0} \<and> fired = length is"
proof -
  have "due 6000 (wh_sleeps wheel_two) = {0}"
    by (auto simp: due_def wheel_two_timers split: if_splits)
  then show ?thesis
    using advance_fires_due [of "seq_env True" wheel_two 6000] wheel_two_spec
    by (simp add: room_def) blast
qed

text \<open>
  The first poll of a sleep registers its entry with the deadline \<open>elapsed + milliseconds\<close>, in any
  build, and leaves every other sleep alone; a sleep of no duration, of less than a millisecond, or on a
  timer that is shut down, fires at once, in the last case with the shutdown error.
\<close>

theorem add_registers:
  assumes "linked_list C" and "wheels_ok w" and "wheel_fits w d"
    and "wh_sleeps w i = Some sl" and "en_state (sl_entry sl) = Unregistered"
  shows "\<exists>w'. wheels_add C i d w = Inr w' \<and> wheels_ok w' \<and> wh_elapsed w' = wh_elapsed w \<and>
    wh_sleeps w' = (wh_sleeps w)(i \<mapsto> sl\<lparr>sl_entry := add_result (wh_elapsed w) (wh_shutdown w) d (sl_entry sl)\<rparr>) \<and>
    timers (wh_sleeps w') i = (if wh_shutdown w \<or> d < 1000000 then None
      else Some (unat (wh_elapsed w) + d div 1000000))"
proof -
  obtain w' where w': "wheels_add C i d w = Inr w'" "wheels_ok w'" "wh_elapsed w' = wh_elapsed w"
    "wh_sleeps w' = (wh_sleeps w)(i \<mapsto> sl\<lparr>sl_entry := add_result (wh_elapsed w) (wh_shutdown w) d (sl_entry sl)\<rparr>)"
    using wheels_add_spec [OF assms] by blast
  have "timers (wh_sleeps w') i = (if wh_shutdown w \<or> d < 1000000 then None
      else Some (unat (wh_elapsed w) + d div 1000000))"
    using fits_deadline(2) [OF assms(3)] by (auto simp: w'(4) timers_def add_result_def Let_def)
  then show ?thesis using w' by blast
qed

theorem add_registers_witness:
  "\<exists>w'. wheels_add (seq_env True) 0 5000000000 wheel_one = Inr w' \<and>
     timers (wh_sleeps w') 0 = Some 5000"
proof -
  have "en_state (sl_entry (sleep_new 5000000000)) = Unregistered"
    by (simp add: sleep_new_def entry_new_def)
  from add_registers [OF linked_list_seq_env wheel_one_ok wheel_one_fits _ this, of 0]
  show ?thesis by auto
qed

text \<open>
  Removing a registered timer always finds it in the slot its deadline gives, unlinks it and nothing
  else, and keeps the bits of the occupied slots right: afterwards the wheel is consistent with that entry
  taken out.
\<close>

theorem remove_unlinks:
  assumes "linked_list C" and "wheels_ok w" and "timers (wh_sleeps w) i = Some d"
  shows "\<exists>w'. wheels_remove C i w = Inr (Some i, w') \<and> wheels_inv {i} w' \<and>
    (\<forall>k < 6. \<forall>s < 64. i \<notin> set (slot_at w' k s)) \<and>
    wh_sleeps w' = wh_sleeps w \<and> wh_elapsed w' = wh_elapsed w"
proof -
  obtain w' where w': "wheels_remove C i w = Inr (Some i, w')" "wheels_inv {i} w'"
    "wh_sleeps w' = wh_sleeps w" "wh_elapsed w' = wh_elapsed w"
    using wheels_remove_spec [OF assms(1) _ _ assms(3)] assms(2) by (auto simp: wheels_ok_def)
  have "i \<notin> set (slot_at w' k s)" if "k < 6" "s < 64" for k s
    using slot_iff [OF w'(2) that, of i] by simp
  then show ?thesis using w' by blast
qed

theorem remove_unlinks_witness:
  "\<exists>w'. wheels_remove (seq_env True) 0 wheel_two = Inr (Some 0, w') \<and> wheels_inv {0} w'"
  using remove_unlinks [of "seq_env True" wheel_two 0 5000] wheel_two_spec wheel_two_timers by auto

text \<open>
  C23: shutting the wheel down ends and fires every registered timer, once each, with the
  shutdown error; no timer is left, and any timer added afterwards fires at once with that error.
\<close>

theorem shutdown_fires_all:
  assumes "linked_list C" and "wheels_ok w" and "room (wh_elapsed w)"
  shows "\<exists>js w'. wheels_shutdown C w = Some (Inr w') \<and> fired_from (Inl Timer_Shutdown) w js w' \<and>
    set js = {i. timers (wh_sleeps w) i \<noteq> None} \<and> wheels_ok w' \<and> wh_shutdown w'"
  using wheels_shutdown_spec [OF assms(1,3,2)] by blast

theorem shutdown_fires_all_witness:
  "\<exists>js w'. wheels_shutdown (seq_env True) wheel_two = Some (Inr w') \<and>
     fired_from (Inl Timer_Shutdown) wheel_two js w' \<and> set js = {0}"
proof -
  have "{i. timers (wh_sleeps wheel_two) i \<noteq> None} = {0}"
    by (auto simp: wheel_two_timers split: if_splits)
  then show ?thesis
    using shutdown_fires_all [of "seq_env True" wheel_two] wheel_two_spec by (simp add: room_def) blast
qed

text \<open>
  The deadline the wheel looks for next is nothing exactly if no timer is registered; else it lies
  after the elapsed time and not after any registered deadline. No check of the code fails on the way.
\<close>

theorem next_expiration_first:
  assumes "wheels_ok w" and "room (wh_elapsed w)"
  shows "\<exists>nxt. next_expiration C w = Inr nxt \<and> next_deadline_ok w nxt"
proof -
  have inv: "wheels_inv {} w" using assms(1) by (simp add: wheels_ok_def)
  from next_expiration_ok [OF this assms(2)] show ?thesis
    using nxt_ok_deadline [OF inv] by blast
qed

theorem next_expiration_first_witness:
  "\<exists>x. next_expiration (seq_env True) wheel_two = Inr (Some x) \<and> unat (ex_deadline x) \<le> 5000"
proof -
  obtain nxt where "next_expiration (seq_env True) wheel_two = Inr nxt" "next_deadline_ok wheel_two nxt"
    using next_expiration_first [of wheel_two "seq_env True"] wheel_two_spec by (auto simp: room_def)
  then show ?thesis
    using wheel_two_timers by (auto simp: next_deadline_ok_def fun_eq_iff split: option.splits if_splits)
qed


section \<open>Sleep\<close>

text \<open>
  Polling a sleep ends after at most one turn of its loop and does not fail; it returns \<open>Pending\<close>
  exactly if the entry is registered afterwards, with the waker kept, the entry only moves forward
  through its states, and no other sleep changes.
\<close>

theorem sleep_poll_ends:
  assumes "linked_list C" and "wheels_ok w" and "wh_sleeps w i = Some sl"
    and "en_state (sl_entry sl) = Unregistered \<Longrightarrow> wheel_fits w (sl_duration sl)"
  shows "\<exists>r w' e. sleep_poll C (wheel_ops C) i k w = Some (Inr (r, w')) \<and> wheels_ok w' \<and>
    wh_sleeps w' = (wh_sleeps w)(i \<mapsto> sl\<lparr>sl_entry := e\<rparr>) \<and> Unregistered < en_state e \<and>
    (r = Pending \<longleftrightarrow> en_state e = Registered) \<and> en_state (sl_entry sl) \<le> en_state e"
  using timer_list.poll_total [OF wheel_timer_list [OF assms(1)], of w i sl C k] assms(2-4)
  by (simp add: wheels_ok_state wheel_ops_def)

theorem sleep_poll_ends_witness:
  "\<exists>r w' e. sleep_poll (seq_env True) (wheel_ops (seq_env True)) 0 7 wheel_one = Some (Inr (r, w')) \<and>
     wheels_ok w'"
  using sleep_poll_ends [of "seq_env True" wheel_one 0 "sleep_new 5000000000" 7] wheel_one_ok wheel_one_fits
  by (auto simp: sleep_new_def)

text \<open>
  C22: dropping a sleep in any state leaves no handle to its freed entry in the wheel, and the wheel
  consistent, so no later operation dereferences it.
\<close>

theorem sleep_drop_safe:
  assumes "linked_list C" and "wheels_ok w" and "wh_sleeps w i = Some sl"
  shows "\<exists>w'. sleep_drop (wheel_ops C) i w = Inr w' \<and> wheels_ok w' \<and>
    wh_sleeps w' = (wh_sleeps w)(i := None) \<and> (\<forall>k < 6. \<forall>s < 64. i \<notin> set (slot_at w' k s))"
proof -
  obtain w' where w': "sleep_drop (wheel_ops C) i w = Inr w'" "wheels_ok w'" "wh_sleeps w' = (wh_sleeps w)(i := None)"
    using timer_list.drop_total [OF wheel_timer_list [OF assms(1)], of w i sl] assms(2,3)
    by (auto simp: wheels_ok_state wheel_ops_def)
  have "i \<notin> set (slot_at w' k s)" if "k < 6" "s < 64" for k s
    using slot_iff [of "{}" w' k s i] w'(2,3) that by (simp add: wheels_ok_def timers_def)
  then show ?thesis using w' by blast
qed

theorem sleep_drop_safe_witness:
  "\<exists>w'. sleep_drop (wheel_ops (seq_env True)) 0 wheel_two = Inr w' \<and> wh_sleeps w' = Map.empty"
  using sleep_drop_safe [of "seq_env True" wheel_two 0] wheel_two_spec by auto

text \<open>
  C32: \<open>Sleep::reset\<close> does not take a registered sleep back to its initial state: in a debug build it
  panics, and in a release build it leaves the entry marked as registered though it is in no slot of the
  wheel any more, so that the sleep neither registers again nor fires.
\<close>

theorem reset_registered:
  assumes "linked_list C" and "wheels_ok w" and "wh_sleeps w i = Some sl"
    and "en_state (sl_entry sl) = Registered"
  shows "if debug_assertions C then sleep_reset C (wheel_ops C) i w = Inl Panic
    else \<exists>w' sl'. sleep_reset C (wheel_ops C) i w = Inr w' \<and> wh_sleeps w' i = Some sl' \<and>
      en_state (sl_entry sl') = Registered \<and> (\<forall>k < 6. \<forall>s < 64. i \<notin> set (slot_at w' k s))"
proof -
  have t: "timers (wh_sleeps w) i = Some (unat (en_deadline (sl_entry sl)))"
    using assms(3,4) by (simp add: timers_def)
  obtain w1 where w1: "wheels_remove C i w = Inr (Some i, w1)" "wheels_inv {i} w1" "wh_sleeps w1 = wh_sleeps w"
    using wheels_remove_spec [OF assms(1) _ _ t] assms(2) by (auto simp: wheels_ok_def)
  let ?w = "w1\<lparr>wh_sleeps := set_entry i ((sl_entry sl)\<lparr>en_complete := Inr (), en_deadline := 0, en_waker := None\<rparr>)
      (wh_sleeps w1)\<rparr>"
  have res: "sleep_reset C (wheel_ops C) i w = (if debug_assertions C then Inl Panic else Inr ?w)"
    using assms(3,4) w1 by (simp add: sleep_reset_def wheel_ops_def entry_at_def is_registered_def
        debug_assert_def del: and_then_eq_Inr entry_at_Inr)
  have "slot_at ?w k s = slot_at w1 k s" for k s by (simp add: slot_at_def)
  moreover have "i \<notin> set (slot_at w1 k s)" if "k < 6" "s < 64" for k s
    using slot_iff [OF w1(2) that, of i] by simp
  ultimately show ?thesis using assms(3,4) w1(3) by (simp add: res)
qed

theorem reset_registered_witness:
  "sleep_reset (seq_env True) (wheel_ops (seq_env True)) 0 wheel_two = Inl Panic"
  using reset_registered [of "seq_env True" wheel_two 0] wheel_two_spec by simp

section \<open>The driver\<close>

text \<open>
  Parking the timer driver advances the wheel to the clock's tick and then parks the layer below in a
  mode that never sleeps past the deadline of a timer that is left; if no timer is left, the
  caller's mode is passed on, or \<open>NoPark\<close> if a timer fired.
\<close>

theorem timer_park_never_late:
  assumes "linked_list C" and "wheels_ok (td_wheels d)" and "clock_tick sysnow (td_clock d) = Inr ticks"
    and "wh_elapsed (td_wheels d) \<le> ticks" and "room ticks"
  shows "\<exists>fired mode' w'. timer_park C L sysnow mode d =
      run_then (pk_park L mode' (td_inner d)) (\<lambda>(res, p). Some (Inr (res, d\<lparr>td_wheels := w', td_inner := p\<rparr>))) \<and>
    fired = card (due ticks (wh_sleeps (td_wheels d))) \<and> wheels_ok w' \<and> wh_elapsed w' = ticks \<and>
    (\<forall>i e. timers (wh_sleeps w') i = Some e \<longrightarrow> (\<exists>t. mode' = Timeout t \<and> t \<le> (e - unat ticks) * 1000000)) \<and>
    ((\<forall>i. timers (wh_sleeps w') i = None) \<longrightarrow> mode' = (if 0 < fired then NoPark else mode))"
proof -
  obtain fired nxt w' js where adv: "advance C ticks (td_wheels d) = Some (Inr (fired, nxt, w'))"
    "set js = due ticks (wh_sleeps (td_wheels d))" "fired = length js" "distinct js"
    "wheels_ok w'" "wh_elapsed w' = ticks" "next_deadline_ok w' nxt"
    using advance_correct [OF assms(1,2,4,5)] by (auto simp: advance_result_def fired_from_def)
  let ?m = "timer_park_mode ticks fired nxt mode"
  have "?m = (if 0 < fired then NoPark else mode)" if "\<forall>i. timers (wh_sleeps w') i = None"
    using adv(7) that by (auto simp: next_deadline_ok_def timer_park_mode_cases split: option.splits)
  moreover have "fired = card (due ticks (wh_sleeps (td_wheels d)))"
    using adv(2-4) distinct_card [of js] by simp
  moreover have "timer_park C L sysnow mode d =
      run_then (pk_park L ?m (td_inner d)) (\<lambda>(res, p). Some (Inr (res, d\<lparr>td_wheels := w', td_inner := p\<rparr>)))"
    using assms(3) adv(1) by (simp add: timer_park_def)
  ultimately show ?thesis
    using adv(5,6) timer_park_mode_bound [OF adv(7,6)] by blast
qed

theorem timer_park_never_late_witness:
  "\<exists>mode' w'. timer_park (seq_env True) spin_ops 0 NextCompletion
      \<lparr> td_wheels = wheel_two, td_inner = True, td_clock = clock_simulated 0, td_context = Some () \<rparr> =
      run_then (pk_park spin_ops mode' True) (\<lambda>(res, p). Some (Inr (res, \<lparr> td_wheels = w', td_inner = p,
        td_clock = clock_simulated 0, td_context = Some () \<rparr>))) \<and> wh_elapsed w' = 0"
proof -
  have tick: "clock_tick 0 (clock_simulated 0) = Inr 0"
    by (simp add: clock_simulated_def clock_tick_def clock_now_def instant_to_tick_def instant_limit_def)
  show ?thesis
    using timer_park_never_late [of "seq_env True" "\<lparr> td_wheels = wheel_two, td_inner = True,
        td_clock = clock_simulated 0, td_context = Some () \<rparr>" 0 0 spin_ops NextCompletion] wheel_two_spec tick
    by (simp add: room_def del: and_then_eq_Inr) (elim exE conjE, intro exI conjI, assumption+)
qed

end
