(* ===== verification/Task_State.thy ===== *)
theory Task_State
  imports Prelude Rust_Int
begin

text \<open>
  The state word of a task (\<open>norn-task/src/state.rs\<close>): five flags in a byte and a 32-bit reference
  count, and the transitions on it. Every transition asserts what it relies on; \<open>StateCell::update\<close>
  turns a failed assertion into an abort of the process. The lemmas read the flags as booleans and the
  count as a number.
\<close>

definition NOTIFIED :: u8 where "NOTIFIED = push_bit 0 1"
definition RUNNING :: u8 where "RUNNING = push_bit 1 1"
definition COMPLETE :: u8 where "COMPLETE = push_bit 2 1"
definition JOIN_HANDLE :: u8 where "JOIN_HANDLE = push_bit 3 1"
definition CANCELLED :: u8 where "CANCELLED = push_bit 4 1"

record task_state =
  ts_flags :: u8
  ts_refcount :: u32

text \<open>\<open>contains\<close>, \<open>insert\<close> and \<open>remove\<close> of the bit flags.\<close>

definition contains :: "u8 \<Rightarrow> task_state \<Rightarrow> bool" where
  "contains f s \<longleftrightarrow> ts_flags s AND f = f"

definition insert_flag :: "u8 \<Rightarrow> task_state \<Rightarrow> task_state" where
  "insert_flag f s = s\<lparr>ts_flags := ts_flags s OR f\<rparr>"

definition remove_flag :: "u8 \<Rightarrow> task_state \<Rightarrow> task_state" where
  "remove_flag f s = s\<lparr>ts_flags := ts_flags s AND NOT f\<rparr>"

datatype prepare_poll_result = Prepare_Ok | Prepare_Complete | Prepare_Cancelled
datatype complete_poll_result = Notified_During_Poll | Poll_Cancelled | Poll_Ok
datatype complete_task_result = Notify_Join_Handle | Drop_Output
datatype drop_ref_result = Drop_Task | Keep_Task
datatype notify_result = Notify_Nothing | Notify_Submit
datatype shutdown_result = Already_Completed | Not_Completed
datatype abort_result = Abort_Nothing | Abort_Submit

definition task_state_new :: task_state where
  "task_state_new =
     insert_flag NOTIFIED (insert_flag JOIN_HANDLE \<lparr> ts_flags = 0, ts_refcount = 2 \<rparr>)"

text \<open>\<open>StateCell::update\<close>: a panic of the transition aborts.\<close>

definition state_update :: "(task_state \<Rightarrow> fault + ('u \<times> task_state)) \<Rightarrow> task_state \<Rightarrow> fault + ('u \<times> task_state)" where
  "state_update f s = (case f s of Inl _ \<Rightarrow> Inl Abort | Inr r \<Rightarrow> Inr r)"

definition is_complete :: "task_state \<Rightarrow> bool" where
  "is_complete s = contains COMPLETE s"

definition prepare_poll :: "task_state \<Rightarrow> fault + (prepare_poll_result \<times> task_state)" where
  "prepare_poll s =
     and_then (assert_that (0 < ts_refcount s)) (\<lambda>_.
     and_then (assert_that (contains NOTIFIED s)) (\<lambda>_.
     and_then (assert_that (\<not> contains RUNNING s)) (\<lambda>_.
       if contains COMPLETE s then Inr (Prepare_Complete, s)
       else
         let s = remove_flag NOTIFIED (insert_flag RUNNING s) in
         if contains CANCELLED s then Inr (Prepare_Cancelled, s)
         else Inr (Prepare_Ok, s))))"

definition complete_poll :: "task_state \<Rightarrow> fault + (complete_poll_result \<times> task_state)" where
  "complete_poll s =
     and_then (assert_that (contains RUNNING s)) (\<lambda>_.
     and_then (assert_that (0 < ts_refcount s)) (\<lambda>_.
       if contains CANCELLED s then Inr (Poll_Cancelled, s)
       else
         let s = remove_flag RUNNING s in
         if contains NOTIFIED s then Inr (Notified_During_Poll, s) else Inr (Poll_Ok, s)))"

definition complete_task :: "task_state \<Rightarrow> fault + (complete_task_result \<times> task_state)" where
  "complete_task s =
     and_then (assert_that (0 < ts_refcount s)) (\<lambda>_.
     and_then (assert_that (contains RUNNING s)) (\<lambda>_.
     and_then (assert_that (\<not> contains COMPLETE s)) (\<lambda>_.
       let s = remove_flag RUNNING (insert_flag COMPLETE s) in
       if contains JOIN_HANDLE s then Inr (Notify_Join_Handle, s) else Inr (Drop_Output, s))))"

definition drop_ref :: "task_state \<Rightarrow> fault + (drop_ref_result \<times> task_state)" where
  "drop_ref s =
     and_then (assert_that (0 < ts_refcount s)) (\<lambda>_.
       let s = s\<lparr>ts_refcount := ts_refcount s - 1\<rparr> in
       if ts_refcount s = 0
       then and_then (assert_that (\<not> contains JOIN_HANDLE s)) (\<lambda>_. Inr (Drop_Task, s))
       else Inr (Keep_Task, s))"

definition clone_ref :: "task_state \<Rightarrow> fault + (unit \<times> task_state)" where
  "clone_ref s =
     and_then (assert_that (0 < ts_refcount s)) (\<lambda>_.
       case checked_add (ts_refcount s) 1 of
         None \<Rightarrow> Inl Panic
       | Some n \<Rightarrow> Inr ((), s\<lparr>ts_refcount := n\<rparr>))"

definition notify :: "task_state \<Rightarrow> fault + (notify_result \<times> task_state)" where
  "notify s =
     and_then (assert_that (0 < ts_refcount s)) (\<lambda>_.
       if contains COMPLETE s \<or> contains NOTIFIED s then Inr (Notify_Nothing, s)
       else
         let s = insert_flag NOTIFIED s in
         if contains RUNNING s then Inr (Notify_Nothing, s) else Inr (Notify_Submit, s))"

definition shutdown :: "task_state \<Rightarrow> fault + (shutdown_result \<times> task_state)" where
  "shutdown s =
     and_then (assert_that (0 < ts_refcount s)) (\<lambda>_.
     and_then (assert_that (\<not> contains RUNNING s)) (\<lambda>_.
       let s = insert_flag CANCELLED s in
       if contains COMPLETE s then Inr (Already_Completed, s)
       else Inr (Not_Completed, insert_flag COMPLETE s)))"

definition abort :: "task_state \<Rightarrow> fault + (abort_result \<times> task_state)" where
  "abort s =
     and_then (assert_that (0 < ts_refcount s)) (\<lambda>_.
     and_then (assert_that (contains JOIN_HANDLE s)) (\<lambda>_.
       if contains CANCELLED s \<or> contains COMPLETE s then Inr (Abort_Nothing, s)
       else
         let s = insert_flag CANCELLED s in
         if contains RUNNING s then Inr (Abort_Nothing, insert_flag NOTIFIED s)
         else if contains NOTIFIED s then Inr (Abort_Nothing, s)
         else Inr (Abort_Submit, insert_flag NOTIFIED s)))"

definition drop_join_handle :: "task_state \<Rightarrow> fault + (unit \<times> task_state)" where
  "drop_join_handle s =
     and_then (assert_that (0 < ts_refcount s)) (\<lambda>_.
     and_then (assert_that (contains JOIN_HANDLE s)) (\<lambda>_.
       Inr ((), remove_flag JOIN_HANDLE s)))"

section \<open>The flags as booleans\<close>

lemma bit_flags:
  "bit NOTIFIED n \<longleftrightarrow> n = 0" "bit RUNNING n \<longleftrightarrow> n = 1" "bit COMPLETE n \<longleftrightarrow> n = 2"
  "bit JOIN_HANDLE n \<longleftrightarrow> n = 3" "bit CANCELLED n \<longleftrightarrow> n = 4"
  by (simp_all only: NOTIFIED_def RUNNING_def COMPLETE_def JOIN_HANDLE_def CANCELLED_def bit_push_bit_iff bit_1_iff)
    auto

lemma contains_bit:
  "contains NOTIFIED s \<longleftrightarrow> bit (ts_flags s) 0" "contains RUNNING s \<longleftrightarrow> bit (ts_flags s) 1"
  "contains COMPLETE s \<longleftrightarrow> bit (ts_flags s) 2" "contains JOIN_HANDLE s \<longleftrightarrow> bit (ts_flags s) 3"
  "contains CANCELLED s \<longleftrightarrow> bit (ts_flags s) 4"
  by (simp_all add: contains_def and_flag_iff [OF bit_flags(1)] and_flag_iff [OF bit_flags(2)]
      and_flag_iff [OF bit_flags(3)] and_flag_iff [OF bit_flags(4)] and_flag_iff [OF bit_flags(5)])

lemma contains_insert [simp]:
  "contains NOTIFIED (insert_flag f s) \<longleftrightarrow> f AND NOTIFIED = NOTIFIED \<or> contains NOTIFIED s"
  "contains RUNNING (insert_flag f s) \<longleftrightarrow> f AND RUNNING = RUNNING \<or> contains RUNNING s"
  "contains COMPLETE (insert_flag f s) \<longleftrightarrow> f AND COMPLETE = COMPLETE \<or> contains COMPLETE s"
  "contains JOIN_HANDLE (insert_flag f s) \<longleftrightarrow> f AND JOIN_HANDLE = JOIN_HANDLE \<or> contains JOIN_HANDLE s"
  "contains CANCELLED (insert_flag f s) \<longleftrightarrow> f AND CANCELLED = CANCELLED \<or> contains CANCELLED s"
  by (auto simp: contains_bit insert_flag_def bit_or_iff and_flag_iff [OF bit_flags(1)]
      and_flag_iff [OF bit_flags(2)] and_flag_iff [OF bit_flags(3)] and_flag_iff [OF bit_flags(4)]
      and_flag_iff [OF bit_flags(5)])

lemma contains_remove [simp]:
  "contains NOTIFIED (remove_flag f s) \<longleftrightarrow> f AND NOTIFIED \<noteq> NOTIFIED \<and> contains NOTIFIED s"
  "contains RUNNING (remove_flag f s) \<longleftrightarrow> f AND RUNNING \<noteq> RUNNING \<and> contains RUNNING s"
  "contains COMPLETE (remove_flag f s) \<longleftrightarrow> f AND COMPLETE \<noteq> COMPLETE \<and> contains COMPLETE s"
  "contains JOIN_HANDLE (remove_flag f s) \<longleftrightarrow> f AND JOIN_HANDLE \<noteq> JOIN_HANDLE \<and> contains JOIN_HANDLE s"
  "contains CANCELLED (remove_flag f s) \<longleftrightarrow> f AND CANCELLED \<noteq> CANCELLED \<and> contains CANCELLED s"
  by (auto simp: contains_bit remove_flag_def bit_and_iff bit_not_iff and_flag_iff [OF bit_flags(1)]
      and_flag_iff [OF bit_flags(2)] and_flag_iff [OF bit_flags(3)] and_flag_iff [OF bit_flags(4)]
      and_flag_iff [OF bit_flags(5)])

lemma flags_differ [simp]:
  "NOTIFIED AND RUNNING \<noteq> RUNNING" "NOTIFIED AND COMPLETE \<noteq> COMPLETE"
  "NOTIFIED AND JOIN_HANDLE \<noteq> JOIN_HANDLE" "NOTIFIED AND CANCELLED \<noteq> CANCELLED"
  "RUNNING AND NOTIFIED \<noteq> NOTIFIED" "RUNNING AND COMPLETE \<noteq> COMPLETE"
  "RUNNING AND JOIN_HANDLE \<noteq> JOIN_HANDLE" "RUNNING AND CANCELLED \<noteq> CANCELLED"
  "COMPLETE AND NOTIFIED \<noteq> NOTIFIED" "COMPLETE AND RUNNING \<noteq> RUNNING"
  "COMPLETE AND JOIN_HANDLE \<noteq> JOIN_HANDLE" "COMPLETE AND CANCELLED \<noteq> CANCELLED"
  "JOIN_HANDLE AND NOTIFIED \<noteq> NOTIFIED" "JOIN_HANDLE AND RUNNING \<noteq> RUNNING"
  "JOIN_HANDLE AND COMPLETE \<noteq> COMPLETE" "JOIN_HANDLE AND CANCELLED \<noteq> CANCELLED"
  "CANCELLED AND NOTIFIED \<noteq> NOTIFIED" "CANCELLED AND RUNNING \<noteq> RUNNING"
  "CANCELLED AND COMPLETE \<noteq> COMPLETE" "CANCELLED AND JOIN_HANDLE \<noteq> JOIN_HANDLE"
  by (simp_all add: NOTIFIED_def RUNNING_def COMPLETE_def JOIN_HANDLE_def CANCELLED_def push_bit_eq_mult)

lemma refcount_flags [simp]:
  "ts_refcount (insert_flag f s) = ts_refcount s" "ts_refcount (remove_flag f s) = ts_refcount s"
  by (simp_all add: insert_flag_def remove_flag_def)

lemma contains_refcount [simp]: "contains f (s\<lparr>ts_refcount := n\<rparr>) = contains f s"
  by (simp add: contains_def)

lemma contains_zero [simp]:
  "\<not> contains NOTIFIED \<lparr> ts_flags = 0, ts_refcount = n \<rparr>" "\<not> contains RUNNING \<lparr> ts_flags = 0, ts_refcount = n \<rparr>"
  "\<not> contains COMPLETE \<lparr> ts_flags = 0, ts_refcount = n \<rparr>" "\<not> contains JOIN_HANDLE \<lparr> ts_flags = 0, ts_refcount = n \<rparr>"
  "\<not> contains CANCELLED \<lparr> ts_flags = 0, ts_refcount = n \<rparr>"
  by (simp_all add: contains_bit)

lemma state_update_Inr [simp]: "state_update f s = Inr r \<longleftrightarrow> f s = Inr r"
  by (simp add: state_update_def split: sum.splits)

lemma state_update_fault: "state_update f s = Inl e \<Longrightarrow> e = Abort"
  by (simp add: state_update_def split: sum.splits)

lemma task_state_new_flags [simp]:
  "contains NOTIFIED task_state_new" "contains JOIN_HANDLE task_state_new"
  "\<not> contains RUNNING task_state_new" "\<not> contains COMPLETE task_state_new"
  "\<not> contains CANCELLED task_state_new" "ts_refcount task_state_new = 2"
  by (simp_all add: task_state_new_def)

text \<open>The reference count as a number.\<close>

lemma refcount_pos: "0 < ts_refcount s \<longleftrightarrow> 0 < unat (ts_refcount s)"
  by (simp add: word_less_nat_alt)

lemma clone_ref_Inr:
  "clone_ref s = Inr (u, s') \<longleftrightarrow> 0 < unat (ts_refcount s) \<and> unat (ts_refcount s) + 1 < 2 ^ 32 \<and>
     s' = s\<lparr>ts_refcount := ts_refcount s + 1\<rparr>"
  by (auto simp: clone_ref_def checked_add_def refcount_pos split: option.splits if_splits)

lemma unat_refcount_Suc: "unat (c :: u32) + 1 < 2 ^ 32 \<Longrightarrow> unat (c + 1) = unat c + 1"
  using unat_add_no_overflow [of c 1] by simp

lemma drop_ref_Inr:
  "drop_ref s = Inr (r, s') \<longleftrightarrow> 0 < unat (ts_refcount s) \<and>
     s' = s\<lparr>ts_refcount := ts_refcount s - 1\<rparr> \<and>
     (if unat (ts_refcount s) = 1 then \<not> contains JOIN_HANDLE s \<and> r = Drop_Task else r = Keep_Task)"
proof -
  have "ts_refcount s - 1 = 0 \<longleftrightarrow> unat (ts_refcount s) = 1"
    by (metis diff_add_cancel diff_self unat_1 word_unat_eq_iff add_0)
  then show ?thesis by (auto simp: drop_ref_def refcount_pos Let_def)
qed

lemma unat_refcount_pred: "0 < unat (c :: u32) \<Longrightarrow> unat (c - 1) = unat c - 1"
  by (metis unat_minus_one unat_eq_0 less_irrefl)

end
