(* ===== verification/Task_System.thy ===== *)
theory Task_System
  imports Task_State Intrusive_List
begin

text \<open>
  The task system of the crate \<open>norn-task\<close>: the heap of reference-counted task cells
  (\<open>task_cell.rs\<close>, \<open>header.rs\<close>), the future cell (\<open>future_cell.rs\<close>), the task set (\<open>tasks.rs\<close>), the run
  queue (\<open>taskqueue.rs\<close>) and the join handle (\<open>join.rs\<close>).

  A task is its index in the heap; a freed task is \<open>None\<close> there, so that the use of a handle to it is a
  \<open>Dangling\<close> fault. The futures are user code: polling one, or dropping one or its output, runs code that may
  call every operation of the system again. Such a call does not return at once: the operation ends by
  pushing a \<open>frame\<close> on a stack, other operations may follow, and the end of the user code is an operation of
  its own (\<open>poll_end\<close>, \<open>drop_end\<close>), which resumes the code after the call. The
  \<open>RefCell\<close>s that stay borrowed meanwhile are flags of the state.

  Every operation takes the calling thread \<open>th\<close>.
\<close>

section \<open>The state\<close>

datatype task_error = Task_Cancelled | Task_Panicked

text \<open>\<open>future_cell::State\<close>; the future itself is opaque, its output a number.\<close>

datatype cell = Fut | Result "task_error + nat" | Cell_Empty

text \<open>A waker of a task of the system, or any other waker.\<close>

datatype waker = Task_Waker nat | Ext_Waker nat

record task =
  tk_state :: task_state
  tk_waker :: "waker option"
  tk_thread :: nat
  tk_cell :: cell
  tk_borrowed :: bool

text \<open>
  Where user code runs: in the poll of a future (\<open>Polling\<close>), or in the drop of a future that is cancelled
  (\<open>Cancelling\<close>, and whether the poll's waker is still alive), that has finished (\<open>Finishing\<close>), of
  an output nobody waits for (\<open>Destroying\<close>), of a future cancelled by the shutdown (\<open>Shutting\<close>) or
  of one that is spawned on a closed set (\<open>Refusing\<close>).
\<close>

datatype frame =
    Polling (frame_task: nat) | Cancelling (frame_task: nat) bool | Finishing (frame_task: nat)
  | Destroying (frame_task: nat) | Shutting (frame_task: nat) | Refusing (frame_task: nat)

record tsys =
  heap :: "task option list"
  runq :: "nat list"
  tset :: "nat list"
  tset_closed :: bool
  tset_size :: usize
  tset_borrowed :: bool
  ext_woken :: "nat list"
  stack :: "frame list"

definition tsys_new :: "env \<Rightarrow> tsys" where
  "tsys_new C = \<lparr> heap = [], runq = [], tset = list_new C, tset_closed = False, tset_size = 0,
     tset_borrowed = False, ext_woken = [], stack = [] \<rparr>"

definition task_at :: "nat \<Rightarrow> tsys \<Rightarrow> fault + task" where
  "task_at t s = (if t < length (heap s)
     then (case heap s ! t of None \<Rightarrow> Inl Dangling | Some k \<Rightarrow> Inr k) else Inl Dangling)"

definition put_task :: "nat \<Rightarrow> task \<Rightarrow> tsys \<Rightarrow> tsys" where
  "put_task t k s = s\<lparr>heap := (heap s)[t := Some k]\<rparr>"

definition update_state ::
  "nat \<Rightarrow> (task_state \<Rightarrow> fault + ('u \<times> task_state)) \<Rightarrow> tsys \<Rightarrow> fault + ('u \<times> tsys)"
where
  "update_state t f s =
     and_then (task_at t s) (\<lambda>k.
     and_then (state_update f (tk_state k)) (\<lambda>(r, st).
     Inr (r, put_task t (k\<lparr>tk_state := st\<rparr>) s)))"

definition push_frame :: "frame \<Rightarrow> tsys \<Rightarrow> tsys" where
  "push_frame f s = s\<lparr>stack := f # stack s\<rparr>"

section \<open>References and wakers\<close>

definition check_caller :: "nat \<Rightarrow> nat \<Rightarrow> tsys \<Rightarrow> fault + unit" where
  "check_caller th t s = and_then (task_at t s) (\<lambda>k. if tk_thread k = th then Inr () else Inl Abort)"

definition live_count :: "tsys \<Rightarrow> nat" where
  "live_count s = length (filter (\<lambda>x. x \<noteq> None) (heap s))"

text \<open>
  The drop of a reference (\<open>Drop\<close> of \<open>TaskRef\<close>). The last one frees the cell, which drops the waker the
  task's header holds, which may be a reference to another task, and so on.
\<close>

definition dealloc :: "nat \<Rightarrow> tsys \<Rightarrow> fault + (waker option \<times> tsys)" where
  "dealloc t s = and_then (task_at t s) (\<lambda>k. Inr (tk_waker k, s\<lparr>heap := (heap s)[t := None]\<rparr>))"

lemma live_count_put: "task_at t s = Inr k \<Longrightarrow> live_count (put_task t k' s) = live_count s"
  using length_filter_update [of t "heap s" "\<lambda>x. x \<noteq> None" "Some k'"]
  by (auto simp: live_count_def put_task_def task_at_def split: if_splits option.splits)

lemma live_count_dealloc: "dealloc t s = Inr (w, s') \<Longrightarrow> live_count s' < live_count s"
  using length_filter_update [of t "heap s" "\<lambda>x. x \<noteq> None" None]
  by (auto simp: live_count_def dealloc_def task_at_def split: if_splits option.splits)

lemma live_count_update: "update_state t f s = Inr (r, s') \<Longrightarrow> live_count s' = live_count s"
  by (auto simp: update_state_def live_count_put)

function release :: "nat \<Rightarrow> nat \<Rightarrow> tsys \<Rightarrow> fault + tsys" where
  "release th t s =
     and_then (update_state t drop_ref s) (\<lambda>(r, s1). case r of
       Keep_Task \<Rightarrow> Inr s1
     | Drop_Task \<Rightarrow>
         and_then (dealloc t s1) (\<lambda>(w, s2). case w of
           Some (Task_Waker u) \<Rightarrow> and_then (check_caller th u s2) (\<lambda>_. release th u s2)
         | _ \<Rightarrow> Inr s2))"
  by pat_completeness auto
termination
  by (relation "measure (\<lambda>(th, t, s). live_count s)")
    (auto dest!: live_count_dealloc live_count_update)

declare release.simps [simp del]

definition clone_handle :: "nat \<Rightarrow> tsys \<Rightarrow> fault + tsys" where
  "clone_handle t s = and_then (update_state t clone_ref s) (\<lambda>(_, s). Inr s)"

text \<open>\<open>Schedule::schedule\<close> of the task queue.\<close>

definition schedule :: "nat \<Rightarrow> tsys \<Rightarrow> tsys" where
  "schedule t s = s\<lparr>runq := runq s @ [t]\<rparr>"

definition waker_clone :: "nat \<Rightarrow> nat \<Rightarrow> tsys \<Rightarrow> fault + tsys" where
  "waker_clone th t s = and_then (check_caller th t s) (\<lambda>_. clone_handle t s)"

definition waker_drop :: "nat \<Rightarrow> nat \<Rightarrow> tsys \<Rightarrow> fault + tsys" where
  "waker_drop th t s = and_then (check_caller th t s) (\<lambda>_. release th t s)"

definition waker_wake_val :: "nat \<Rightarrow> nat \<Rightarrow> tsys \<Rightarrow> fault + tsys" where
  "waker_wake_val th t s =
     and_then (check_caller th t s) (\<lambda>_.
     and_then (update_state t notify s) (\<lambda>(r, s). case r of
       Notify_Nothing \<Rightarrow> waker_drop th t s
     | Notify_Submit \<Rightarrow>
         and_then (clone_handle t s) (\<lambda>s. waker_drop th t (schedule t s))))"

definition waker_wake_ref :: "nat \<Rightarrow> nat \<Rightarrow> tsys \<Rightarrow> fault + tsys" where
  "waker_wake_ref th t s =
     and_then (check_caller th t s) (\<lambda>_.
     and_then (update_state t notify s) (\<lambda>(r, s). case r of
       Notify_Nothing \<Rightarrow> Inr s
     | Notify_Submit \<Rightarrow> and_then (clone_handle t s) (\<lambda>s. Inr (schedule t s))))"

text \<open>The same on any waker; waking a waker of another kind is logged.\<close>

definition any_waker_clone :: "nat \<Rightarrow> waker \<Rightarrow> tsys \<Rightarrow> fault + tsys" where
  "any_waker_clone th w s = (case w of Task_Waker u \<Rightarrow> waker_clone th u s | Ext_Waker _ \<Rightarrow> Inr s)"

definition any_waker_drop :: "nat \<Rightarrow> waker \<Rightarrow> tsys \<Rightarrow> fault + tsys" where
  "any_waker_drop th w s = (case w of Task_Waker u \<Rightarrow> waker_drop th u s | Ext_Waker _ \<Rightarrow> Inr s)"

definition any_waker_wake :: "nat \<Rightarrow> waker \<Rightarrow> tsys \<Rightarrow> fault + tsys" where
  "any_waker_wake th w s = (case w of
     Task_Waker u \<Rightarrow> waker_wake_val th u s
   | Ext_Waker k \<Rightarrow> Inr (s\<lparr>ext_woken := ext_woken s @ [k]\<rparr>))"

text \<open>The header's waker: \<open>Header::notify_join_handle\<close> and \<open>Header::set_waker\<close>.\<close>

definition notify_join_handle :: "nat \<Rightarrow> nat \<Rightarrow> tsys \<Rightarrow> fault + tsys" where
  "notify_join_handle th t s =
     and_then (task_at t s) (\<lambda>k. case tk_waker k of
       None \<Rightarrow> Inr s
     | Some w \<Rightarrow> any_waker_wake th w (put_task t (k\<lparr>tk_waker := None\<rparr>) s))"

definition set_waker :: "nat \<Rightarrow> nat \<Rightarrow> waker \<Rightarrow> tsys \<Rightarrow> fault + tsys" where
  "set_waker th t w s =
     and_then (task_at t s) (\<lambda>k. case tk_waker k of
       Some e \<Rightarrow>
         if e = w then Inr s
         else and_then (any_waker_clone th w s) (\<lambda>s.
              and_then (task_at t s) (\<lambda>k.
              any_waker_drop th e (put_task t (k\<lparr>tk_waker := Some w\<rparr>) s)))
     | None \<Rightarrow>
         and_then (any_waker_clone th w s) (\<lambda>s.
         and_then (task_at t s) (\<lambda>k.
         Inr (put_task t (k\<lparr>tk_waker := Some w\<rparr>) s))))"

section \<open>The future cell\<close>

text \<open>
  Each operation borrows the cell and panics if it is borrowed already. \<open>cell_fill\<close> is the state in
  which the borrow is held while the old contents are dropped.
\<close>

definition cell_borrow :: "nat \<Rightarrow> tsys \<Rightarrow> fault + tsys" where
  "cell_borrow t s = and_then (task_at t s) (\<lambda>k.
     if tk_borrowed k then Inl Panic else Inr (put_task t (k\<lparr>tk_borrowed := True\<rparr>) s))"

definition cell_unborrow :: "nat \<Rightarrow> tsys \<Rightarrow> fault + tsys" where
  "cell_unborrow t s = and_then (task_at t s) (\<lambda>k. Inr (put_task t (k\<lparr>tk_borrowed := False\<rparr>) s))"

definition cell_fill :: "nat \<Rightarrow> cell \<Rightarrow> tsys \<Rightarrow> fault + tsys" where
  "cell_fill t c s = and_then (task_at t s) (\<lambda>k. Inr (put_task t (k\<lparr>tk_cell := c\<rparr>) s))"

definition cell_cancel :: "nat \<Rightarrow> tsys \<Rightarrow> fault + tsys" where
  "cell_cancel t s = and_then (cell_borrow t s) (cell_fill t (Result (Inl Task_Cancelled)))"

definition cell_destroy :: "nat \<Rightarrow> tsys \<Rightarrow> fault + tsys" where
  "cell_destroy t s = and_then (cell_borrow t s) (cell_fill t Cell_Empty)"

definition cell_take_output :: "nat \<Rightarrow> tsys \<Rightarrow> fault + ((task_error + nat) \<times> tsys)" where
  "cell_take_output t s =
     and_then (cell_borrow t s) (\<lambda>s.
     and_then (task_at t s) (\<lambda>k. case tk_cell k of
       Result r \<Rightarrow>
         and_then (cell_fill t Cell_Empty s) (\<lambda>s.
         and_then (cell_unborrow t s) (\<lambda>s. Inr (r, s)))
     | _ \<Rightarrow> Inl Panic))"

text \<open>The start of \<open>FutureCell::poll\<close>: only a cell that holds a future may be polled.\<close>

definition cell_poll :: "nat \<Rightarrow> tsys \<Rightarrow> fault + tsys" where
  "cell_poll t s =
     and_then (cell_borrow t s) (\<lambda>s.
     and_then (task_at t s) (\<lambda>k. case tk_cell k of
       Fut \<Rightarrow> Inr s | Result _ \<Rightarrow> Inl Panic | Cell_Empty \<Rightarrow> Inl Panic))"

section \<open>The task set\<close>

text \<open>\<open>TaskSet::remove\<close>, and the drop of the registered task it returns in \<open>Schedule::unbind\<close>.\<close>

definition tset_remove :: "env \<Rightarrow> nat \<Rightarrow> tsys \<Rightarrow> fault + (nat option \<times> tsys)" where
  "tset_remove C t s =
     (if tset_borrowed s then Inl Panic
      else
        let (r, ts) = list_remove C t (tset s); s = s\<lparr>tset := ts\<rparr> in
        case r of
          None \<Rightarrow> Inr (None, s)
        | Some _ \<Rightarrow>
            and_then (sub_word (debug_assertions C) (tset_size s) 1) (\<lambda>n. Inr (r, s\<lparr>tset_size := n\<rparr>)))"

definition unbind :: "env \<Rightarrow> nat \<Rightarrow> nat \<Rightarrow> tsys \<Rightarrow> fault + tsys" where
  "unbind C th t s =
     and_then (tset_remove C t s) (\<lambda>(r, s). case r of None \<Rightarrow> Inr s | Some t \<Rightarrow> release th t s)"

definition task_new :: "nat \<Rightarrow> task" where
  "task_new th = \<lparr> tk_state = task_state_new, tk_waker = None, tk_thread = th, tk_cell = Fut, tk_borrowed = False \<rparr>"

definition is_closed :: "tsys \<Rightarrow> fault + bool" where
  "is_closed s = (if tset_borrowed s then Inl Panic else Inr (tset_closed s))"

text \<open>\<open>RegisteredTask::shutdown\<close>: whether the future has to be dropped, which then runs.\<close>

definition task_shutdown :: "nat \<Rightarrow> tsys \<Rightarrow> fault + (bool \<times> tsys)" where
  "task_shutdown t s =
     and_then (update_state t shutdown s) (\<lambda>(r, s). case r of
       Already_Completed \<Rightarrow> Inr (False, s)
     | Not_Completed \<Rightarrow> and_then (cell_cancel t s) (\<lambda>s. Inr (True, s)))"

text \<open>
  \<open>TaskSet::bind\<close>: the task it allocates, whether it may be scheduled, and the state. On a closed set the
  future is cancelled: the frame \<open>Refusing\<close>.
\<close>

definition tset_bind :: "env \<Rightarrow> nat \<Rightarrow> tsys \<Rightarrow> fault + (nat \<times> bool \<times> tsys)" where
  "tset_bind C th s =
     (let t = length (heap s); s = s\<lparr>heap := heap s @ [Some (task_new th)]\<rparr> in
      and_then (is_closed s) (\<lambda>closed.
        if closed
        then and_then (task_shutdown t s) (\<lambda>(drops, s).
               if drops then Inr (t, False, push_frame (Refusing t) s)
               else and_then (release th t s) (\<lambda>s. Inr (t, False, s)))
        else
          and_then (clone_handle t s) (\<lambda>s.
          and_then (add_word (debug_assertions C) (tset_size s) 1) (\<lambda>n.
          Inr (t, True, s\<lparr>tset := push_back C t (tset s), tset_size := n\<rparr>)))))"

text \<open>
  \<open>TaskSet::shutdown\<close>: the loop that takes every task out of the set, shuts it down and drops the set's
  reference. The drop of a future interrupts it (\<open>Shutting\<close>); \<open>drop_end\<close> resumes it. The borrow
  of the set is held to the end.
\<close>

definition tset_drained :: "env \<Rightarrow> nat \<Rightarrow> nat \<Rightarrow> tsys \<Rightarrow> fault + tsys" where
  "tset_drained C th t s =
     and_then (sub_word (debug_assertions C) (tset_size s) 1) (\<lambda>n. release th t (s\<lparr>tset_size := n\<rparr>))"

text \<open>The rest of \<open>TaskQueue::shutdown\<close>: the run queue is emptied and its runnables are dropped.\<close>

fun release_all :: "nat \<Rightarrow> nat list \<Rightarrow> tsys \<Rightarrow> fault + tsys" where
  "release_all th [] s = Inr s"
| "release_all th (t # ts) s = and_then (release th t s) (release_all th ts)"

definition runq_take :: "nat \<Rightarrow> tsys \<Rightarrow> fault + tsys" where
  "runq_take th s = release_all th (runq s) (s\<lparr>runq := []\<rparr>)"

partial_function (option) tset_drain :: "env \<Rightarrow> nat \<Rightarrow> tsys \<Rightarrow> (fault + tsys) option" where
  "tset_drain C th s =
     (case pop_front C (tset s) of
        (None, ts) \<Rightarrow> Some (runq_take th (s\<lparr>tset := ts, tset_borrowed := False\<rparr>))
      | (Some t, ts) \<Rightarrow>
          (case task_shutdown t (s\<lparr>tset := ts\<rparr>) of
             Inl f \<Rightarrow> Some (Inl f)
           | Inr (drops, s1) \<Rightarrow>
               if drops then Some (Inr (push_frame (Shutting t) s1))
               else (case tset_drained C th t s1 of
                       Inl f \<Rightarrow> Some (Inl f)
                     | Inr s2 \<Rightarrow> tset_drain C th s2)))"

declare tset_drain.simps [code]

definition queue_shutdown :: "env \<Rightarrow> nat \<Rightarrow> tsys \<Rightarrow> (fault + tsys) option" where
  "queue_shutdown C th s =
     (if tset_borrowed s then Some (Inl Panic)
      else tset_drain C th (s\<lparr>tset_borrowed := True, tset_closed := True\<rparr>))"

section \<open>Running a task\<close>

text \<open>The end of \<open>TaskCell::complete_task\<close>, and the drop of the runnable that \<open>Runnable::run\<close> consumed.\<close>

definition complete_tail :: "env \<Rightarrow> nat \<Rightarrow> nat \<Rightarrow> tsys \<Rightarrow> fault + tsys" where
  "complete_tail C th t s = and_then (unbind C th t s) (release th t)"

definition task_complete :: "env \<Rightarrow> nat \<Rightarrow> nat \<Rightarrow> tsys \<Rightarrow> fault + tsys" where
  "task_complete C th t s =
     and_then (update_state t complete_task s) (\<lambda>(r, s). case r of
       Notify_Join_Handle \<Rightarrow> and_then (notify_join_handle th t s) (complete_tail C th t)
     | Drop_Output \<Rightarrow> and_then (cell_destroy t s) (\<lambda>s. Inr (push_frame (Destroying t) s)))"

text \<open>\<open>TaskCell::poll\<close> up to the call of the future.\<close>

definition task_poll :: "env \<Rightarrow> nat \<Rightarrow> nat \<Rightarrow> tsys \<Rightarrow> fault + tsys" where
  "task_poll C th t s =
     and_then (update_state t prepare_poll s) (\<lambda>(r, s). case r of
       Prepare_Complete \<Rightarrow> release th t s
     | Prepare_Cancelled \<Rightarrow> and_then (cell_cancel t s) (\<lambda>s. Inr (push_frame (Cancelling t False) s))
     | Prepare_Ok \<Rightarrow>
         and_then (clone_handle t s) (\<lambda>s.
         and_then (cell_poll t s) (\<lambda>s. Inr (push_frame (Polling t) s))))"

datatype outcome = Out_Pending | Out_Ready nat | Out_Panic

text \<open>
  \<open>TaskCell::poll\<close> after the future has returned: a pending future is put back, notified again or
  cancelled; an output, or the panic the future ended with, replaces the future, which is then dropped.
\<close>

definition poll_end :: "env \<Rightarrow> nat \<Rightarrow> outcome \<Rightarrow> nat \<Rightarrow> tsys \<Rightarrow> fault + tsys" where
  "poll_end C th out t s = (case out of
     Out_Pending \<Rightarrow>
       and_then (cell_unborrow t s) (\<lambda>s.
       and_then (update_state t complete_poll s) (\<lambda>(r, s). case r of
         Notified_During_Poll \<Rightarrow>
           and_then (waker_drop th t s) (\<lambda>s.
           and_then (clone_handle t s) (\<lambda>s. release th t (schedule t s)))
       | Poll_Cancelled \<Rightarrow> and_then (cell_cancel t s) (\<lambda>s. Inr (push_frame (Cancelling t True) s))
       | Poll_Ok \<Rightarrow> and_then (waker_drop th t s) (release th t)))
   | Out_Ready v \<Rightarrow>
       and_then (cell_fill t (Result (Inr v)) s) (\<lambda>s. Inr (push_frame (Finishing t) s))
   | Out_Panic \<Rightarrow>
       and_then (cell_fill t (Result (Inl Task_Panicked)) s) (\<lambda>s. Inr (push_frame (Finishing t) s)))"

text \<open>What follows the drop of a future or output, by the place it was called from.\<close>

definition drop_end :: "env \<Rightarrow> nat \<Rightarrow> frame \<Rightarrow> tsys \<Rightarrow> (fault + tsys) option" where
  "drop_end C th f s = (case f of
     Polling t \<Rightarrow> Some (Inl Panic)
   | Cancelling t w \<Rightarrow>
       Some (and_then (cell_unborrow t s) (\<lambda>s.
             and_then (if w then waker_drop th t s else Inr s) (task_complete C th t)))
   | Finishing t \<Rightarrow>
       Some (and_then (cell_unborrow t s) (\<lambda>s.
             and_then (waker_drop th t s) (task_complete C th t)))
   | Destroying t \<Rightarrow> Some (and_then (cell_unborrow t s) (complete_tail C th t))
   | Shutting t \<Rightarrow>
       (case and_then (cell_unborrow t s) (tset_drained C th t) of
          Inl e \<Rightarrow> Some (Inl e)
        | Inr s \<Rightarrow> tset_drain C th s)
   | Refusing t \<Rightarrow> Some (and_then (cell_unborrow t s) (release th t)))"

section \<open>The operations of the queue and of the join handle\<close>

definition queue_spawn :: "env \<Rightarrow> nat \<Rightarrow> tsys \<Rightarrow> fault + (nat \<times> tsys)" where
  "queue_spawn C th s =
     and_then (tset_bind C th s) (\<lambda>(t, runnable, s). Inr (t, if runnable then schedule t s else s))"

definition queue_next :: "tsys \<Rightarrow> nat option \<times> tsys" where
  "queue_next s = (case runq s of [] \<Rightarrow> (None, s) | t # ts \<Rightarrow> (Some t, s\<lparr>runq := ts\<rparr>))"

definition queue_runnable :: "tsys \<Rightarrow> nat" where
  "queue_runnable s = length (runq s)"

definition join_poll :: "nat \<Rightarrow> nat \<Rightarrow> waker \<Rightarrow> tsys \<Rightarrow> fault + ((task_error + nat) poll \<times> tsys)" where
  "join_poll th t w s =
     and_then (task_at t s) (\<lambda>k.
       if is_complete (tk_state k)
       then and_then (cell_take_output t s) (\<lambda>(r, s). Inr (Ready r, s))
       else and_then (set_waker th t w s) (\<lambda>s. Inr (Pending, s)))"

definition join_abort :: "nat \<Rightarrow> tsys \<Rightarrow> fault + tsys" where
  "join_abort t s =
     and_then (update_state t abort s) (\<lambda>(r, s). case r of
       Abort_Nothing \<Rightarrow> Inr s
     | Abort_Submit \<Rightarrow> and_then (clone_handle t s) (\<lambda>s. Inr (schedule t s)))"

definition join_drop :: "nat \<Rightarrow> nat \<Rightarrow> tsys \<Rightarrow> fault + tsys" where
  "join_drop th t s =
     and_then (update_state t drop_join_handle s) (\<lambda>(_, s). release th t s)"

end
