(* ===== verification/Task_Inv.thy ===== *)
theory Task_Inv
  imports Task_System
begin

text \<open>
  The invariant of the task system: the reference count of every live task is the number of handles to it,
  which are counted over the run queue, the task set, the wakers in the headers, the frames, the join handles
  \<open>J\<close> and a list \<open>X\<close> of the handles held outside the system (the wakers user code holds, and the
  handles that local variables of the running operation hold); a freed task has none. With it, what the flags
  of a task say about the queue, the set, its frame and its cell.
\<close>

section \<open>Counting the handles\<close>

definition header_refs :: "task option \<Rightarrow> nat list" where
  "header_refs x = (case x of None \<Rightarrow> [] | Some k \<Rightarrow> (case tk_waker k of Some (Task_Waker u) \<Rightarrow> [u] | _ \<Rightarrow> []))"

fun frame_refs :: "frame \<Rightarrow> nat list" where
  "frame_refs (Polling t) = [t, t]"
| "frame_refs (Cancelling t w) = (if w then [t, t] else [t])"
| "frame_refs (Finishing t) = [t, t]"
| "frame_refs (Destroying t) = [t]"
| "frame_refs (Shutting t) = [t]"
| "frame_refs (Refusing t) = [t]"

definition sys_refs :: "tsys \<Rightarrow> nat list" where
  "sys_refs s = runq s @ tset s @ concat (map header_refs (heap s)) @ concat (map frame_refs (stack s))"

definition nrefs :: "nat list \<Rightarrow> nat list \<Rightarrow> tsys \<Rightarrow> nat \<Rightarrow> nat" where
  "nrefs X J s t = count_list X t + count_list J t + count_list (sys_refs s) t"

definition frames_of :: "nat \<Rightarrow> tsys \<Rightarrow> frame list" where
  "frames_of t s = filter (\<lambda>f. frame_task f = t) (stack s)"

text \<open>A task that the shutdown is dropping has left the set, and is still counted in its size.\<close>

fun shut_count :: "frame list \<Rightarrow> nat" where
  "shut_count [] = 0"
| "shut_count (f # fs) = (case f of Shutting _ \<Rightarrow> Suc (shut_count fs) | _ \<Rightarrow> shut_count fs)"

section \<open>One task\<close>

fun running_frame :: "frame \<Rightarrow> bool" where
  "running_frame (Polling _) = True"
| "running_frame (Cancelling _ _) = True"
| "running_frame (Finishing _) = True"
| "running_frame _ = False"

fun frame_cell :: "frame \<Rightarrow> cell \<Rightarrow> bool" where
  "frame_cell (Polling _) c = (c = Fut)"
| "frame_cell (Destroying _) c = (c = Cell_Empty)"
| "frame_cell _ c = (\<exists>r. c = Result r)"

definition task_ok :: "task \<Rightarrow> nat \<Rightarrow> nat \<Rightarrow> bool \<Rightarrow> frame list \<Rightarrow> bool" where
  "task_ok k q b j fs \<longleftrightarrow>
     (let st = tk_state k in
      q \<le> 1 \<and> b \<le> 1 \<and> (contains JOIN_HANDLE st \<longleftrightarrow> j) \<and>
      (q = 1 \<longrightarrow> contains NOTIFIED st \<and> \<not> contains RUNNING st) \<and>
      (contains NOTIFIED st \<and> \<not> contains RUNNING st \<and> \<not> contains COMPLETE st \<longrightarrow> q = 1) \<and>
      (contains CANCELLED st \<and> \<not> contains RUNNING st \<and> \<not> contains COMPLETE st \<longrightarrow> contains NOTIFIED st) \<and>
      (\<not> contains COMPLETE st \<longrightarrow> b = 1) \<and> (contains COMPLETE st \<longrightarrow> \<not> contains RUNNING st) \<and>
      length fs \<le> 1 \<and> (tk_borrowed k \<longleftrightarrow> fs \<noteq> []) \<and>
      (contains RUNNING st \<longleftrightarrow> (\<exists>f \<in> set fs. running_frame f)) \<and>
      (\<forall>f \<in> set fs. running_frame f \<or> contains COMPLETE st) \<and>
      (\<forall>f \<in> set fs. frame_cell f (tk_cell k)) \<and>
      (if contains COMPLETE st then tk_cell k \<noteq> Fut else fs = [] \<longrightarrow> tk_cell k = Fut))"

section \<open>The system\<close>

definition sinv :: "nat \<Rightarrow> nat list \<Rightarrow> nat list \<Rightarrow> tsys \<Rightarrow> bool" where
  "sinv th X J s \<longleftrightarrow>
     (\<forall>t. case task_at t s of
        Inl _ \<Rightarrow> nrefs X J s t = 0
      | Inr k \<Rightarrow> unat (ts_refcount (tk_state k)) = nrefs X J s t \<and> 0 < nrefs X J s t \<and> tk_thread k = th \<and>
          task_ok k (count_list (runq s) t) (count_list (tset s) t) (t \<in> set J) (frames_of t s)) \<and>
     distinct J \<and> unat (tset_size s) = length (tset s) + shut_count (stack s)"

definition room_for :: "tsys \<Rightarrow> nat \<Rightarrow> bool" where
  "room_for s t \<longleftrightarrow> (\<forall>k. task_at t s = Inr k \<longrightarrow> unat (ts_refcount (tk_state k)) + 1 < 2 ^ 32)"

text \<open>How an operation may change the tasks it is not about: their reference counts only.\<close>

definition refs_only :: "task \<Rightarrow> task \<Rightarrow> bool" where
  "refs_only k k' \<longleftrightarrow> (\<exists>n. k' = k\<lparr>tk_state := (tk_state k)\<lparr>ts_refcount := n\<rparr>\<rparr>)"

definition same_rest :: "tsys \<Rightarrow> tsys \<Rightarrow> bool" where
  "same_rest s s' \<longleftrightarrow> runq s' = runq s \<and> tset s' = tset s \<and> tset_closed s' = tset_closed s \<and>
     tset_size s' = tset_size s \<and> tset_borrowed s' = tset_borrowed s \<and> ext_woken s' = ext_woken s \<and>
     stack s' = stack s \<and> length (heap s') = length (heap s)"

lemma same_rest_refl [simp]: "same_rest s s"
  by (simp add: same_rest_def)

lemma same_rest_trans: "same_rest a b \<Longrightarrow> same_rest b c \<Longrightarrow> same_rest a c"
  by (simp add: same_rest_def)

lemma refs_only_refl [simp]: "refs_only k k"
  unfolding refs_only_def by (rule exI [of _ "ts_refcount (tk_state k)"]) simp

lemma refs_only_trans: "refs_only a b \<Longrightarrow> refs_only b c \<Longrightarrow> refs_only a c"
  by (auto simp: refs_only_def)

lemma refs_only_simps:
  assumes "refs_only k k'"
  shows "contains f (tk_state k') = contains f (tk_state k)" "tk_waker k' = tk_waker k"
    "tk_thread k' = tk_thread k" "tk_cell k' = tk_cell k" "tk_borrowed k' = tk_borrowed k"
  using assms by (auto simp: refs_only_def)

lemma task_ok_refs_only: "refs_only k k' \<Longrightarrow> task_ok k' q b j fs = task_ok k q b j fs"
  by (simp add: task_ok_def Let_def refs_only_simps)

section \<open>Reading and writing the heap\<close>

lemma task_at_Inr: "task_at t s = Inr k \<longleftrightarrow> t < length (heap s) \<and> heap s ! t = Some k"
  by (auto simp: task_at_def split: option.splits)

lemma task_at_put:
  assumes "task_at t s = Inr k"
  shows "task_at u (put_task t k' s) = (if u = t then Inr k' else task_at u s)"
  using assms by (auto simp: task_at_def put_task_def nth_list_update split: option.splits if_splits)

lemma put_task_simps [simp]:
  "runq (put_task t k s) = runq s" "tset (put_task t k s) = tset s" "stack (put_task t k s) = stack s"
  "tset_closed (put_task t k s) = tset_closed s" "tset_size (put_task t k s) = tset_size s"
  "tset_borrowed (put_task t k s) = tset_borrowed s" "ext_woken (put_task t k s) = ext_woken s"
  "length (heap (put_task t k s)) = length (heap s)"
  by (simp_all add: put_task_def)

lemma put_task_twice [simp]: "put_task t k (put_task t k' s) = put_task t k s"
  by (simp add: put_task_def)

lemma frames_of_put [simp]: "frames_of t (put_task u k s) = frames_of t s"
  by (simp add: frames_of_def)

lemma count_concat_update:
  assumes "i < length xs"
  shows "count_list (concat (map f (xs[i := y]))) u + count_list (f (xs ! i)) u
    = count_list (concat (map f xs)) u + count_list (f y) u"
proof -
  have "xs = take i xs @ xs ! i # drop (Suc i) xs"
    using assms by (rule id_take_nth_drop)
  then have "count_list (concat (map f xs)) u
      = count_list (concat (map f (take i xs @ xs ! i # drop (Suc i) xs))) u" by simp
  moreover have "xs[i := y] = take i xs @ y # drop (Suc i) xs"
    using assms by (rule upd_conv_take_nth_drop)
  ultimately show ?thesis by (simp add: count_list_append)
qed

lemma nrefs_heap_update:
  assumes "task_at t s = Inr k"
  shows "nrefs X J (s\<lparr>heap := (heap s)[t := x]\<rparr>) u + count_list (header_refs (Some k)) u
    = nrefs X J s u + count_list (header_refs x) u"
  using count_concat_update [of t "heap s" header_refs x u] assms
  by (simp add: nrefs_def sys_refs_def count_list_append task_at_Inr)

lemma nrefs_put:
  assumes "task_at t s = Inr k" and "tk_waker k' = tk_waker k"
  shows "nrefs X J (put_task t k' s) u = nrefs X J s u"
  using nrefs_heap_update [OF assms(1), of X J "Some k'" u] assms(2)
  by (simp add: put_task_def header_refs_def)

lemma nrefs_Cons [simp]: "nrefs (t # X) J s u = nrefs X J s u + (if u = t then 1 else 0)"
  by (simp add: nrefs_def)

lemma nrefs_Cons_J [simp]: "nrefs X (t # J) s u = nrefs X J s u + (if u = t then 1 else 0)"
  by (simp add: nrefs_def)

section \<open>Consequences\<close>

lemma sinv_task:
  assumes "sinv th X J s" and "task_at t s = Inr k"
  shows "unat (ts_refcount (tk_state k)) = nrefs X J s t" and "0 < nrefs X J s t" and "tk_thread k = th"
    and "task_ok k (count_list (runq s) t) (count_list (tset s) t) (t \<in> set J) (frames_of t s)"
  using assms by (auto simp: sinv_def split: sum.splits)

lemma sinv_live:
  assumes "sinv th X J s" and "0 < nrefs X J s t"
  shows "\<exists>k. task_at t s = Inr k"
proof (cases "task_at t s")
  case (Inl e)
  then have "nrefs X J s t = 0" using assms(1) by (auto simp: sinv_def split: sum.splits dest: spec [of _ t])
  then show ?thesis using assms(2) by simp
qed blast

text \<open>The rule for a step that changes one task, and the handles.\<close>

lemma sinv_change:
  assumes inv: "sinv th X J s"
    and others: "\<And>u. u \<noteq> t \<Longrightarrow> task_at u s' = task_at u s \<and> nrefs X' J' s' u = nrefs X J s u \<and>
      count_list (runq s') u = count_list (runq s) u \<and> count_list (tset s') u = count_list (tset s) u \<and>
      (u \<in> set J' \<longleftrightarrow> u \<in> set J) \<and> frames_of u s' = frames_of u s"
    and here: "task_at t s' = Inr k'" "unat (ts_refcount (tk_state k')) = nrefs X' J' s' t"
      "0 < nrefs X' J' s' t" "tk_thread k' = th"
      "task_ok k' (count_list (runq s') t) (count_list (tset s') t) (t \<in> set J') (frames_of t s')"
    and "distinct J'" and "unat (tset_size s') = length (tset s') + shut_count (stack s')"
  shows "sinv th X' J' s'"
  unfolding sinv_def
proof (intro conjI allI)
  fix u
  show "case task_at u s' of Inl _ \<Rightarrow> nrefs X' J' s' u = 0
      | Inr k \<Rightarrow> unat (ts_refcount (tk_state k)) = nrefs X' J' s' u \<and> 0 < nrefs X' J' s' u \<and> tk_thread k = th \<and>
          task_ok k (count_list (runq s') u) (count_list (tset s') u) (u \<in> set J') (frames_of u s')"
  proof (cases "u = t")
    case True
    then show ?thesis using here by simp
  next
    case False
    have "case task_at u s of Inl _ \<Rightarrow> nrefs X J s u = 0
      | Inr k \<Rightarrow> unat (ts_refcount (tk_state k)) = nrefs X J s u \<and> 0 < nrefs X J s u \<and> tk_thread k = th \<and>
          task_ok k (count_list (runq s) u) (count_list (tset s) u) (u \<in> set J) (frames_of u s)"
      using inv unfolding sinv_def by blast
    then show ?thesis by (simp only: others [OF False])
  qed
qed (use assms in auto)

lemma sinv_globals:
  assumes "sinv th X J s"
  shows "distinct J" "unat (tset_size s) = length (tset s) + shut_count (stack s)"
  using assms by (auto simp: sinv_def)

text \<open>Changing one task, with the lists as they are.\<close>

lemma sinv_put:
  assumes inv: "sinv th X J s" and k: "task_at t s = Inr k"
    and "unat (ts_refcount (tk_state k')) = nrefs X' J s t" and "0 < nrefs X' J s t"
    and "tk_waker k' = tk_waker k" and "tk_thread k' = tk_thread k"
    and "task_ok k' (count_list (runq s) t) (count_list (tset s) t) (t \<in> set J) (frames_of t s)"
    and "\<And>u. u \<noteq> t \<Longrightarrow> count_list X' u = count_list X u"
  shows "sinv th X' J (put_task t k' s)"
  using assms(3-7) sinv_task(3) [OF inv k] sinv_globals [OF inv] nrefs_put [OF k assms(5)]
  by (intro sinv_change [OF inv, of t _ _ _ k']) (simp_all add: task_at_put [OF k] nrefs_def assms(8))

lemma same_rest_put [simp]: "same_rest s (put_task t k s)"
  by (simp add: same_rest_def)

lemma check_caller_ok: "sinv th X J s \<Longrightarrow> task_at t s = Inr k \<Longrightarrow> check_caller th t s = Inr ()"
  using sinv_task(3) by (auto simp: check_caller_def)

section \<open>Cloning and dropping a handle\<close>

lemma clone_handle_ok:
  assumes inv: "sinv th X J s" and live: "0 < nrefs X J s t" and rm: "room_for s t"
  shows "\<exists>k s'. task_at t s = Inr k \<and> clone_handle t s = Inr s' \<and> sinv th (t # X) J s' \<and> same_rest s s' \<and>
    s' = put_task t (k\<lparr>tk_state := (tk_state k)\<lparr>ts_refcount := ts_refcount (tk_state k) + 1\<rparr>\<rparr>) s"
proof -
  obtain k where k: "task_at t s = Inr k" using sinv_live [OF inv live] by blast
  note K = sinv_task [OF inv k]
  let ?k = "k\<lparr>tk_state := (tk_state k)\<lparr>ts_refcount := ts_refcount (tk_state k) + 1\<rparr>\<rparr>"
  have r: "unat (ts_refcount (tk_state k)) + 1 < 2 ^ 32" using rm k by (simp add: room_for_def)
  have "refs_only k ?k" by (auto simp: refs_only_def)
  then have "sinv th (t # X) J (put_task t ?k s)"
    using K unat_refcount_Suc [OF r] by (intro sinv_put [OF inv k]) (simp_all add: task_ok_refs_only)
  moreover have "clone_handle t s = Inr (put_task t ?k s)"
    using K(1,2) r by (simp add: clone_handle_def update_state_def k clone_ref_Inr)
  ultimately show ?thesis using k by simp
qed

lemma clone_handle_room:
  "clone_handle t s = Inr s' \<Longrightarrow> u \<noteq> t \<Longrightarrow> room_for s' u = room_for s u"
  by (auto simp: clone_handle_def update_state_def room_for_def task_at_put)

text \<open>Freeing a cell leaves the reference its header held.\<close>

lemma free_inv:
  assumes inv: "sinv th (t # X) J s" and k: "task_at t s = Inr k" and last: "nrefs X J s t = 0"
  shows "sinv th (header_refs (Some k) @ X) J (s\<lparr>heap := (heap s)[t := None]\<rparr>)"
proof -
  let ?s = "s\<lparr>heap := (heap s)[t := None]\<rparr>" and ?X = "header_refs (Some k) @ X"
  have at: "task_at u ?s = (if u = t then Inl Dangling else task_at u s)" for u
    by (auto simp: task_at_def nth_list_update split: option.splits)
  have n: "nrefs ?X J ?s u = nrefs X J s u" for u
    using nrefs_heap_update [OF k, of ?X J None u]
    by (simp add: nrefs_def count_list_append header_refs_def [of None])
  show ?thesis
    unfolding sinv_def
  proof (intro conjI allI)
    fix u
    have "case task_at u s of Inl _ \<Rightarrow> nrefs (t # X) J s u = 0
      | Inr k \<Rightarrow> unat (ts_refcount (tk_state k)) = nrefs (t # X) J s u \<and> 0 < nrefs (t # X) J s u \<and> tk_thread k = th \<and>
          task_ok k (count_list (runq s) u) (count_list (tset s) u) (u \<in> set J) (frames_of u s)"
      using inv unfolding sinv_def by blast
    then show "case task_at u ?s of Inl _ \<Rightarrow> nrefs ?X J ?s u = 0
      | Inr k \<Rightarrow> unat (ts_refcount (tk_state k)) = nrefs ?X J ?s u \<and> 0 < nrefs ?X J ?s u \<and> tk_thread k = th \<and>
          task_ok k (count_list (runq ?s) u) (count_list (tset ?s) u) (u \<in> set J) (frames_of u ?s)"
      using last by (cases "u = t"; cases "task_at u s") (simp_all add: at n frames_of_def)
  qed (use sinv_globals [OF inv] in auto)
qed

text \<open>What an operation leaves of the tasks: no new one, no flag and no cell changed, no count higher.\<close>

definition kept :: "tsys \<Rightarrow> tsys \<Rightarrow> bool" where
  "kept s s' \<longleftrightarrow> (\<forall>u k'. task_at u s' = Inr k' \<longrightarrow>
     (\<exists>k. task_at u s = Inr k \<and> refs_only k k' \<and> ts_refcount (tk_state k') \<le> ts_refcount (tk_state k)))"

lemma kept_refl [simp]: "kept s s"
  by (auto simp: kept_def)

lemma kept_trans: "kept a b \<Longrightarrow> kept b c \<Longrightarrow> kept a c"
  unfolding kept_def by (meson refs_only_trans order_trans)

lemma kept_room: "kept s s' \<Longrightarrow> room_for s u \<Longrightarrow> room_for s' u"
  by (fastforce simp: kept_def room_for_def word_le_nat_alt)

lemma kept_task: "kept s s' \<Longrightarrow> task_at u s' = Inr k' \<Longrightarrow> \<exists>k. task_at u s = Inr k \<and> refs_only k k'"
  unfolding kept_def by blast

lemma drop_ref_inv:
  assumes inv: "sinv th (t # X) J s" and k: "task_at t s = Inr k"
  defines "k1 \<equiv> k\<lparr>tk_state := (tk_state k)\<lparr>ts_refcount := ts_refcount (tk_state k) - 1\<rparr>\<rparr>"
  shows "update_state t drop_ref s = Inr (if nrefs X J s t = 0 then Drop_Task else Keep_Task, put_task t k1 s)"
    and "0 < nrefs X J s t \<Longrightarrow> sinv th X J (put_task t k1 s)"
    and "kept s (put_task t k1 s)"
proof -
  note K = sinv_task [OF inv k]
  have n: "unat (ts_refcount (tk_state k)) = nrefs X J s t + 1" using K(1) by simp
  have "\<not> contains JOIN_HANDLE (tk_state k)" if "nrefs X J s t = 0"
    using K(4) that by (auto simp: task_ok_def Let_def nrefs_def count_list_0_iff)
  then show "update_state t drop_ref s = Inr (if nrefs X J s t = 0 then Drop_Task else Keep_Task, put_task t k1 s)"
    using n by (auto simp: update_state_def k drop_ref_Inr k1_def)
  have ro: "refs_only k k1" by (auto simp: refs_only_def k1_def)
  have u: "unat (ts_refcount (tk_state k1)) = nrefs X J s t"
    using n unat_refcount_pred [of "ts_refcount (tk_state k)"] by (simp add: k1_def)
  then show "sinv th X J (put_task t k1 s)" if "0 < nrefs X J s t"
    using that K(4) by (intro sinv_put [OF inv k]) (simp_all add: task_ok_refs_only [OF ro] refs_only_simps [OF ro])
  show "kept s (put_task t k1 s)"
    using u n ro by (auto simp: kept_def task_at_put [OF k] word_le_nat_alt k)
qed

lemma kept_dealloc: "kept s (s\<lparr>heap := (heap s)[t := None]\<rparr>)"
proof -
  have "task_at u s = Inr k" if "task_at u (s\<lparr>heap := (heap s)[t := None]\<rparr>) = Inr k" for u k
    using that by (cases "u = t") (auto simp: task_at_Inr)
  then show ?thesis by (auto simp: kept_def)
qed

lemma release_ok:
  "sinv th (t # X) J s \<Longrightarrow>
   \<exists>s'. release th t s = Inr s' \<and> sinv th X J s' \<and> same_rest s s' \<and> kept s s'"
proof (induction "live_count s" arbitrary: t X s rule: less_induct)
  case less
  note inv = less.prems
  obtain k where k: "task_at t s = Inr k" using sinv_live [OF inv, of t] by auto
  define k1 where "k1 = k\<lparr>tk_state := (tk_state k)\<lparr>ts_refcount := ts_refcount (tk_state k) - 1\<rparr>\<rparr>"
  note D = drop_ref_inv [OF inv k, folded k1_def]
  show ?case
  proof (cases "nrefs X J s t = 0")
    case False
    then show ?thesis using D by (simp add: release.simps [of th t s])
  next
    case True
    let ?s = "s\<lparr>heap := (heap s)[t := None]\<rparr>"
    have free: "dealloc t (put_task t k1 s) = Inr (tk_waker k, ?s)"
      by (simp add: dealloc_def task_at_put [OF k] k1_def) (simp add: put_task_def)
    have step: "release th t s = (case tk_waker k of
        Some (Task_Waker u) \<Rightarrow> and_then (check_caller th u ?s) (\<lambda>_. release th u ?s) | _ \<Rightarrow> Inr ?s)"
      using D(1) free True by (simp add: release.simps [of th t s] del: and_then_eq_Inr)
    have inv': "sinv th (header_refs (Some k) @ X) J ?s" by (rule free_inv [OF inv k True])
    have rest: "same_rest s ?s" by (simp add: same_rest_def)
    show ?thesis
    proof (cases "\<exists>u. tk_waker k = Some (Task_Waker u)")
      case False
      then have "release th t s = Inr ?s" "sinv th X J ?s"
        using step inv' by (auto simp: header_refs_def split: option.splits waker.splits)
      then show ?thesis using rest kept_dealloc by blast
    next
      case True
      then obtain u where u: "tk_waker k = Some (Task_Waker u)" by blast
      then have inv_u: "sinv th (u # X) J ?s" using inv' by (simp add: header_refs_def)
      then obtain ku where "task_at u ?s = Inr ku" using sinv_live [OF inv_u, of u] by auto
      then have "release th t s = release th u ?s"
        using step u check_caller_ok [OF inv_u] by (simp del: and_then_eq_Inr)
      moreover have "live_count ?s < live_count s"
        using live_count_dealloc [OF free] live_count_put [OF k] by simp
      ultimately show ?thesis
        using less.hyps [OF _ inv_u] same_rest_trans [OF rest] kept_trans [OF kept_dealloc] by auto
    qed
  qed
qed

lemma waker_drop_ok:
  assumes "sinv th (t # X) J s"
  shows "\<exists>s'. waker_drop th t s = Inr s' \<and> sinv th X J s' \<and> same_rest s s' \<and> kept s s'"
proof -
  obtain k where "task_at t s = Inr k" using sinv_live [OF assms, of t] by auto
  then show ?thesis
    using release_ok [OF assms] check_caller_ok [OF assms] by (simp add: waker_drop_def)
qed

lemma waker_clone_ok:
  assumes inv: "sinv th X J s" and live: "0 < nrefs X J s t" and rm: "room_for s t"
  shows "\<exists>k s'. task_at t s = Inr k \<and> waker_clone th t s = Inr s' \<and> sinv th (t # X) J s' \<and> same_rest s s' \<and>
    s' = put_task t (k\<lparr>tk_state := (tk_state k)\<lparr>ts_refcount := ts_refcount (tk_state k) + 1\<rparr>\<rparr>) s"
  using clone_handle_ok [OF assms] check_caller_ok [OF inv] by (fastforce simp: waker_clone_def)

end
