(* ===== verification/Task_Ops.thy ===== *)
theory Task_Ops
  imports Task_Inv
begin

text \<open>
  The operations of the task system one by one: under the invariant none of them fails, and each
  keeps it, moving handles between the places that hold them.
\<close>

section \<open>Single steps on one task\<close>

definition dec :: "task \<Rightarrow> task" where
  "dec k = k\<lparr>tk_state := (tk_state k)\<lparr>ts_refcount := ts_refcount (tk_state k) - 1\<rparr>\<rparr>"

definition inc :: "task \<Rightarrow> task" where
  "inc k = k\<lparr>tk_state := (tk_state k)\<lparr>ts_refcount := ts_refcount (tk_state k) + 1\<rparr>\<rparr>"

lemma dec_inc_simps [simp]:
  "tk_waker (dec k) = tk_waker k" "tk_thread (dec k) = tk_thread k" "tk_cell (dec k) = tk_cell k"
  "tk_borrowed (dec k) = tk_borrowed k" "contains f (tk_state (dec k)) = contains f (tk_state k)"
  "tk_waker (inc k) = tk_waker k" "tk_thread (inc k) = tk_thread k" "tk_cell (inc k) = tk_cell k"
  "tk_borrowed (inc k) = tk_borrowed k" "contains f (tk_state (inc k)) = contains f (tk_state k)"
  by (simp_all add: dec_def inc_def)

lemma unat_dec: "0 < unat (ts_refcount (tk_state k)) \<Longrightarrow>
    unat (ts_refcount (tk_state (dec k))) = unat (ts_refcount (tk_state k)) - 1"
  by (simp add: dec_def unat_refcount_pred)

lemma unat_inc: "unat (ts_refcount (tk_state k)) + 1 < 2 ^ 32 \<Longrightarrow>
    unat (ts_refcount (tk_state (inc k))) = unat (ts_refcount (tk_state k)) + 1"
  by (simp add: inc_def unat_refcount_Suc)

lemma release_keep:
  assumes k: "task_at t s = Inr k" and "1 < unat (ts_refcount (tk_state k))"
  shows "release th t s = Inr (put_task t (dec k) s)"
proof -
  have "update_state t drop_ref s = Inr (Keep_Task, put_task t (dec k) s)"
    using assms by (auto simp: update_state_def k drop_ref_Inr dec_def)
  then show ?thesis by (simp add: release.simps [of th t s] del: and_then_eq_Inr)
qed

lemma waker_drop_keep:
  assumes k: "task_at t s = Inr k" and "tk_thread k = th" and "1 < unat (ts_refcount (tk_state k))"
  shows "waker_drop th t s = Inr (put_task t (dec k) s)"
  using release_keep [OF k assms(3)] assms(2) by (simp add: waker_drop_def check_caller_def k)

lemma clone_handle_eq:
  assumes k: "task_at t s = Inr k" and "0 < unat (ts_refcount (tk_state k))"
    and "unat (ts_refcount (tk_state k)) + 1 < 2 ^ 32"
  shows "clone_handle t s = Inr (put_task t (inc k) s)"
  using assms by (simp add: clone_handle_def update_state_def k clone_ref_Inr inc_def)

lemma cell_unborrow_eq:
  "task_at t s = Inr k \<Longrightarrow> cell_unborrow t s = Inr (put_task t (k\<lparr>tk_borrowed := False\<rparr>) s)"
  by (simp add: cell_unborrow_def)

lemma cell_cancel_eq:
  "task_at t s = Inr k \<Longrightarrow> \<not> tk_borrowed k \<Longrightarrow> cell_cancel t s =
     Inr (put_task t (k\<lparr>tk_borrowed := True, tk_cell := Result (Inl Task_Cancelled)\<rparr>) s)"
  by (simp add: cell_cancel_def cell_borrow_def cell_fill_def task_at_put)

lemma cell_destroy_eq:
  "task_at t s = Inr k \<Longrightarrow> \<not> tk_borrowed k \<Longrightarrow> cell_destroy t s =
     Inr (put_task t (k\<lparr>tk_borrowed := True, tk_cell := Cell_Empty\<rparr>) s)"
  by (simp add: cell_destroy_def cell_borrow_def cell_fill_def task_at_put)

lemma cell_poll_eq:
  "task_at t s = Inr k \<Longrightarrow> \<not> tk_borrowed k \<Longrightarrow> tk_cell k = Fut \<Longrightarrow> cell_poll t s =
     Inr (put_task t (k\<lparr>tk_borrowed := True\<rparr>) s)"
  by (simp add: cell_poll_def cell_borrow_def task_at_put)

lemma task_at_frame [simp]:
  "task_at t (s\<lparr>stack := x\<rparr>) = task_at t s" "task_at t (s\<lparr>runq := q\<rparr>) = task_at t s"
  "task_at t (s\<lparr>tset := q\<rparr>) = task_at t s" "task_at t (s\<lparr>tset_size := n\<rparr>) = task_at t s"
  "task_at t (s\<lparr>tset_borrowed := b\<rparr>) = task_at t s" "task_at t (s\<lparr>tset_closed := b\<rparr>) = task_at t s"
  "task_at t (s\<lparr>ext_woken := e\<rparr>) = task_at t s"
  "task_at t (push_frame f s) = task_at t s" "task_at t (schedule u s) = task_at t s"
  by (simp_all add: task_at_def push_frame_def schedule_def)

section \<open>Waking\<close>

text \<open>What waking changes of a task: the notified flag may be set, and the count.\<close>

definition woke_task :: "task \<Rightarrow> task \<Rightarrow> bool" where
  "woke_task k k' \<longleftrightarrow> tk_cell k' = tk_cell k \<and> tk_borrowed k' = tk_borrowed k \<and> tk_thread k' = tk_thread k \<and>
     (\<forall>f \<in> {RUNNING, COMPLETE, JOIN_HANDLE, CANCELLED}. contains f (tk_state k') = contains f (tk_state k)) \<and>
     (contains NOTIFIED (tk_state k) \<longrightarrow> contains NOTIFIED (tk_state k'))"

definition woke :: "tsys \<Rightarrow> tsys \<Rightarrow> bool" where
  "woke s s' \<longleftrightarrow> tset s' = tset s \<and> tset_closed s' = tset_closed s \<and> tset_size s' = tset_size s \<and>
     tset_borrowed s' = tset_borrowed s \<and> stack s' = stack s \<and> length (heap s') = length (heap s) \<and>
     (\<forall>u k'. task_at u s' = Inr k' \<longrightarrow> (\<exists>k. task_at u s = Inr k \<and> woke_task k k'))"

lemma woke_refl [simp]: "woke s s"
  by (auto simp: woke_def woke_task_def)

lemma woke_task_trans: "woke_task a b \<Longrightarrow> woke_task b c \<Longrightarrow> woke_task a c"
  by (auto simp: woke_task_def)

lemma woke_tasks: "woke s s' \<Longrightarrow> task_at u s' = Inr k' \<Longrightarrow> \<exists>k. task_at u s = Inr k \<and> woke_task k k'"
  unfolding woke_def by blast

lemma woke_rest:
  assumes "woke s s'"
  shows "tset s' = tset s" "tset_closed s' = tset_closed s" "tset_size s' = tset_size s"
    "tset_borrowed s' = tset_borrowed s" "stack s' = stack s" "length (heap s') = length (heap s)"
  using assms unfolding woke_def by blast+

lemma woke_trans:
  assumes "woke a b" and "woke b c"
  shows "woke a c"
proof -
  have "\<exists>k. task_at u a = Inr k \<and> woke_task k k'" if "task_at u c = Inr k'" for u k'
    using woke_tasks [OF assms(2) that] woke_tasks [OF assms(1)] woke_task_trans by blast
  then show ?thesis
    unfolding woke_def by (simp add: woke_rest [OF assms(1)] woke_rest [OF assms(2)])
qed

lemma kept_woke: "kept s s' \<Longrightarrow> same_rest s s' \<Longrightarrow> woke s s'"
  by (fastforce simp: kept_def same_rest_def woke_def woke_task_def refs_only_simps)

text \<open>Putting a task in the run queue, with a reference of its own.\<close>

lemma submit_ok:
  assumes inv: "sinv th X J s" and k: "task_at t s = Inr k" and rm: "room_for s t"
    and idle: "\<not> contains NOTIFIED (tk_state k)" "\<not> contains RUNNING (tk_state k)" "\<not> contains COMPLETE (tk_state k)"
    and st: "contains NOTIFIED st" "\<not> contains RUNNING st" "\<not> contains COMPLETE st"
      "contains JOIN_HANDLE st = contains JOIN_HANDLE (tk_state k)" "ts_refcount st = ts_refcount (tk_state k)"
  defines "k1 \<equiv> k\<lparr>tk_state := st\<rparr>"
  shows "clone_handle t (put_task t k1 s) = Inr (put_task t (inc k1) s)"
    and "sinv th X J (schedule t (put_task t (inc k1) s))"
proof -
  note K = sinv_task [OF inv k]
  have r: "unat (ts_refcount (tk_state k1)) + 1 < 2 ^ 32" using rm k st(5) by (simp add: room_for_def k1_def)
  have pos: "0 < unat (ts_refcount (tk_state k1))" using K(1,2) st(5) by (simp add: k1_def)
  show "clone_handle t (put_task t k1 s) = Inr (put_task t (inc k1) s)"
    using clone_handle_eq [of t "put_task t k1 s" k1] r pos by (simp add: task_at_put [OF k])
  have q0: "count_list (runq s) t = 0"
    using K(4) idle(1) by (auto simp: task_ok_def Let_def le_Suc_eq)
  let ?s = "schedule t (put_task t (inc k1) s)"
  have n: "nrefs X J ?s u = nrefs X J s u + (if u = t then 1 else 0)" for u
    using nrefs_put [OF k, of "inc k1" X J u]
    by (cases "u = t") (simp_all add: k1_def schedule_def nrefs_def sys_refs_def count_list_append)
  have "task_ok (inc k1) 1 (count_list (tset s) t) (t \<in> set J) (frames_of t s)"
    using K(4) idle st q0 by (auto simp: task_ok_def Let_def k1_def)
  then show "sinv th X J ?s"
    using K(1,3) n unat_inc [OF r] st(5) sinv_globals [OF inv] q0
    by (intro sinv_change [OF inv, of t _ _ _ "inc k1"])
      (auto simp: schedule_def task_at_put [OF k] frames_of_def count_list_append k1_def)
qed

lemma notify_ok:
  assumes inv: "sinv th X J s" and k: "task_at t s = Inr k"
  shows "(\<exists>st. update_state t notify s = Inr (Notify_Nothing, put_task t (k\<lparr>tk_state := st\<rparr>) s) \<and>
      sinv th X J (put_task t (k\<lparr>tk_state := st\<rparr>) s) \<and> woke_task k (k\<lparr>tk_state := st\<rparr>) \<and>
      (contains NOTIFIED st \<or> contains COMPLETE st)) \<or>
    (\<exists>st. update_state t notify s = Inr (Notify_Submit, put_task t (k\<lparr>tk_state := st\<rparr>) s) \<and>
      \<not> contains NOTIFIED (tk_state k) \<and> \<not> contains RUNNING (tk_state k) \<and> \<not> contains COMPLETE (tk_state k) \<and>
      contains NOTIFIED st \<and> \<not> contains RUNNING st \<and> \<not> contains COMPLETE st \<and>
      contains JOIN_HANDLE st = contains JOIN_HANDLE (tk_state k) \<and> ts_refcount st = ts_refcount (tk_state k) \<and>
      woke_task k (k\<lparr>tk_state := st\<rparr>))"
proof -
  note K = sinv_task [OF inv k]
  let ?st = "tk_state k" and ?st' = "insert_flag NOTIFIED (tk_state k)"
  have pos: "0 < ts_refcount ?st" using K(1,2) by (simp add: refcount_pos)
  consider (a) "contains COMPLETE ?st \<or> contains NOTIFIED ?st"
    | (b) "\<not> contains COMPLETE ?st" "\<not> contains NOTIFIED ?st" "contains RUNNING ?st"
    | (c) "\<not> contains COMPLETE ?st" "\<not> contains NOTIFIED ?st" "\<not> contains RUNNING ?st" by blast
  then show ?thesis
  proof cases
    case a
    have "update_state t notify s = Inr (Notify_Nothing, put_task t (k\<lparr>tk_state := ?st\<rparr>) s)"
      using a pos by (auto simp: update_state_def k notify_def)
    moreover have "sinv th X J (put_task t (k\<lparr>tk_state := ?st\<rparr>) s)"
      using K by (intro sinv_put [OF inv k]) simp_all
    ultimately show ?thesis
      using a by (intro disjI1 exI [of _ ?st]) (auto simp: woke_task_def)
  next
    case b
    have "update_state t notify s = Inr (Notify_Nothing, put_task t (k\<lparr>tk_state := ?st'\<rparr>) s)"
      using b pos by (auto simp: update_state_def k notify_def)
    moreover have "task_ok (k\<lparr>tk_state := ?st'\<rparr>) (count_list (runq s) t) (count_list (tset s) t) (t \<in> set J) (frames_of t s)"
      using K(4) b by (auto simp: task_ok_def Let_def)
    then have "sinv th X J (put_task t (k\<lparr>tk_state := ?st'\<rparr>) s)"
      using K by (intro sinv_put [OF inv k]) simp_all
    ultimately show ?thesis
      by (intro disjI1 exI [of _ ?st']) (auto simp: woke_task_def)
  next
    case c
    have "update_state t notify s = Inr (Notify_Submit, put_task t (k\<lparr>tk_state := ?st'\<rparr>) s)"
      using c pos by (auto simp: update_state_def k notify_def)
    then show ?thesis using c by (intro disjI2 exI [of _ ?st']) (auto simp: woke_task_def)
  qed
qed

lemma woke_put:
  "task_at t s = Inr k \<Longrightarrow> woke_task k k' \<Longrightarrow> woke s (put_task t k' s)"
  by (auto simp: woke_def task_at_put) (auto simp: woke_task_def)

lemma woke_schedule: "woke s s' \<Longrightarrow> woke s (schedule t s')"
  by (simp add: woke_def) (simp add: schedule_def)

text \<open>A woken task is notified, unless it is complete.\<close>

lemma waker_wake_ref_ok:
  assumes inv: "sinv th X J s" and live: "0 < nrefs X J s t" and rm: "room_for s t"
  shows "\<exists>s' k'. waker_wake_ref th t s = Inr s' \<and> sinv th X J s' \<and> woke s s' \<and> task_at t s' = Inr k' \<and>
    (contains NOTIFIED (tk_state k') \<or> contains COMPLETE (tk_state k'))"
proof -
  obtain k where k: "task_at t s = Inr k" using sinv_live [OF inv live] by blast
  note cc = check_caller_ok [OF inv k]
  consider (quiet) st where "update_state t notify s = Inr (Notify_Nothing, put_task t (k\<lparr>tk_state := st\<rparr>) s)"
      "sinv th X J (put_task t (k\<lparr>tk_state := st\<rparr>) s)" "woke_task k (k\<lparr>tk_state := st\<rparr>)"
      "contains NOTIFIED st \<or> contains COMPLETE st"
    | (submit) st where "update_state t notify s = Inr (Notify_Submit, put_task t (k\<lparr>tk_state := st\<rparr>) s)"
      "\<not> contains NOTIFIED (tk_state k)" "\<not> contains RUNNING (tk_state k)" "\<not> contains COMPLETE (tk_state k)"
      "contains NOTIFIED st" "\<not> contains RUNNING st" "\<not> contains COMPLETE st"
      "contains JOIN_HANDLE st = contains JOIN_HANDLE (tk_state k)" "ts_refcount st = ts_refcount (tk_state k)"
      "woke_task k (k\<lparr>tk_state := st\<rparr>)"
    using notify_ok [OF inv k] by metis
  then show ?thesis
  proof cases
    case quiet
    then show ?thesis
      using woke_put [OF k quiet(3)] cc
      by (intro exI [of _ "put_task t (k\<lparr>tk_state := st\<rparr>) s"] exI [of _ "k\<lparr>tk_state := st\<rparr>"])
        (simp add: waker_wake_ref_def task_at_put [OF k])
  next
    case submit
    let ?k = "inc (k\<lparr>tk_state := st\<rparr>)"
    note S = submit_ok [OF inv k rm submit(2-9)]
    have "woke_task k ?k" using submit(10) by (simp add: woke_task_def)
    then show ?thesis
      using S cc submit(1,5) woke_schedule [OF woke_put [OF k]]
      by (intro exI [of _ "schedule t (put_task t ?k s)"] exI [of _ ?k])
        (simp add: waker_wake_ref_def task_at_put [OF k])
  qed
qed

lemma wake_val_ref:
  "waker_wake_val th t s = and_then (waker_wake_ref th t s) (waker_drop th t)"
  by (auto simp: waker_wake_val_def waker_wake_ref_def and_then_def split: sum.splits notify_result.splits)

lemma waker_wake_val_ok:
  assumes inv: "sinv th (t # X) J s" and rm: "room_for s t"
  shows "\<exists>s'. waker_wake_val th t s = Inr s' \<and> sinv th X J s' \<and> woke s s' \<and>
    (\<forall>k'. task_at t s' = Inr k' \<longrightarrow> contains NOTIFIED (tk_state k') \<or> contains COMPLETE (tk_state k'))"
proof -
  obtain s1 k1 where s1: "waker_wake_ref th t s = Inr s1" "sinv th (t # X) J s1" "woke s s1" "task_at t s1 = Inr k1"
    "contains NOTIFIED (tk_state k1) \<or> contains COMPLETE (tk_state k1)"
    using waker_wake_ref_ok [OF inv _ rm] by auto
  obtain s2 where s2: "waker_drop th t s1 = Inr s2" "sinv th X J s2" "same_rest s1 s2" "kept s1 s2"
    using waker_drop_ok [OF s1(2)] by blast
  have "contains NOTIFIED (tk_state k') \<or> contains COMPLETE (tk_state k')" if "task_at t s2 = Inr k'" for k'
    using kept_task [OF s2(4) that] s1(4,5) by (auto simp: refs_only_simps)
  then show ?thesis
    using s1 s2 woke_trans [OF s1(3) kept_woke [OF s2(4,3)]] by (simp add: wake_val_ref)
qed

end
