(* ===== verification/Task_Join.thy ===== *)
theory Task_Join
  imports Task_Ops
begin

text \<open>
  The wakers in the headers, the join handle and the removal of a complete task from the task set.
\<close>

section \<open>The invariant of all tasks but one\<close>

definition sinv_but :: "nat \<Rightarrow> nat list \<Rightarrow> nat list \<Rightarrow> nat \<Rightarrow> tsys \<Rightarrow> bool" where
  "sinv_but th X J t s \<longleftrightarrow>
     (\<forall>u. u \<noteq> t \<longrightarrow> (case task_at u s of
        Inl _ \<Rightarrow> nrefs X J s u = 0
      | Inr k \<Rightarrow> unat (ts_refcount (tk_state k)) = nrefs X J s u \<and> 0 < nrefs X J s u \<and> tk_thread k = th \<and>
          task_ok k (count_list (runq s) u) (count_list (tset s) u) (u \<in> set J) (frames_of u s))) \<and>
     distinct J \<and> unat (tset_size s) = length (tset s) + shut_count (stack s)"

lemma sinv_butI: "sinv th X J s \<Longrightarrow> sinv_but th X J t s"
  by (simp add: sinv_def sinv_but_def)

lemma sinv_but_close:
  assumes but: "sinv_but th X J t s" and here: "task_at t s = Inr k"
    "unat (ts_refcount (tk_state k)) = nrefs X J s t" "0 < nrefs X J s t" "tk_thread k = th"
    "task_ok k (count_list (runq s) t) (count_list (tset s) t) (t \<in> set J) (frames_of t s)"
  shows "sinv th X J s"
  unfolding sinv_def
proof (intro conjI allI)
  fix u
  show "case task_at u s of Inl _ \<Rightarrow> nrefs X J s u = 0
      | Inr k \<Rightarrow> unat (ts_refcount (tk_state k)) = nrefs X J s u \<and> 0 < nrefs X J s u \<and> tk_thread k = th \<and>
          task_ok k (count_list (runq s) u) (count_list (tset s) u) (u \<in> set J) (frames_of u s)"
    using but here unfolding sinv_but_def by (cases "u = t") simp_all
qed (use but in \<open>auto simp: sinv_but_def\<close>)

lemma sinv_but_step:
  assumes but: "sinv_but th X J t s"
    and others: "\<And>u. u \<noteq> t \<Longrightarrow> task_at u s' = task_at u s \<and> nrefs X' J' s' u = nrefs X J s u \<and>
      count_list (runq s') u = count_list (runq s) u \<and> count_list (tset s') u = count_list (tset s) u \<and>
      (u \<in> set J' \<longleftrightarrow> u \<in> set J) \<and> frames_of u s' = frames_of u s"
    and "distinct J'" and "unat (tset_size s') = length (tset s') + shut_count (stack s')"
  shows "sinv_but th X' J' t s'"
  unfolding sinv_but_def
proof (intro conjI allI impI)
  fix u assume u: "u \<noteq> t"
  have "case task_at u s of Inl _ \<Rightarrow> nrefs X J s u = 0
      | Inr k \<Rightarrow> unat (ts_refcount (tk_state k)) = nrefs X J s u \<and> 0 < nrefs X J s u \<and> tk_thread k = th \<and>
          task_ok k (count_list (runq s) u) (count_list (tset s) u) (u \<in> set J) (frames_of u s)"
    using but u unfolding sinv_but_def by blast
  then show "case task_at u s' of Inl _ \<Rightarrow> nrefs X' J' s' u = 0
      | Inr k \<Rightarrow> unat (ts_refcount (tk_state k)) = nrefs X' J' s' u \<and> 0 < nrefs X' J' s' u \<and> tk_thread k = th \<and>
          task_ok k (count_list (runq s') u) (count_list (tset s') u) (u \<in> set J') (frames_of u s')"
    by (simp only: others [OF u])
qed (use assms(3,4) in auto)

lemma sinv_but_globals: "sinv_but th X J t s \<Longrightarrow> distinct J \<and> unat (tset_size s) = length (tset s) + shut_count (stack s)"
  by (simp add: sinv_but_def)

text \<open>Steps that concern the one task only.\<close>

lemma sinv_but_put:
  assumes "sinv_but th X J t s" and k: "task_at t s = Inr k" and "tk_waker k' = tk_waker k"
  shows "sinv_but th X J t (put_task t k' s)"
  using sinv_but_globals [OF assms(1)]
  by (intro sinv_but_step [OF assms(1)]) (simp_all add: task_at_put [OF k] nrefs_put [OF k assms(3)])

lemma sinv_but_X:
  assumes "sinv_but th X J t s" and "\<And>u. u \<noteq> t \<Longrightarrow> count_list X' u = count_list X u"
  shows "sinv_but th X' J t s"
  using sinv_but_globals [OF assms(1)] assms(2)
  by (intro sinv_but_step [OF assms(1)]) (simp_all add: nrefs_def)

lemma frame_refs_count: "u \<noteq> frame_task f \<Longrightarrow> count_list (frame_refs f) u = 0"
  by (cases f) auto

lemma nrefs_push [simp]: "nrefs X J (push_frame f s) u = nrefs X J s u + count_list (frame_refs f) u"
  by (simp add: nrefs_def sys_refs_def push_frame_def count_list_append)

lemma push_frame_simps [simp]:
  "runq (push_frame f s) = runq s" "tset (push_frame f s) = tset s" "stack (push_frame f s) = f # stack s"
  "tset_size (push_frame f s) = tset_size s" "tset_borrowed (push_frame f s) = tset_borrowed s"
  "tset_closed (push_frame f s) = tset_closed s" "ext_woken (push_frame f s) = ext_woken s"
  "heap (push_frame f s) = heap s"
  "frames_of u (push_frame f s) = (if frame_task f = u then f # frames_of u s else frames_of u s)"
  by (simp_all add: push_frame_def frames_of_def)

lemma schedule_simps [simp]:
  "runq (schedule t s) = runq s @ [t]" "tset (schedule t s) = tset s" "stack (schedule t s) = stack s"
  "tset_size (schedule t s) = tset_size s" "tset_borrowed (schedule t s) = tset_borrowed s"
  "tset_closed (schedule t s) = tset_closed s" "heap (schedule t s) = heap s"
  "frames_of u (schedule t s) = frames_of u s"
  by (simp_all add: schedule_def frames_of_def)

lemma nrefs_schedule [simp]: "nrefs X J (schedule t s) u = nrefs X J s u + (if u = t then 1 else 0)"
  by (simp add: nrefs_def sys_refs_def schedule_def count_list_append)

lemma sinv_but_push:
  assumes "sinv_but th X J t s" and "frame_task f = t" and "\<And>u. f \<noteq> Shutting u"
  shows "sinv_but th X J t (push_frame f s)"
  using sinv_but_globals [OF assms(1)] assms(2,3)
  by (intro sinv_but_step [OF assms(1)]) (auto simp: frame_refs_count split: frame.splits)

lemma sinv_but_schedule:
  assumes "sinv_but th X J t s"
  shows "sinv_but th X J t (schedule t s)"
  using sinv_but_globals [OF assms(1)]
  by (intro sinv_but_step [OF assms(1)]) (simp_all add: count_list_append)

text \<open>The end of the user code at the top of the stack.\<close>

lemma nrefs_pop:
  assumes "stack s = f # st"
  shows "nrefs X J s u = nrefs X J (s\<lparr>stack := st\<rparr>) u + count_list (frame_refs f) u"
  using assms by (simp add: nrefs_def sys_refs_def count_list_append)

lemma frames_of_pop:
  assumes "stack s = f # st"
  shows "frames_of u s = (if frame_task f = u then f # frames_of u (s\<lparr>stack := st\<rparr>) else frames_of u (s\<lparr>stack := st\<rparr>))"
  using assms by (simp add: frames_of_def)

lemma sinv_but_pop:
  assumes "sinv_but th X J t s" and "stack s = f # st" and "frame_task f = t" and "\<And>u. f \<noteq> Shutting u"
  shows "sinv_but th X J t (s\<lparr>stack := st\<rparr>)"
proof -
  have "unat (tset_size s) = length (tset s) + shut_count st"
    using sinv_but_globals [OF assms(1)] assms(2,4) by (auto split: frame.splits)
  then show ?thesis
    using sinv_but_globals [OF assms(1)] assms(3)
    by (intro sinv_but_step [OF assms(1)])
      (simp_all add: nrefs_pop [OF assms(2)] frames_of_pop [OF assms(2)] frame_refs_count)
qed

section \<open>Wakers in the headers\<close>

definition waker_refs :: "waker \<Rightarrow> nat list" where
  "waker_refs w = (case w of Task_Waker u \<Rightarrow> [u] | Ext_Waker _ \<Rightarrow> [])"

lemma header_refs_Some: "header_refs (Some k) = (case tk_waker k of None \<Rightarrow> [] | Some w \<Rightarrow> waker_refs w)"
  by (simp add: header_refs_def waker_refs_def split: option.splits waker.splits)

lemma sinv_header:
  assumes inv: "sinv th X J s" and k: "task_at t s = Inr k"
    and bal: "\<And>u. count_list X' u + count_list (header_refs (Some (k\<lparr>tk_waker := w'\<rparr>))) u
      = count_list X u + count_list (header_refs (Some k)) u"
  shows "sinv th X' J (put_task t (k\<lparr>tk_waker := w'\<rparr>) s)"
proof -
  let ?k = "k\<lparr>tk_waker := w'\<rparr>"
  have n: "nrefs X' J (put_task t ?k s) u = nrefs X J s u" for u
    using nrefs_heap_update [OF k, of X' J "Some ?k" u] bal [of u] by (simp add: put_task_def nrefs_def)
  have "task_ok ?k q b j fs = task_ok k q b j fs" for q b j fs by (simp add: task_ok_def)
  then show ?thesis
    using sinv_task [OF inv k] sinv_globals [OF inv] n
    by (intro sinv_change [OF inv, of t _ _ _ ?k]) (simp_all add: task_at_put [OF k])
qed

lemma sinv_ext [simp]: "sinv th X J (s\<lparr>ext_woken := e\<rparr>) \<longleftrightarrow> sinv th X J s"
  by (simp add: sinv_def nrefs_def sys_refs_def frames_of_def cong: sum.case_cong)

text \<open>What a waker that was woken has done: its task is notified or complete, or its call is logged.\<close>

definition waker_woken :: "waker \<Rightarrow> tsys \<Rightarrow> bool" where
  "waker_woken w s \<longleftrightarrow> (case w of
     Task_Waker u \<Rightarrow> \<forall>k. task_at u s = Inr k \<longrightarrow> contains NOTIFIED (tk_state k) \<or> contains COMPLETE (tk_state k)
   | Ext_Waker n \<Rightarrow> n \<in> set (ext_woken s))"

lemma waker_woken_kept:
  assumes "waker_woken w s" and "kept s s'" and "ext_woken s' = ext_woken s"
  shows "waker_woken w s'"
proof (cases w)
  case (Ext_Waker n)
  then show ?thesis using assms by (simp add: waker_woken_def)
next
  case (Task_Waker u)
  have "contains NOTIFIED (tk_state k') \<or> contains COMPLETE (tk_state k')" if "task_at u s' = Inr k'" for k'
    using kept_task [OF assms(2) that] assms(1) Task_Waker by (auto simp: waker_woken_def refs_only_simps)
  then show ?thesis using Task_Waker by (simp add: waker_woken_def)
qed

lemma any_waker_wake_ok:
  assumes "sinv th (waker_refs w @ X) J s" and "\<And>u. room_for s u"
  shows "\<exists>s'. any_waker_wake th w s = Inr s' \<and> sinv th X J s' \<and> woke s s' \<and> waker_woken w s'"
proof (cases w)
  case (Task_Waker u)
  then show ?thesis
    using waker_wake_val_ok [of th u X J s] assms by (auto simp: any_waker_wake_def waker_refs_def waker_woken_def)
next
  case (Ext_Waker n)
  then show ?thesis
    using assms by (auto simp: any_waker_wake_def waker_refs_def woke_def woke_task_def waker_woken_def)
qed

lemma room_put_waker:
  "task_at t s = Inr k \<Longrightarrow> tk_state k' = tk_state k \<Longrightarrow> room_for (put_task t k' s) u = room_for s u"
  by (auto simp: room_for_def task_at_put)

lemma notify_join_handle_ok:
  assumes inv: "sinv th X J s" and k: "task_at t s = Inr k" and rm: "\<And>u. room_for s u"
  shows "\<exists>s'. notify_join_handle th t s = Inr s' \<and> sinv th X J s' \<and> woke s s' \<and>
    (\<forall>w. tk_waker k = Some w \<longrightarrow> waker_woken w s')"
proof (cases "tk_waker k")
  case None
  then show ?thesis using inv by (simp add: notify_join_handle_def k)
next
  case (Some w)
  let ?s = "put_task t (k\<lparr>tk_waker := None\<rparr>) s"
  have "sinv th (waker_refs w @ X) J ?s"
    by (rule sinv_header [OF inv k]) (simp add: header_refs_Some Some count_list_append)
  moreover have "room_for ?s u" for u using rm by (simp add: room_put_waker [OF k])
  ultimately obtain s' where s': "any_waker_wake th w ?s = Inr s'" "sinv th X J s'" "woke ?s s'" "waker_woken w s'"
    using any_waker_wake_ok by blast
  have "woke s ?s" by (rule woke_put [OF k]) (simp add: woke_task_def)
  then show ?thesis
    using s' woke_trans by (auto simp: notify_join_handle_def k Some)
qed

section \<open>The join handle\<close>

lemma any_waker_clone_ok:
  assumes "sinv th X J s" and "\<And>u. u \<in> set (waker_refs w) \<Longrightarrow> 0 < nrefs X J s u \<and> room_for s u"
  shows "\<exists>s'. any_waker_clone th w s = Inr s' \<and> sinv th (waker_refs w @ X) J s' \<and> woke s s' \<and>
    same_rest s s' \<and> (\<forall>t k. task_at t s = Inr k \<longrightarrow> (\<exists>k'. task_at t s' = Inr k' \<and> refs_only k k'))"
proof (cases w)
  case (Ext_Waker n)
  then show ?thesis using assms(1) by (auto simp: any_waker_clone_def waker_refs_def intro: refs_only_refl)
next
  case (Task_Waker u)
  then have u: "0 < nrefs X J s u" "room_for s u" using assms(2) [of u] by (simp_all add: waker_refs_def)
  obtain k s' where s': "task_at u s = Inr k" "waker_clone th u s = Inr s'" "sinv th (u # X) J s'" "same_rest s s'"
    "s' = put_task u (k\<lparr>tk_state := (tk_state k)\<lparr>ts_refcount := ts_refcount (tk_state k) + 1\<rparr>\<rparr>) s"
    using waker_clone_ok [OF assms(1) u] by blast
  let ?k = "k\<lparr>tk_state := (tk_state k)\<lparr>ts_refcount := ts_refcount (tk_state k) + 1\<rparr>\<rparr>"
  have ro: "refs_only k ?k" by (auto simp: refs_only_def)
  then have "woke s s'" using s'(1) unfolding s'(5) by (intro woke_put) (auto simp: woke_task_def refs_only_simps)
  then show ?thesis
    using s'(1-4) ro Task_Waker
    by (auto simp: any_waker_clone_def waker_refs_def s'(5) task_at_put [OF s'(1)])
qed

lemma any_waker_drop_ok:
  assumes "sinv th (waker_refs w @ X) J s"
  shows "\<exists>s'. any_waker_drop th w s = Inr s' \<and> sinv th X J s' \<and> same_rest s s' \<and> kept s s'"
  using waker_drop_ok [of th _ X J s] assms
  by (cases w) (auto simp: any_waker_drop_def waker_refs_def)

lemma set_waker_ok:
  assumes inv: "sinv th X J s" and k: "task_at t s = Inr k"
    and w: "\<And>u. u \<in> set (waker_refs w) \<Longrightarrow> 0 < nrefs X J s u \<and> room_for s u"
  shows "\<exists>s'. set_waker th t w s = Inr s' \<and> sinv th X J s' \<and> woke s s' \<and> runq s' = runq s \<and>
    (\<forall>k'. task_at t s' = Inr k' \<longrightarrow> tk_waker k' = Some w)"
proof (cases "tk_waker k = Some w")
  case True
  then show ?thesis using inv k by (simp add: set_waker_def)
next
  case False
  obtain s1 k1 where s1: "any_waker_clone th w s = Inr s1" "sinv th (waker_refs w @ X) J s1" "woke s s1"
    "same_rest s s1" "task_at t s1 = Inr k1" "refs_only k k1"
    using any_waker_clone_ok [OF inv w] k by metis
  have wk: "tk_waker k1 = tk_waker k" by (rule refs_only_simps [OF s1(6)])
  let ?s2 = "put_task t (k1\<lparr>tk_waker := Some w\<rparr>) s1"
  have "woke s1 ?s2" by (rule woke_put [OF s1(5)]) (simp add: woke_task_def)
  then have woke2: "woke s ?s2" by (rule woke_trans [OF s1(3)])
  show ?thesis
  proof (cases "tk_waker k")
    case None
    then have "sinv th X J ?s2"
      by (intro sinv_header [OF s1(2,5)]) (simp add: header_refs_Some wk count_list_append)
    moreover have "set_waker th t w s = Inr ?s2"
      using None s1(1,5) by (simp add: set_waker_def k)
    ultimately show ?thesis using woke2 s1(4) by (auto simp: same_rest_def task_at_put [OF s1(5)])
  next
    case (Some e)
    then have "sinv th (waker_refs e @ X) J ?s2"
      by (intro sinv_header [OF s1(2,5)]) (simp add: header_refs_Some wk count_list_append)
    then obtain s3 where s3: "any_waker_drop th e ?s2 = Inr s3" "sinv th X J s3" "same_rest ?s2 s3" "kept ?s2 s3"
      using any_waker_drop_ok by blast
    have "set_waker th t w s = Inr s3"
      using Some False s1(1,5) s3(1) by (simp add: set_waker_def k)
    moreover have "tk_waker k' = Some w" if "task_at t s3 = Inr k'" for k'
      using kept_task [OF s3(4) that] by (auto simp: task_at_put [OF s1(5)] refs_only_simps)
    ultimately show ?thesis
      using s3 woke_trans [OF woke2 kept_woke [OF s3(4,3)]] s1(4) by (simp add: same_rest_def)
  qed
qed

lemma join_poll_ok:
  assumes inv: "sinv th X J s" and j: "t \<in> set J" and k: "task_at t s = Inr k"
    and w: "\<And>u. u \<in> set (waker_refs w) \<Longrightarrow> 0 < nrefs X J s u \<and> room_for s u"
    and ready: "contains COMPLETE (tk_state k) \<Longrightarrow> \<not> tk_borrowed k \<and> tk_cell k \<noteq> Cell_Empty"
  shows "\<exists>r s'. join_poll th t w s = Inr (r, s') \<and> sinv th X J s' \<and> runq s' = runq s \<and> tset s' = tset s \<and>
    stack s' = stack s \<and> tset_borrowed s' = tset_borrowed s \<and> tset_closed s' = tset_closed s \<and>
    (if contains COMPLETE (tk_state k) then \<exists>v. tk_cell k = Result v \<and> r = Ready v
     else r = Pending \<and> (\<exists>k'. task_at t s' = Inr k' \<and> tk_waker k' = Some w))"
proof (cases "contains COMPLETE (tk_state k)")
  case False
  obtain s' where s': "set_waker th t w s = Inr s'" "sinv th X J s'" "woke s s'" "runq s' = runq s"
    "\<forall>k'. task_at t s' = Inr k' \<longrightarrow> tk_waker k' = Some w"
    using set_waker_ok [OF inv k w] by blast
  have "0 < nrefs X J s' t" using j by (simp add: nrefs_def) (metis count_list_0_iff neq0_conv)
  then obtain k' where "task_at t s' = Inr k'" "tk_waker k' = Some w" using sinv_live [OF s'(2)] s'(5) by blast
  note reg = this
  have "join_poll th t w s = Inr (Pending, s')"
    using False s'(1) by (simp add: join_poll_def k is_complete_def)
  then show ?thesis using s'(2,4) reg False woke_rest [OF s'(3)] by (intro exI [of _ Pending] exI [of _ s']) simp
next
  case True
  note K = sinv_task [OF inv k]
  obtain v where v: "tk_cell k = Result v"
    using ready True K(4) by (cases "tk_cell k") (auto simp: task_ok_def Let_def)
  have take: "cell_take_output t s = Inr (v, put_task t (k\<lparr>tk_cell := Cell_Empty, tk_borrowed := False\<rparr>) s)"
    using ready True v
    by (simp add: cell_take_output_def cell_borrow_def cell_fill_def cell_unborrow_def k task_at_put)
  have fs: "frames_of t s = []" using K(4) ready True by (auto simp: task_ok_def Let_def)
  have "sinv th X J (put_task t (k\<lparr>tk_cell := Cell_Empty, tk_borrowed := False\<rparr>) s)"
    using K fs True by (intro sinv_put [OF inv k]) (auto simp: task_ok_def Let_def)
  then show ?thesis
    using take True v by (simp add: join_poll_def k is_complete_def)
qed

lemma join_abort_ok:
  assumes inv: "sinv th X J s" and j: "t \<in> set J" and k: "task_at t s = Inr k" and rm: "room_for s t"
  shows "\<exists>s' k'. join_abort t s = Inr s' \<and> sinv th X J s' \<and> tset s' = tset s \<and> stack s' = stack s \<and>
    tset_borrowed s' = tset_borrowed s \<and> tset_closed s' = tset_closed s \<and> task_at t s' = Inr k' \<and>
    (contains COMPLETE (tk_state k') \<or> contains CANCELLED (tk_state k'))"
proof -
  note K = sinv_task [OF inv k]
  let ?st = "tk_state k"
  have pos: "0 < ts_refcount ?st" using K(1,2) by (simp add: refcount_pos)
  have jh: "contains JOIN_HANDLE ?st" using K(4) j by (simp add: task_ok_def Let_def)
  note A = update_state_def k abort_def pos jh
  let ?c = "insert_flag CANCELLED ?st" let ?n = "insert_flag NOTIFIED ?c"
  have same: "put_task t k s = s"
    using k list_update_id [of "heap s" t] by (simp add: put_task_def task_at_Inr)
  consider (over) "contains CANCELLED ?st \<or> contains COMPLETE ?st"
    | (running) "\<not> contains CANCELLED ?st" "\<not> contains COMPLETE ?st" "contains RUNNING ?st"
    | (notified) "\<not> contains CANCELLED ?st" "\<not> contains COMPLETE ?st" "\<not> contains RUNNING ?st" "contains NOTIFIED ?st"
    | (idle) "\<not> contains CANCELLED ?st" "\<not> contains COMPLETE ?st" "\<not> contains RUNNING ?st" "\<not> contains NOTIFIED ?st"
    by blast
  then show ?thesis
  proof cases
    case over
    have "join_abort t s = Inr s"
      using over by (auto simp: join_abort_def A same)
    then show ?thesis using inv k over by auto
  next
    case running
    have "join_abort t s = Inr (put_task t (k\<lparr>tk_state := ?n\<rparr>) s)"
      using running by (simp add: join_abort_def A)
    moreover have "sinv th X J (put_task t (k\<lparr>tk_state := ?n\<rparr>) s)"
      using K running by (intro sinv_put [OF inv k]) (auto simp: task_ok_def Let_def)
    ultimately show ?thesis by (simp add: task_at_put [OF k])
  next
    case notified
    have "join_abort t s = Inr (put_task t (k\<lparr>tk_state := ?c\<rparr>) s)"
      using notified by (simp add: join_abort_def A)
    moreover have "sinv th X J (put_task t (k\<lparr>tk_state := ?c\<rparr>) s)"
      using K notified by (intro sinv_put [OF inv k]) (auto simp: task_ok_def Let_def)
    ultimately show ?thesis by (simp add: task_at_put [OF k])
  next
    case idle
    note S = submit_ok [OF inv k rm idle(4,3,2), of ?n]
    have "join_abort t s = Inr (schedule t (put_task t (inc (k\<lparr>tk_state := ?n\<rparr>)) s))"
      using idle S(1) by (simp add: join_abort_def A)
    moreover have "sinv th X J (schedule t (put_task t (inc (k\<lparr>tk_state := ?n\<rparr>)) s))"
      using S(2) idle by simp
    ultimately show ?thesis by (simp add: task_at_put [OF k])
  qed
qed

lemma join_drop_ok:
  assumes inv: "sinv th X J s" and j: "t \<in> set J"
  shows "\<exists>s'. join_drop th t s = Inr s' \<and> sinv th X (remove1 t J) s' \<and> same_rest s s'"
proof -
  have "0 < nrefs X J s t" using j by (simp add: nrefs_def) (metis count_list_0_iff neq0_conv)
  then obtain k where k: "task_at t s = Inr k" using sinv_live [OF inv] by blast
  note K = sinv_task [OF inv k]
  have dJ: "distinct J" by (rule sinv_globals [OF inv])
  let ?k = "k\<lparr>tk_state := remove_flag JOIN_HANDLE (tk_state k)\<rparr>"
  have upd: "update_state t drop_join_handle s = Inr ((), put_task t ?k s)"
    using K j by (auto simp: update_state_def k drop_join_handle_def refcount_pos task_ok_def Let_def)
  have "0 < count_list J t" using j by (metis count_list_0_iff neq0_conv)
  then have n: "nrefs (t # X) (remove1 t J) (put_task t ?k s) u = nrefs X J s u" for u
    using nrefs_put [OF k, of ?k "t # X" "remove1 t J" u]
    by (auto simp: nrefs_def count_list_remove1)
  have "task_ok ?k (count_list (runq s) t) (count_list (tset s) t) (t \<in> set (remove1 t J)) (frames_of t s)"
    using K(4) dJ by (auto simp: task_ok_def Let_def)
  then have "sinv th (t # X) (remove1 t J) (put_task t ?k s)"
    using K n dJ sinv_globals [OF inv]
    by (intro sinv_change [OF inv, of t _ _ _ ?k]) (auto simp: task_at_put [OF k] simp del: nrefs_Cons)
  then obtain s' where "release th t (put_task t ?k s) = Inr s'" "sinv th X (remove1 t J) s'" "same_rest (put_task t ?k s) s'"
    using release_ok by blast
  then show ?thesis
    using upd same_rest_trans [OF same_rest_put] by (auto simp: join_drop_def)
qed

end
