(* ===== verification/Task_Run.thy ===== *)
theory Task_Run
  imports Task_Join
begin

text \<open>
  Running a task from the queue to the end of its poll, spawning one, and the shutdown of the queue.
\<close>

section \<open>Completing a task\<close>

lemma sinv_count_le:
  assumes "sinv th X J s"
  shows "count_list (tset s) t \<le> 1" "count_list (runq s) t \<le> 1"
proof -
  have "count_list (tset s) t \<le> 1 \<and> count_list (runq s) t \<le> 1"
  proof (cases "0 < nrefs X J s t")
    case True
    then obtain k where k: "task_at t s = Inr k" using sinv_live [OF assms] by blast
    show ?thesis using sinv_task(4) [OF assms k] by (simp add: task_ok_def Let_def)
  next
    case False
    then show ?thesis by (simp add: nrefs_def sys_refs_def count_list_append)
  qed
  then show "count_list (tset s) t \<le> 1" "count_list (runq s) t \<le> 1" by simp_all
qed

lemma sinv_distinct:
  assumes "sinv th X J s"
  shows "distinct (tset s)" "distinct (runq s)"
  using sinv_count_le [OF assms] by (intro count_list_distinct; simp)+

lemma unbind_ok:
  assumes C: "linked_list C" and inv: "sinv th X J s" and nb: "\<not> tset_borrowed s"
    and cpl: "\<And>k. task_at t s = Inr k \<Longrightarrow> contains COMPLETE (tk_state k)"
  shows "\<exists>s'. unbind C th t s = Inr s' \<and> sinv th X J s' \<and> kept s s' \<and> runq s' = runq s \<and> stack s' = stack s \<and>
    tset s' = remove1 t (tset s) \<and> tset_borrowed s' = tset_borrowed s \<and> tset_closed s' = tset_closed s \<and>
    ext_woken s' = ext_woken s"
proof -
  note d = sinv_distinct(1) [OF inv]
  show ?thesis
  proof (cases "t \<in> set (tset s)")
    case False
    then have "unbind C th t s = Inr s"
      using linked_list.list_remove_law [OF C d, of t] nb by (simp add: unbind_def tset_remove_def)
    then show ?thesis using inv False by (simp add: remove1_idem)
  next
    case True
    let ?n = "tset_size s - 1"
    let ?s = "s\<lparr>tset := remove1 t (tset s), tset_size := ?n\<rparr>"
    have len: "0 < length (tset s)" using True by (cases "tset s") auto
    have size: "unat (tset_size s) = length (tset s) + shut_count (stack s)" by (rule sinv_globals [OF inv])
    have one: "1 \<le> tset_size s" using len size unfolding word_le_nat_alt by (simp only: unat_1 trans_le_add1 Suc_leI One_nat_def)
    have sub: "sub_word (debug_assertions C) (tset_size s) 1 = Inr ?n" "unat ?n = length (tset s) - 1 + shut_count (stack s)"
      using sub_word_Inr [OF one] unat_sub_le [OF one] size len by (simp_all, linarith)
    have c1: "count_list (tset s) t = 1"
      using True sinv_count_le(1) [OF inv, of t] by (metis count_list_0_iff le_antisym less_one not_less)
    have "0 < nrefs X J s t" using c1 by (simp add: nrefs_def sys_refs_def count_list_append)
    then obtain k where k: "task_at t s = Inr k" using sinv_live [OF inv] by blast
    note K = sinv_task [OF inv k]
    have n: "nrefs (t # X) J ?s u = nrefs X J s u" for u
      using c1 by (auto simp: nrefs_def sys_refs_def count_list_append count_list_remove1)
    have "task_ok k (count_list (runq s) t) (count_list (remove1 t (tset s)) t) (t \<in> set J) (frames_of t s)"
      using K(4) cpl [OF k] c1 by (auto simp: task_ok_def Let_def count_list_remove1)
    then have "sinv th (t # X) J ?s"
      using K n sinv_globals [OF inv] True sub(2)
      by (intro sinv_change [OF inv, of t _ _ _ k])
        (auto simp: k frames_of_def count_list_remove1 length_remove1 simp del: nrefs_Cons)
    then obtain s' where s': "release th t ?s = Inr s'" "sinv th X J s'" "same_rest ?s s'" "kept ?s s'"
      using release_ok by blast
    have "kept s ?s" by (simp add: kept_def)
    then have "kept s s'" using s'(4) kept_trans by blast
    moreover have "unbind C th t s = Inr s'"
      using linked_list.list_remove_law [OF C d, of t] nb True sub(1) s'(1) by (simp add: unbind_def tset_remove_def)
    ultimately show ?thesis using s'(2,3) by (simp add: same_rest_def)
  qed
qed

lemma complete_tail_ok:
  assumes C: "linked_list C" and inv: "sinv th (t # X) J s" and nb: "\<not> tset_borrowed s"
    and cpl: "\<And>k. task_at t s = Inr k \<Longrightarrow> contains COMPLETE (tk_state k)"
  shows "\<exists>s'. complete_tail C th t s = Inr s' \<and> sinv th X J s' \<and> stack s' = stack s \<and> kept s s' \<and>
    tset_borrowed s' = tset_borrowed s \<and> ext_woken s' = ext_woken s"
proof -
  obtain s1 where s1: "unbind C th t s = Inr s1" "sinv th (t # X) J s1" "kept s s1" "stack s1 = stack s"
    "tset_borrowed s1 = tset_borrowed s" "ext_woken s1 = ext_woken s"
    using unbind_ok [OF C inv nb cpl] by blast
  obtain s2 where s2: "release th t s1 = Inr s2" "sinv th X J s2" "same_rest s1 s2" "kept s1 s2"
    using release_ok [OF s1(2)] by blast
  then show ?thesis
    using s1 kept_trans [OF s1(3)] by (auto simp: complete_tail_def same_rest_def)
qed

text \<open>
  The task about to complete: still marked as running, but its frame is gone and its future dropped.
\<close>

definition finishing :: "nat \<Rightarrow> nat list \<Rightarrow> nat list \<Rightarrow> nat \<Rightarrow> task \<Rightarrow> tsys \<Rightarrow> bool" where
  "finishing th X J t k s \<longleftrightarrow> sinv_but th X J t s \<and> task_at t s = Inr k \<and> tk_thread k = th \<and>
     unat (ts_refcount (tk_state k)) = nrefs X J s t \<and> 0 < nrefs X J s t \<and>
     contains RUNNING (tk_state k) \<and> \<not> contains COMPLETE (tk_state k) \<and>
     (contains JOIN_HANDLE (tk_state k) \<longleftrightarrow> t \<in> set J) \<and> \<not> tk_borrowed k \<and> (\<exists>r. tk_cell k = Result r) \<and>
     count_list (runq s) t = 0 \<and> count_list (tset s) t = 1 \<and> frames_of t s = []"

lemma task_complete_ok:
  assumes C: "linked_list C" and fin: "finishing th (t # X) J t k s" and nb: "\<not> tset_borrowed s"
    and rm: "\<And>u. room_for s u"
  shows "\<exists>s'. task_complete C th t s = Inr s' \<and> sinv th X J s' \<and> tset_borrowed s' = tset_borrowed s \<and>
    stack s' = (if t \<in> set J then stack s else Destroying t # stack s) \<and>
    (\<forall>k'. task_at t s' = Inr k' \<longrightarrow> contains COMPLETE (tk_state k') \<and> (t \<in> set J \<longrightarrow> tk_cell k' = tk_cell k)) \<and>
    (\<forall>w. t \<in> set J \<and> tk_waker k = Some w \<longrightarrow> waker_woken w s')"
proof -
  have but: "sinv_but th (t # X) J t s" and k: "task_at t s = Inr k" and pos: "0 < ts_refcount (tk_state k)"
    and F: "contains RUNNING (tk_state k)" "\<not> contains COMPLETE (tk_state k)"
      "contains JOIN_HANDLE (tk_state k) \<longleftrightarrow> t \<in> set J" "\<not> tk_borrowed k"
    using fin by (auto simp: finishing_def refcount_pos)
  let ?st = "remove_flag RUNNING (insert_flag COMPLETE (tk_state k))"
  let ?k = "k\<lparr>tk_state := ?st\<rparr>"
  let ?s = "put_task t ?k s"
  have upd: "update_state t complete_task s = Inr (if t \<in> set J then Notify_Join_Handle else Drop_Output, ?s)"
    using F pos by (auto simp: update_state_def k complete_task_def Let_def)
  have k': "task_at t ?s = Inr ?k" by (simp add: task_at_put [OF k])
  have but': "sinv_but th (t # X) J t ?s" by (rule sinv_but_put [OF but k]) simp
  have n: "nrefs X' J ?s u = nrefs X' J s u" for X' u by (simp add: nrefs_put [OF k])
  show ?thesis
  proof (cases "t \<in> set J")
    case True
    have "task_ok ?k (count_list (runq ?s) t) (count_list (tset ?s) t) (t \<in> set J) (frames_of t ?s)"
      using fin by (auto simp: finishing_def task_ok_def Let_def)
    then have inv: "sinv th (t # X) J ?s"
      using fin by (intro sinv_but_close [OF but' k']) (simp_all add: finishing_def n del: nrefs_Cons)
    have "room_for ?s u" for u using rm [of u] k by (cases "u = t") (simp_all add: room_for_def task_at_put [OF k])
    then obtain s1 where s1: "notify_join_handle th t ?s = Inr s1" "sinv th (t # X) J s1" "woke ?s s1"
      "\<forall>w. tk_waker k = Some w \<longrightarrow> waker_woken w s1"
      using notify_join_handle_ok [OF inv k'] by auto
    have c1: "contains COMPLETE (tk_state k1) \<and> tk_cell k1 = tk_cell k" if "task_at t s1 = Inr k1" for k1
      using woke_tasks [OF s1(3) that] k' by (auto simp: woke_task_def)
    have "\<not> tset_borrowed s1" using nb woke_rest [OF s1(3)] by simp
    then obtain s2 where s2: "complete_tail C th t s1 = Inr s2" "sinv th X J s2" "stack s2 = stack s1"
      "tset_borrowed s2 = tset_borrowed s1" "kept s1 s2" "ext_woken s2 = ext_woken s1"
      using complete_tail_ok [OF C s1(2)] c1 by blast
    have "contains COMPLETE (tk_state k2) \<and> tk_cell k2 = tk_cell k" if "task_at t s2 = Inr k2" for k2
      using kept_task [OF s2(5) that] c1 by (auto simp: refs_only_simps)
    moreover have "\<forall>w. tk_waker k = Some w \<longrightarrow> waker_woken w s2"
      using s1(4) waker_woken_kept [OF _ s2(5,6)] by blast
    ultimately show ?thesis
      using True upd s1(1) s2(1-4) woke_rest [OF s1(3)] by (simp add: task_complete_def)
  next
    case False
    let ?k2 = "?k\<lparr>tk_borrowed := True, tk_cell := Cell_Empty\<rparr>"
    let ?s2 = "push_frame (Destroying t) (put_task t ?k2 s)"
    have "task_complete C th t s = Inr ?s2"
      using False upd cell_destroy_eq [OF k'] F(4) by (simp add: task_complete_def)
    moreover have "sinv th X J ?s2"
    proof (rule sinv_but_close)
      show "sinv_but th X J t ?s2"
        by (intro sinv_but_push sinv_but_put [OF _ k] sinv_but_X [OF but]) simp_all
      show "task_at t ?s2 = Inr ?k2" by (simp add: task_at_put [OF k])
      show "task_ok ?k2 (count_list (runq ?s2) t) (count_list (tset ?s2) t) (t \<in> set J) (frames_of t ?s2)"
        using fin False by (auto simp: finishing_def task_ok_def Let_def)
    qed (use fin in \<open>auto simp: finishing_def nrefs_put [OF k]\<close>)
    moreover have "contains COMPLETE (tk_state k')" if "task_at t ?s2 = Inr k'" for k'
      using that by (auto simp: task_at_put [OF k])
    ultimately show ?thesis using False by simp
  qed
qed

section \<open>Starting a poll\<close>

lemma sinv_not_queued:
  assumes "sinv th X J s" and "task_at t s = Inr k" and "contains RUNNING (tk_state k) \<or> \<not> contains NOTIFIED (tk_state k)"
  shows "count_list (runq s) t = 0"
  using sinv_task(4) [OF assms(1,2)] assms(3) by (auto simp: task_ok_def Let_def le_Suc_eq)

lemma run_ok:
  assumes C: "linked_list C" and inv: "sinv th X J s" and q: "runq s = t # ts" and rm: "room_for s t"
  shows "\<exists>s'. task_poll C th t (s\<lparr>runq := ts\<rparr>) = Inr s' \<and> sinv th X J s' \<and> runq s' = ts \<and>
    tset_borrowed s' = tset_borrowed s \<and>
    (\<forall>k. task_at t s = Inr k \<longrightarrow> stack s' = (if contains COMPLETE (tk_state k) then stack s
       else if contains CANCELLED (tk_state k) then Cancelling t False # stack s else Polling t # stack s))"
proof -
  let ?s = "s\<lparr>runq := ts\<rparr>"
  have "0 < nrefs X J s t" by (simp add: nrefs_def sys_refs_def q)
  then obtain k where k: "task_at t s = Inr k" using sinv_live [OF inv] by blast
  note K = sinv_task [OF inv k]
  have k': "task_at t ?s = Inr k" using k by simp
  have q1: "count_list (runq s) t = 1" using sinv_count_le(2) [OF inv, of t] by (simp add: q)
  then have q0: "count_list ts t = 0" by (simp add: q)
  have st: "contains NOTIFIED (tk_state k)" "\<not> contains RUNNING (tk_state k)"
    using K(4) q1 by (auto simp: task_ok_def Let_def)
  have n: "nrefs (t # X) J ?s u = nrefs X J s u" for u
    by (simp add: nrefs_def sys_refs_def q)
  have n': "nrefs X J ?s t = nrefs X J s t - 1" using n [of t] by simp
  have pos: "0 < ts_refcount (tk_state k)" using K(1,2) by (simp add: refcount_pos)
  have but: "sinv_but th (t # X) J t ?s"
    using sinv_globals [OF inv]
    by (intro sinv_but_step [OF sinv_butI [OF inv]]) (auto simp: n q frames_of_def simp del: nrefs_Cons)
  show ?thesis
  proof (cases "contains COMPLETE (tk_state k)")
    case True
    have "task_ok k (count_list (runq ?s) t) (count_list (tset ?s) t) (t \<in> set J) (frames_of t ?s)"
      using K(4) True q0 by (auto simp: task_ok_def Let_def frames_of_def)
    then have "sinv th (t # X) J ?s"
      using K by (intro sinv_but_close [OF but k']) (simp_all add: n del: nrefs_Cons)
    then obtain s' where s': "release th t ?s = Inr s'" "sinv th X J s'" "same_rest ?s s'"
      using release_ok by blast
    have same: "put_task t k ?s = ?s"
      using k' list_update_id [of "heap s" t] by (simp add: put_task_def task_at_Inr)
    have "update_state t prepare_poll ?s = Inr (Prepare_Complete, ?s)"
      using True st pos same by (simp add: update_state_def k prepare_poll_def state_update_def del: and_then_eq_Inr)
    then have "task_poll C th t ?s = Inr s'" using s'(1) by (simp add: task_poll_def)
    then show ?thesis using s' True k by (auto simp: same_rest_def)
  next
    case False
    let ?st = "remove_flag NOTIFIED (insert_flag RUNNING (tk_state k))"
    let ?k = "k\<lparr>tk_state := ?st\<rparr>"
    have upd: "update_state t prepare_poll ?s = Inr
        (if contains CANCELLED (tk_state k) then Prepare_Cancelled else Prepare_Ok, put_task t ?k ?s)"
      using False st pos
      by (simp add: update_state_def k prepare_poll_def state_update_def Let_def del: and_then_eq_Inr)
    have kk: "task_at t (put_task t ?k ?s) = Inr ?k" using task_at_put [OF k'] by simp
    have fs: "frames_of t s = []" "\<not> tk_borrowed k" "tk_cell k = Fut" "count_list (tset s) t = 1"
      using K(4) False st by (auto simp: task_ok_def Let_def)
    have fs': "frames_of t ?s = []" using fs(1) by (simp add: frames_of_def)
    have but2: "sinv_but th X J t ?s" using sinv_but_X [OF but, of X] by simp
    show ?thesis
    proof (cases "contains CANCELLED (tk_state k)")
      case True
      let ?k2 = "?k\<lparr>tk_borrowed := True, tk_cell := Result (Inl Task_Cancelled)\<rparr>"
      let ?s2 = "push_frame (Cancelling t False) (put_task t ?k2 ?s)"
      have "task_poll C th t ?s = Inr ?s2"
        using upd True cell_cancel_eq [OF kk] fs(2) by (simp add: task_poll_def)
      moreover have "sinv th X J ?s2"
      proof (rule sinv_but_close)
        show "sinv_but th X J t ?s2" by (intro sinv_but_push sinv_but_put [OF but2 k']) simp_all
        show "task_at t ?s2 = Inr ?k2" using task_at_put [OF k'] by simp
        show "task_ok ?k2 (count_list (runq ?s2) t) (count_list (tset ?s2) t) (t \<in> set J) (frames_of t ?s2)"
          using K(4) fs fs' q0 False by (auto simp: task_ok_def Let_def)
      qed (use K n' in \<open>auto simp: nrefs_put [OF k']\<close>)
      ultimately show ?thesis using True False k by simp
    next
      case nc: False
      let ?k2 = "(inc ?k)\<lparr>tk_borrowed := True\<rparr>"
      let ?s2 = "push_frame (Polling t) (put_task t ?k2 ?s)"
      have r: "unat (ts_refcount (tk_state ?k)) + 1 < 2 ^ 32" using rm k by (simp add: room_for_def)
      have "clone_handle t (put_task t ?k ?s) = Inr (put_task t (inc ?k) ?s)"
        using clone_handle_eq [OF kk] r K(1,2) by simp
      moreover have "cell_poll t (put_task t (inc ?k) ?s) = Inr (put_task t ?k2 ?s)"
        using cell_poll_eq [of t "put_task t (inc ?k) ?s" "inc ?k"] task_at_put [OF k'] fs by simp
      ultimately have "task_poll C th t ?s = Inr ?s2"
        using upd nc by (simp add: task_poll_def)
      moreover have "sinv th X J ?s2"
      proof (rule sinv_but_close)
        show "sinv_but th X J t ?s2" by (intro sinv_but_push sinv_but_put [OF but2 k']) simp_all
        show "task_at t ?s2 = Inr ?k2" using task_at_put [OF k'] by simp
        show "unat (ts_refcount (tk_state ?k2)) = nrefs X J ?s2 t"
          using unat_inc [OF r] K(1,2) n' by (simp add: nrefs_put [OF k'])
        show "task_ok ?k2 (count_list (runq ?s2) t) (count_list (tset ?s2) t) (t \<in> set J) (frames_of t ?s2)"
          using K(4) fs fs' q0 False by (auto simp: task_ok_def Let_def)
      qed (use K in auto)
      ultimately show ?thesis using nc False k by simp
    qed
  qed
qed

end
