(* ===== verification/Task_Lifecycle.thy ===== *)
theory Task_Lifecycle
  imports Task_Run
begin

text \<open>
  The ends of the user code the system calls, the spawning of a task and the shutdown of the queue.
\<close>

section \<open>The task of the top frame\<close>

lemma top_frame:
  assumes inv: "sinv th X J s" and stk: "stack s = f # st" and t: "frame_task f = t"
  shows "\<exists>k. task_at t s = Inr k \<and> tk_thread k = th \<and> unat (ts_refcount (tk_state k)) = nrefs X J s t \<and>
    nrefs X J s t = nrefs X J (s\<lparr>stack := st\<rparr>) t + count_list (frame_refs f) t \<and>
    frames_of t (s\<lparr>stack := st\<rparr>) = [] \<and> tk_borrowed k \<and> frame_cell f (tk_cell k) \<and>
    (contains JOIN_HANDLE (tk_state k) \<longleftrightarrow> t \<in> set J) \<and> count_list (runq s) t \<le> 1 \<and> count_list (tset s) t \<le> 1 \<and>
    (if running_frame f
     then contains RUNNING (tk_state k) \<and> \<not> contains COMPLETE (tk_state k) \<and> count_list (tset s) t = 1 \<and>
       count_list (runq s) t = 0
     else contains COMPLETE (tk_state k) \<and> \<not> contains RUNNING (tk_state k) \<and>
       (count_list (runq s) t = 1 \<longrightarrow> contains NOTIFIED (tk_state k)))"
proof -
  have "0 < count_list (frame_refs f) t" using t by (cases f) auto
  then have "0 < nrefs X J s t" by (simp add: nrefs_pop [OF stk])
  then obtain k where k: "task_at t s = Inr k" using sinv_live [OF inv] by blast
  note K = sinv_task [OF inv k]
  have "frames_of t s = f # frames_of t (s\<lparr>stack := st\<rparr>)" using frames_of_pop [OF stk, of t] t by simp
  then have fs: "frames_of t s = [f]" "frames_of t (s\<lparr>stack := st\<rparr>) = []"
    using K(4) by (auto simp: task_ok_def Let_def)
  then show ?thesis
    using k K nrefs_pop [OF stk, of X J t] by (auto simp: task_ok_def Let_def le_Suc_eq split: if_splits)
qed

section \<open>The end of a poll\<close>

lemma room_dec:
  assumes "task_at t s = Inr k" and "room_for s u" and "0 < unat (ts_refcount (tk_state k))"
    and "unat (ts_refcount (tk_state k')) \<le> unat (ts_refcount (tk_state k))"
  shows "room_for (put_task t k' s) u"
  using assms by (auto simp: room_for_def task_at_put)

lemma poll_end_ready:
  assumes inv: "sinv th X J s" and stk: "stack s = Polling t # st"
  shows "\<exists>s'. cell_fill t (Result r) (s\<lparr>stack := st\<rparr>) = Inr s' \<and> sinv th X J (push_frame (Finishing t) s') \<and>
    stack s' = st \<and> tset_borrowed s' = tset_borrowed s"
proof -
  let ?s = "s\<lparr>stack := st\<rparr>"
  obtain k where k: "task_at t s = Inr k" "tk_thread k = th" "unat (ts_refcount (tk_state k)) = nrefs X J s t"
    "nrefs X J s t = nrefs X J ?s t + 2" "frames_of t ?s = []" "tk_borrowed k"
    "contains JOIN_HANDLE (tk_state k) \<longleftrightarrow> t \<in> set J" "contains RUNNING (tk_state k)"
    "\<not> contains COMPLETE (tk_state k)" "count_list (tset s) t = 1" "count_list (runq s) t = 0"
    using top_frame [OF inv stk] by auto
  have k0: "task_at t ?s = Inr k" using k(1) by simp
  let ?k = "k\<lparr>tk_cell := Result r\<rparr>"
  have "sinv th X J (push_frame (Finishing t) (put_task t ?k ?s))"
  proof (rule sinv_but_close)
    show "sinv_but th X J t (push_frame (Finishing t) (put_task t ?k ?s))"
      by (intro sinv_but_push sinv_but_put [OF _ k0] sinv_but_pop [OF sinv_butI [OF inv] stk]) simp_all
    show "task_at t (push_frame (Finishing t) (put_task t ?k ?s)) = Inr ?k" by (simp add: task_at_put [OF k0])
  qed (use k in \<open>auto simp: nrefs_put [OF k0] task_ok_def Let_def\<close>)
  then show ?thesis using k0 by (simp add: cell_fill_def)
qed

lemma poll_end_ok:
  assumes inv: "sinv th X J s" and stk: "stack s = Polling t # st" and rm: "\<And>u. room_for s u"
  shows "\<exists>s'. poll_end C th out t (s\<lparr>stack := st\<rparr>) = Inr s' \<and> sinv th X J s' \<and>
    tset_borrowed s' = tset_borrowed s \<and>
    (out \<noteq> Out_Pending \<longrightarrow> stack s' = Finishing t # st) \<and>
    (out = Out_Pending \<longrightarrow> (\<forall>k. task_at t s = Inr k \<longrightarrow>
      (if contains CANCELLED (tk_state k) then stack s' = Cancelling t True # st
       else stack s' = st \<and> (t \<in> set (runq s') \<longleftrightarrow> contains NOTIFIED (tk_state k)))))"
proof (cases "out = Out_Pending")
  case False
  then obtain r where r: "poll_end C th out t (s\<lparr>stack := st\<rparr>) =
      and_then (cell_fill t (Result r) (s\<lparr>stack := st\<rparr>)) (\<lambda>s. Inr (push_frame (Finishing t) s))"
    by (cases out) (auto simp: poll_end_def)
  show ?thesis using poll_end_ready [OF inv stk, of r] False by (auto simp: r)
next
  case True
  let ?s = "s\<lparr>stack := st\<rparr>"
  obtain k where k: "task_at t s = Inr k" "tk_thread k = th" "unat (ts_refcount (tk_state k)) = nrefs X J s t"
    "nrefs X J s t = nrefs X J ?s t + 2" "frames_of t ?s = []" "tk_cell k = Fut"
    "contains JOIN_HANDLE (tk_state k) \<longleftrightarrow> t \<in> set J" "contains RUNNING (tk_state k)"
    "\<not> contains COMPLETE (tk_state k)" "count_list (tset s) t = 1" "count_list (runq s) t = 0"
    using top_frame [OF inv stk] by auto
  have k0: "task_at t ?s = Inr k" using k(1) by simp
  have pos: "0 < ts_refcount (tk_state k)" using k(3,4) by (simp add: refcount_pos)
  let ?k1 = "k\<lparr>tk_borrowed := False\<rparr>"
  let ?s1 = "put_task t ?k1 ?s"
  have k1: "task_at t ?s1 = Inr ?k1" by (simp add: task_at_put [OF k0])
  have but: "sinv_but th X J t ?s" by (rule sinv_but_pop [OF sinv_butI [OF inv] stk]) simp_all
  have lists: "runq ?s = runq s" "tset ?s = tset s" by simp_all
  show ?thesis
  proof (cases "contains CANCELLED (tk_state k)")
    case c: True
    have "update_state t complete_poll ?s1 = Inr (Poll_Cancelled, ?s1)"
      using c k(8) pos by (simp add: update_state_def k1 complete_poll_def state_update_def del: and_then_eq_Inr)
    moreover let ?k2 = "?k1\<lparr>tk_borrowed := True, tk_cell := Result (Inl Task_Cancelled)\<rparr>"
    let ?s2 = "push_frame (Cancelling t True) (put_task t ?k2 ?s)"
    have "cell_cancel t ?s1 = Inr (put_task t ?k2 ?s)" using cell_cancel_eq [OF k1] by simp
    ultimately have "poll_end C th out t ?s = Inr ?s2"
      using True cell_unborrow_eq [OF k0] by (simp add: poll_end_def)
    moreover have "sinv th X J ?s2"
    proof (rule sinv_but_close)
      show "sinv_but th X J t ?s2" by (intro sinv_but_push sinv_but_put [OF but k0]) simp_all
      show "task_at t ?s2 = Inr ?k2" by (simp add: task_at_put [OF k0])
    qed (use k in \<open>auto simp: nrefs_put [OF k0] task_ok_def Let_def\<close>)
    ultimately show ?thesis using True c k(1) by simp
  next
    case nc: False
    let ?st = "remove_flag RUNNING (tk_state k)"
    let ?k2 = "?k1\<lparr>tk_state := ?st\<rparr>"
    let ?s2 = "put_task t ?k2 ?s"
    have upd: "update_state t complete_poll ?s1 =
        Inr (if contains NOTIFIED (tk_state k) then Notified_During_Poll else Poll_Ok, ?s2)"
      using nc k(8) pos
      by (simp add: update_state_def k1 complete_poll_def state_update_def Let_def del: and_then_eq_Inr)
    have k2: "task_at t ?s2 = Inr ?k2" by (simp add: task_at_put [OF k0])
    let ?k3 = "dec ?k2"
    have drop: "waker_drop th t ?s2 = Inr (put_task t ?k3 ?s)"
      using waker_drop_keep [OF k2] k(2-4) by simp
    have r3: "unat (ts_refcount (tk_state ?k3)) = nrefs X J ?s t + 1"
      using unat_dec [of ?k2] k(3,4) by simp
    have k3: "task_at t (put_task t ?k3 ?s) = Inr ?k3" by (simp add: task_at_put [OF k0])
    have butX: "sinv_but th (t # X) J t ?s" by (rule sinv_but_X [OF but]) simp
    show ?thesis
    proof (cases "contains NOTIFIED (tk_state k)")
      case n: True
      let ?s4 = "schedule t (put_task t (inc ?k3) ?s)"
      have room: "unat (ts_refcount (tk_state ?k3)) + 1 < 2 ^ 32"
        using rm [of t] k(1,3,4) r3 by (simp add: room_for_def)
      have clone: "clone_handle t (put_task t ?k3 ?s) = Inr (put_task t (inc ?k3) ?s)"
        using clone_handle_eq [OF k3] r3 room by simp
      have inv4: "sinv th (t # X) J ?s4"
      proof (rule sinv_but_close)
        show "sinv_but th (t # X) J t ?s4" by (intro sinv_but_schedule sinv_but_put [OF butX k0]) simp
        show "task_at t ?s4 = Inr (inc ?k3)" by (simp add: task_at_put [OF k0])
        show "unat (ts_refcount (tk_state (inc ?k3))) = nrefs (t # X) J ?s4 t"
          using unat_inc [OF room] r3 by (simp add: nrefs_put [OF k0])
      qed (use k n in \<open>auto simp: task_ok_def Let_def count_list_append\<close>)
      obtain s5 where s5: "release th t ?s4 = Inr s5" "sinv th X J s5" "same_rest ?s4 s5"
        using release_ok [OF inv4] by blast
      have "poll_end C th out t ?s = Inr s5"
        using True n upd drop clone s5(1) cell_unborrow_eq [OF k0] by (simp add: poll_end_def)
      then show ?thesis using s5 True nc n k(1) by (auto simp: same_rest_def)
    next
      case n: False
      have inv4: "sinv th (t # X) J (put_task t ?k3 ?s)"
      proof (rule sinv_but_close)
        show "sinv_but th (t # X) J t (put_task t ?k3 ?s)" by (rule sinv_but_put [OF butX k0]) simp
        show "unat (ts_refcount (tk_state ?k3)) = nrefs (t # X) J (put_task t ?k3 ?s) t"
          using r3 by (simp add: nrefs_put [OF k0])
      qed (use k k3 n nc in \<open>auto simp: task_ok_def Let_def\<close>)
      obtain s5 where s5: "release th t (put_task t ?k3 ?s) = Inr s5" "sinv th X J s5" "same_rest (put_task t ?k3 ?s) s5"
        using release_ok [OF inv4] by blast
      have "poll_end C th out t ?s = Inr s5"
        using True n upd drop s5(1) cell_unborrow_eq [OF k0] by (simp add: poll_end_def)
      moreover have "t \<notin> set (runq s)" using k(11) by (simp add: count_list_0_iff)
      ultimately show ?thesis using s5 True nc n k(1) by (auto simp: same_rest_def)
    qed
  qed
qed

section \<open>The end of a drop\<close>

lemma drop_end_complete:
  assumes C: "linked_list C" and inv: "sinv th X J s" and nb: "\<not> tset_borrowed s" and rm: "\<And>u. room_for s u"
    and stk: "stack s = f # st" and f: "f = Cancelling t w \<or> f = Finishing t \<and> w"
  shows "\<exists>s'. and_then (cell_unborrow t (s\<lparr>stack := st\<rparr>)) (\<lambda>s.
      and_then (if w then waker_drop th t s else Inr s) (task_complete C th t)) = Inr s' \<and> sinv th X J s' \<and>
    tset_borrowed s' = tset_borrowed s \<and> stack s' = (if t \<in> set J then st else Destroying t # st) \<and>
    (\<forall>k. task_at t s = Inr k \<longrightarrow>
      (\<forall>k'. task_at t s' = Inr k' \<longrightarrow> contains COMPLETE (tk_state k') \<and> (t \<in> set J \<longrightarrow> tk_cell k' = tk_cell k)) \<and>
      (\<forall>v. t \<in> set J \<and> tk_waker k = Some v \<longrightarrow> waker_woken v s'))"
proof -
  let ?s = "s\<lparr>stack := st\<rparr>"
  have ft: "frame_task f = t" and rf: "running_frame f" and refs: "frame_refs f = (if w then [t, t] else [t])"
    and ns: "\<And>u. f \<noteq> Shutting u" and fc: "frame_cell f c \<Longrightarrow> \<exists>r. c = Result r" for c
    using f by auto
  obtain k where k: "task_at t s = Inr k" "tk_thread k = th" "unat (ts_refcount (tk_state k)) = nrefs X J s t"
    "nrefs X J s t = nrefs X J ?s t + (if w then 2 else 1)" "frames_of t ?s = []" "\<exists>r. tk_cell k = Result r"
    "contains JOIN_HANDLE (tk_state k) \<longleftrightarrow> t \<in> set J" "contains RUNNING (tk_state k)"
    "\<not> contains COMPLETE (tk_state k)" "count_list (tset s) t = 1" "count_list (runq s) t = 0"
    using top_frame [OF inv stk ft] rf refs fc by (auto split: if_splits)
  have k0: "task_at t ?s = Inr k" using k(1) by simp
  let ?k1 = "k\<lparr>tk_borrowed := False\<rparr>"
  let ?k2 = "if w then dec ?k1 else ?k1"
  let ?s2 = "put_task t ?k2 ?s"
  have k1: "task_at t (put_task t ?k1 ?s) = Inr ?k1" by (simp add: task_at_put [OF k0])
  have k2: "task_at t ?s2 = Inr ?k2" using task_at_put [OF k0] by simp
  have drop: "(if w then waker_drop th t (put_task t ?k1 ?s) else Inr (put_task t ?k1 ?s)) = Inr ?s2"
    using waker_drop_keep [OF k1] k(2-4) by simp
  have r2: "unat (ts_refcount (tk_state ?k2)) = nrefs X J ?s t + 1"
    using unat_dec [of ?k1] k(3,4) by (cases w) simp_all
  have but: "sinv_but th (t # X) J t ?s2"
    by (intro sinv_but_put [OF _ k0] sinv_but_X [OF sinv_but_pop [OF sinv_butI [OF inv] stk ft ns]]) simp_all
  have fin: "finishing th (t # X) J t ?k2 ?s2"
    unfolding finishing_def using but k2 k r2 by (simp add: nrefs_put [OF k0])
  have "room_for ?s2 u" for u
    using rm [of u] k r2 by (intro room_dec [OF k0]) (simp_all add: room_for_def)
  then obtain s' where "task_complete C th t ?s2 = Inr s'" "sinv th X J s'" "tset_borrowed s' = tset_borrowed s"
    "stack s' = (if t \<in> set J then st else Destroying t # st)"
    "\<forall>k'. task_at t s' = Inr k' \<longrightarrow> contains COMPLETE (tk_state k') \<and> (t \<in> set J \<longrightarrow> tk_cell k' = tk_cell k)"
    "\<forall>v. t \<in> set J \<and> tk_waker k = Some v \<longrightarrow> waker_woken v s'"
    using task_complete_ok [OF C fin] nb by (auto simp: if_distrib [of tk_cell] if_distrib [of tk_waker])
  then show ?thesis using drop cell_unborrow_eq [OF k0] k(1) by (simp del: and_then_eq_Inr)
qed

text \<open>The end of the drop of an output, or of a future that was refused or shut down.\<close>

lemma drop_end_unborrow:
  assumes inv: "sinv th X J s" and stk: "stack s = f # st" and t: "frame_task f = t" and nr: "\<not> running_frame f"
  shows "\<exists>k. task_at t s = Inr k \<and> contains COMPLETE (tk_state k) \<and>
    cell_unborrow t (s\<lparr>stack := st\<rparr>) = Inr (put_task t (k\<lparr>tk_borrowed := False\<rparr>) (s\<lparr>stack := st\<rparr>)) \<and>
    ((\<forall>u. f \<noteq> Shutting u) \<longrightarrow> sinv th (t # X) J (put_task t (k\<lparr>tk_borrowed := False\<rparr>) (s\<lparr>stack := st\<rparr>))) \<and>
    (\<forall>n. f = Shutting t \<longrightarrow> unat n = length (tset s) + shut_count st \<longrightarrow>
      sinv th (t # X) J ((put_task t (k\<lparr>tk_borrowed := False\<rparr>) (s\<lparr>stack := st\<rparr>))\<lparr>tset_size := n\<rparr>))"
proof -
  let ?s = "s\<lparr>stack := st\<rparr>"
  have refs: "frame_refs f = [t]" using t nr by (cases f) auto
  have cell: "frame_cell f c \<Longrightarrow> c \<noteq> Fut" for c using nr by (cases f) auto
  obtain k where k: "task_at t s = Inr k" "tk_thread k = th" "unat (ts_refcount (tk_state k)) = nrefs X J s t"
    "nrefs X J s t = nrefs X J ?s t + 1" "frames_of t ?s = []" "tk_cell k \<noteq> Fut"
    "contains JOIN_HANDLE (tk_state k) \<longleftrightarrow> t \<in> set J" "\<not> contains RUNNING (tk_state k)"
    "contains COMPLETE (tk_state k)" "count_list (tset s) t \<le> 1" "count_list (runq s) t \<le> 1"
    "count_list (runq s) t = 1 \<longrightarrow> contains NOTIFIED (tk_state k)"
    using top_frame [OF inv stk t] nr refs cell by auto
  have k0: "task_at t ?s = Inr k" using k(1) by simp
  let ?k1 = "k\<lparr>tk_borrowed := False\<rparr>"
  let ?s1 = "put_task t ?k1 ?s"
  have k1: "task_at t ?s1 = Inr ?k1" by (simp add: task_at_put [OF k0])
  have ok: "task_ok ?k1 (count_list (runq s) t) (count_list (tset s) t) (t \<in> set J) (frames_of t ?s)"
    using k by (auto simp: task_ok_def Let_def)
  have "sinv th (t # X) J ?s1" if "\<forall>u. f \<noteq> Shutting u"
  proof (rule sinv_but_close [OF _ k1])
    show "sinv_but th (t # X) J t ?s1"
      using that
      by (intro sinv_but_put [OF _ k0] sinv_but_X [OF sinv_but_pop [OF sinv_butI [OF inv] stk t]]) simp_all
  qed (use k ok in \<open>simp_all add: nrefs_put [OF k0]\<close>)
  moreover have "sinv th (t # X) J (?s1\<lparr>tset_size := n\<rparr>)"
    if f: "f = Shutting t" and n: "unat n = length (tset s) + shut_count st" for n
  proof -
    let ?s2 = "?s1\<lparr>tset_size := n\<rparr>"
    have nr2: "nrefs Y J ?s2 u = nrefs Y J ?s u" for Y u
      using nrefs_put [OF k0, of ?k1 Y J u] by (simp add: nrefs_def sys_refs_def)
    have at2: "task_at u ?s2 = (if u = t then Inr ?k1 else task_at u s)" for u
      using task_at_put [OF k0] by simp
    have fr2: "frames_of u ?s2 = frames_of u ?s" for u by (simp add: frames_of_def)
    show ?thesis
    proof (rule sinv_but_close)
      show "sinv_but th (t # X) J t ?s2"
        using sinv_globals [OF inv] n t
        by (intro sinv_but_step [OF sinv_butI [OF inv]])
          (simp_all add: at2 task_at_put [OF k0] nr2 fr2 nrefs_pop [OF stk, of X J] frames_of_pop [OF stk] frame_refs_count)
      show "task_at t ?s2 = Inr ?k1" using at2 by simp
    qed (use k ok in \<open>simp_all add: nr2 fr2\<close>)
  qed
  ultimately show ?thesis using k(1,9) cell_unborrow_eq [OF k0] by blast
qed

section \<open>Shutting the queue down\<close>

text \<open>\<open>TaskSet::shutdown\<close> counts a task out of the set when it is done with it.\<close>

lemma tset_drained_eq:
  assumes "0 < unat (tset_size s)"
  shows "tset_drained C th t s = release th t (s\<lparr>tset_size := tset_size s - 1\<rparr>)"
    and "unat (tset_size s - 1) = unat (tset_size s) - 1"
proof -
  have "1 \<le> tset_size s" using assms by (simp add: word_le_nat_alt)
  then show "tset_drained C th t s = release th t (s\<lparr>tset_size := tset_size s - 1\<rparr>)"
    "unat (tset_size s - 1) = unat (tset_size s) - 1"
    using sub_word_Inr [of 1 "tset_size s"] unat_sub_le [of 1 "tset_size s"] by (simp_all add: tset_drained_def)
qed

lemma release_all_ok:
  "sinv th (ts @ X) J s \<Longrightarrow> \<exists>s'. release_all th ts s = Inr s' \<and> sinv th X J s' \<and> same_rest s s' \<and> kept s s'"
proof (induction ts arbitrary: s)
  case Nil
  then show ?case by simp
next
  case (Cons t ts)
  then obtain s1 where s1: "release th t s = Inr s1" "sinv th (ts @ X) J s1" "same_rest s s1" "kept s s1"
    using release_ok [of th t "ts @ X" J s] by auto
  obtain s2 where "release_all th ts s1 = Inr s2" "sinv th X J s2" "same_rest s1 s2" "kept s1 s2"
    using Cons.IH [OF s1(2)] by blast
  then show ?case using s1 same_rest_trans kept_trans by fastforce
qed

lemma runq_take_ok:
  assumes inv: "sinv th X J s" and empty: "tset s = []"
  shows "\<exists>s'. runq_take th s = Inr s' \<and> sinv th X J s' \<and> runq s' = [] \<and> tset s' = [] \<and> stack s' = stack s \<and>
    tset_borrowed s' = tset_borrowed s \<and> tset_closed s' = tset_closed s \<and>
    (\<forall>t k. task_at t s' = Inr k \<longrightarrow> contains COMPLETE (tk_state k))"
proof -
  let ?s = "s\<lparr>runq := []\<rparr>" and ?X = "runq s @ X"
  have n: "nrefs ?X J ?s u = nrefs X J s u" for u
    by (simp add: nrefs_def sys_refs_def count_list_append)
  have cpl: "contains COMPLETE (tk_state k)" if "task_at t s = Inr k" for t k
    using sinv_task(4) [OF inv that] empty by (auto simp: task_ok_def Let_def)
  have ok: "task_ok k 0 b j fs" if "task_at t s = Inr k" "task_ok k q b j fs" for t k q b j fs
    using that(2) cpl [OF that(1)] by (auto simp: task_ok_def Let_def)
  have inv0: "sinv th ?X J ?s"
    unfolding sinv_def
  proof (intro conjI allI)
    fix u
    show "case task_at u ?s of Inl _ \<Rightarrow> nrefs ?X J ?s u = 0
      | Inr k \<Rightarrow> unat (ts_refcount (tk_state k)) = nrefs ?X J ?s u \<and> 0 < nrefs ?X J ?s u \<and> tk_thread k = th \<and>
          task_ok k (count_list (runq ?s) u) (count_list (tset ?s) u) (u \<in> set J) (frames_of u ?s)"
    proof (cases "task_at u s")
      case (Inl e)
      then show ?thesis using sinv_live [OF inv, of u] n [of u] by (auto simp del: nrefs_def)
    next
      case (Inr k)
      then show ?thesis
        using sinv_task [OF inv Inr] n ok [OF Inr] by (simp add: frames_of_def)
    qed
  qed (use sinv_globals [OF inv] in auto)
  then obtain s' where s': "release_all th (runq s) ?s = Inr s'" "sinv th X J s'" "same_rest ?s s'" "kept ?s s'"
    using release_all_ok by blast
  have "contains COMPLETE (tk_state k)" if "task_at t s' = Inr k" for t k
    using kept_task [OF s'(4) that] cpl by (auto simp: refs_only_simps)
  then show ?thesis using s' empty by (simp add: runq_take_def same_rest_def)
qed

text \<open>
  One task of the set: it is complete already, or its future is being dropped. In the latter case the
  frame holds the reference of the set.
\<close>

lemma task_shutdown_ok:
  assumes inv: "sinv th X J s" and ts: "tset s = t # ts" and idle: "\<forall>k. task_at t s = Inr k \<longrightarrow> \<not> contains RUNNING (tk_state k)"
  shows "(\<exists>s1. task_shutdown t (s\<lparr>tset := ts\<rparr>) = Inr (False, s1) \<and>
      sinv th (t # X) J (s1\<lparr>tset_size := tset_size s1 - 1\<rparr>) \<and> tset s1 = ts \<and> tset_size s1 = tset_size s \<and>
      stack s1 = stack s \<and> runq s1 = runq s \<and> tset_borrowed s1 = tset_borrowed s \<and> tset_closed s1 = tset_closed s \<and>
      (\<forall>u k'. task_at u s1 = Inr k' \<longrightarrow> (\<exists>k. task_at u s = Inr k \<and> contains RUNNING (tk_state k') = contains RUNNING (tk_state k)))) \<or>
    (\<exists>s1. task_shutdown t (s\<lparr>tset := ts\<rparr>) = Inr (True, s1) \<and> sinv th X J (push_frame (Shutting t) s1) \<and>
      stack s1 = stack s \<and> tset s1 = ts \<and> tset_borrowed s1 = tset_borrowed s \<and> tset_closed s1 = tset_closed s)"
proof -
  let ?s = "s\<lparr>tset := ts\<rparr>"
  have "0 < nrefs X J s t" by (simp add: nrefs_def sys_refs_def ts count_list_append)
  then obtain k where k: "task_at t s = Inr k" using sinv_live [OF inv] by blast
  note K = sinv_task [OF inv k]
  have k0: "task_at t ?s = Inr k" using k by simp
  have nr: "\<not> contains RUNNING (tk_state k)" using idle k by blast
  have pos: "0 < ts_refcount (tk_state k)" using K(1,2) by (simp add: refcount_pos)
  have t0: "count_list ts t = 0" using sinv_count_le(1) [OF inv, of t] ts by simp
  have n: "nrefs (t # X) J ?s u = nrefs X J s u" for u
    by (simp add: nrefs_def sys_refs_def ts count_list_append)
  have size: "unat (tset_size s) = Suc (length ts) + shut_count (stack s)" using sinv_globals [OF inv] ts by simp
  have fr: "frames_of u ?s = frames_of u s" for u by (simp add: frames_of_def)
  let ?c = "insert_flag CANCELLED (tk_state k)"
  show ?thesis
  proof (cases "contains COMPLETE (tk_state k)")
    case True
    let ?k = "k\<lparr>tk_state := ?c\<rparr>"
    let ?s1 = "put_task t ?k ?s"
    let ?s2 = "?s1\<lparr>tset_size := tset_size s - 1\<rparr>"
    have "update_state t shutdown ?s = Inr (Already_Completed, ?s1)"
      using True nr pos by (simp add: update_state_def k shutdown_def state_update_def Let_def del: and_then_eq_Inr)
    then have res: "task_shutdown t ?s = Inr (False, ?s1)" by (simp add: task_shutdown_def)
    have at: "task_at u ?s1 = (if u = t then Inr ?k else task_at u s)" for u
      using task_at_put [OF k0] by simp
    have n2: "nrefs (t # X) J ?s2 u = nrefs X J s u" for u
      using nrefs_put [OF k0, of ?k "t # X" J u] n [of u] by (simp add: nrefs_def sys_refs_def)
    have fr2: "frames_of u ?s2 = frames_of u s" for u by (simp add: frames_of_def)
    have "sinv th (t # X) J ?s2"
    proof (rule sinv_but_close)
      show "sinv_but th (t # X) J t ?s2"
        using sinv_globals [OF inv] size tset_drained_eq(2) [of s] ts
        by (intro sinv_but_step [OF sinv_butI [OF inv]]) (simp_all add: at n2 fr2 del: nrefs_Cons)
      show "task_at t ?s2 = Inr ?k" by (simp add: at)
    qed (use K t0 True nr in \<open>auto simp: n2 fr2 task_ok_def Let_def simp del: nrefs_Cons\<close>)
    then show ?thesis using res at k by (intro disjI1 exI [of _ ?s1]) simp
  next
    case False
    let ?st = "insert_flag COMPLETE ?c"
    let ?k = "k\<lparr>tk_state := ?st\<rparr>"
    let ?k2 = "?k\<lparr>tk_borrowed := True, tk_cell := Result (Inl Task_Cancelled)\<rparr>"
    let ?s1 = "put_task t ?k2 ?s"
    let ?s2 = "push_frame (Shutting t) ?s1"
    have fs: "frames_of t s = []" "\<not> tk_borrowed k" using K(4) False nr by (auto simp: task_ok_def Let_def)
    have "update_state t shutdown ?s = Inr (Not_Completed, put_task t ?k ?s)"
      using False nr pos by (simp add: update_state_def k shutdown_def state_update_def Let_def del: and_then_eq_Inr)
    moreover have "task_at t (put_task t ?k ?s) = Inr ?k" by (simp add: task_at_put [OF k0])
    then have "cell_cancel t (put_task t ?k ?s) = Inr ?s1" using cell_cancel_eq fs(2) by fastforce
    ultimately have res: "task_shutdown t ?s = Inr (True, ?s1)" by (simp add: task_shutdown_def)
    have at: "task_at u ?s1 = (if u = t then Inr ?k2 else task_at u s)" for u
      using task_at_put [OF k0] by simp
    have n2: "nrefs X J ?s2 u = nrefs X J s u" for u
      using nrefs_put [OF k0, of ?k2 X J u] n [of u] by (cases "u = t") simp_all
    have fr2: "frames_of u ?s1 = frames_of u s" for u by (simp add: fr)
    have "sinv th X J ?s2"
    proof (rule sinv_but_close)
      show "sinv_but th X J t ?s2"
        using sinv_globals [OF inv] size ts
        by (intro sinv_but_step [OF sinv_butI [OF inv]]) (simp_all add: at n2 fr del: nrefs_push)
      show "task_at t ?s2 = Inr ?k2" by (simp add: at)
      show "unat (ts_refcount (tk_state ?k2)) = nrefs X J ?s2 t" using K(1) by (simp add: n2 del: nrefs_push)
      show "0 < nrefs X J ?s2 t" using K(2) by (simp add: n2 del: nrefs_push)
    qed (use K t0 False nr fs in \<open>auto simp: fr task_ok_def Let_def\<close>)
    then show ?thesis using res by (intro disjI2 exI [of _ ?s1]) simp
  qed
qed

text \<open>The loop: it ends with the queue empty and every task complete, or in the drop of a future.\<close>

lemma tset_drain_ok:
  assumes C: "linked_list C"
  shows "sinv th X J s \<Longrightarrow> tset_closed s \<Longrightarrow> tset_borrowed s \<Longrightarrow>
    (\<And>t k. task_at t s = Inr k \<Longrightarrow> \<not> contains RUNNING (tk_state k)) \<Longrightarrow>
    \<exists>s'. tset_drain C th s = Some (Inr s') \<and> sinv th X J s' \<and> tset_closed s' \<and>
      ((\<exists>t. stack s' = Shutting t # stack s \<and> tset_borrowed s' \<and> length (tset s') < length (tset s)) \<or>
       (stack s' = stack s \<and> \<not> tset_borrowed s' \<and> runq s' = [] \<and> tset s' = [] \<and>
        (\<forall>t k. task_at t s' = Inr k \<longrightarrow> contains COMPLETE (tk_state k))))"
proof (induction "length (tset s)" arbitrary: s)
  case 0
  then have ts: "tset s = []" by simp
  let ?s = "s\<lparr>tset := [], tset_borrowed := False\<rparr>"
  have "sinv th X J ?s"
    using "0.prems"(1) ts by (simp add: sinv_def nrefs_def sys_refs_def frames_of_def cong: sum.case_cong)
  from runq_take_ok [OF this] show ?case
    using ts "0.prems"(2) by (subst tset_drain.simps) (auto simp: linked_list.pop_front_law [OF C])
next
  case (Suc n)
  then obtain t ts where ts: "tset s = t # ts" "length ts = n" by (cases "tset s") auto
  note prems = Suc.prems
  have step: "tset_drain C th s = (case task_shutdown t (s\<lparr>tset := ts\<rparr>) of
      Inl f \<Rightarrow> Some (Inl f)
    | Inr (drops, s1) \<Rightarrow>
        if drops then Some (Inr (push_frame (Shutting t) s1))
        else (case tset_drained C th t s1 of Inl f \<Rightarrow> Some (Inl f) | Inr s2 \<Rightarrow> tset_drain C th s2))"
    by (subst tset_drain.simps) (simp add: linked_list.pop_front_law [OF C] ts)
  have "\<forall>k. task_at t s = Inr k \<longrightarrow> \<not> contains RUNNING (tk_state k)" using prems(4) by blast
  from task_shutdown_ok [OF prems(1) ts(1) this] show ?case
  proof (elim disjE exE conjE)
    fix s1 assume s1: "task_shutdown t (s\<lparr>tset := ts\<rparr>) = Inr (False, s1)"
      "sinv th (t # X) J (s1\<lparr>tset_size := tset_size s1 - 1\<rparr>)" "tset s1 = ts" "tset_size s1 = tset_size s"
      "stack s1 = stack s" "tset_borrowed s1 = tset_borrowed s" "tset_closed s1 = tset_closed s"
      "\<forall>u k'. task_at u s1 = Inr k' \<longrightarrow> (\<exists>k. task_at u s = Inr k \<and> contains RUNNING (tk_state k') = contains RUNNING (tk_state k))"
    obtain s2 where s2: "release th t (s1\<lparr>tset_size := tset_size s1 - 1\<rparr>) = Inr s2" "sinv th X J s2"
      "same_rest (s1\<lparr>tset_size := tset_size s1 - 1\<rparr>) s2" "kept (s1\<lparr>tset_size := tset_size s1 - 1\<rparr>) s2"
      using release_ok [OF s1(2)] by blast
    have "0 < unat (tset_size s1)" using sinv_globals(2) [OF prems(1)] ts s1(4) by simp
    then have drained: "tset_drained C th t s1 = Inr s2" using s2(1) tset_drained_eq(1) by simp
    have idle: "\<not> contains RUNNING (tk_state k)" if "task_at u s2 = Inr k" for u k
      using kept_task [OF s2(4) that] s1(8) prems(4) by (fastforce simp: refs_only_simps)
    have "\<exists>s'. tset_drain C th s2 = Some (Inr s') \<and> sinv th X J s' \<and> tset_closed s' \<and>
      ((\<exists>t. stack s' = Shutting t # stack s2 \<and> tset_borrowed s' \<and> length (tset s') < length (tset s2)) \<or>
       (stack s' = stack s2 \<and> \<not> tset_borrowed s' \<and> runq s' = [] \<and> tset s' = [] \<and>
        (\<forall>t k. task_at t s' = Inr k \<longrightarrow> contains COMPLETE (tk_state k))))"
      using s1 s2(2,3) ts prems(2,3) by (intro Suc.hyps(1) idle) (auto simp: same_rest_def)
    then show ?thesis using s1(1,3,5) s2(3) ts drained by (fastforce simp: step same_rest_def)
  next
    fix s1 assume s1: "task_shutdown t (s\<lparr>tset := ts\<rparr>) = Inr (True, s1)" "sinv th X J (push_frame (Shutting t) s1)"
      "stack s1 = stack s" "tset s1 = ts" "tset_borrowed s1 = tset_borrowed s" "tset_closed s1 = tset_closed s"
    then show ?thesis using prems(2,3) ts by (simp add: step)
  qed
qed

section \<open>Spawning\<close>

lemma task_new_simps [simp]:
  "tk_state (task_new th) = task_state_new" "tk_waker (task_new th) = None" "tk_thread (task_new th) = th"
  "tk_cell (task_new th) = Fut" "tk_borrowed (task_new th) = False"
  by (simp_all add: task_new_def)

lemma spawn_heap:
  assumes inv: "sinv th X J s"
  defines "s1 \<equiv> s\<lparr>heap := heap s @ [Some (task_new th)]\<rparr>"
  shows "task_at u s1 = (if u = length (heap s) then Inr (task_new th) else task_at u s)"
    and "nrefs Y K s1 u = nrefs Y K s u" and "nrefs X J s (length (heap s)) = 0" and "frames_of u s1 = frames_of u s"
proof -
  show "task_at u s1 = (if u = length (heap s) then Inr (task_new th) else task_at u s)"
    by (auto simp: task_at_def s1_def nth_append split: option.splits)
  show "nrefs Y K s1 u = nrefs Y K s u"
    by (simp add: nrefs_def sys_refs_def s1_def count_list_append header_refs_def)
  have "\<nexists>k. task_at (length (heap s)) s = Inr k" by (simp add: task_at_def)
  then show "nrefs X J s (length (heap s)) = 0" using sinv_live [OF inv] by blast
  show "frames_of u s1 = frames_of u s" by (simp add: frames_of_def s1_def)
qed

lemma queue_spawn_ok:
  assumes C: "linked_list C" and inv: "sinv th X J s" and nb: "\<not> tset_borrowed s"
    and small: "unat (tset_size s) + 1 < 2 ^ 64"
  shows "\<exists>s'. queue_spawn C th s = Inr (length (heap s), s') \<and> sinv th X (length (heap s) # J) s' \<and>
    \<not> tset_borrowed s' \<and> tset_closed s' = tset_closed s \<and> length (heap s') = Suc (length (heap s)) \<and>
    (if tset_closed s then stack s' = Refusing (length (heap s)) # stack s \<and> runq s' = runq s
     else stack s' = stack s \<and> runq s' = runq s @ [length (heap s)])"
proof -
  let ?t = "length (heap s)" let ?k = "task_new th"
  let ?s1 = "s\<lparr>heap := heap s @ [Some ?k]\<rparr>"
  note H = spawn_heap [OF inv]
  have zero: "count_list X ?t = 0" "count_list J ?t = 0" "count_list (runq s) ?t = 0" "count_list (tset s) ?t = 0"
    "?t \<notin> set J"
    using H(3) by (auto simp: nrefs_def sys_refs_def count_list_append count_list_0_iff)
  have fr: "frames_of ?t s = []"
  proof -
    have "count_list (concat (map frame_refs (stack s))) ?t = 0"
      using H(3) by (simp add: nrefs_def sys_refs_def count_list_append)
    moreover have "?t \<in> set (frame_refs f)" if "frame_task f = ?t" for f using that by (cases f) auto
    ultimately show ?thesis by (auto simp: frames_of_def filter_empty_conv count_list_0_iff)
  qed
  have k1: "task_at ?t ?s1 = Inr ?k" by (simp add: H(1))
  have cl: "is_closed ?s1 = Inr (tset_closed s)" using nb by (simp add: is_closed_def)
  show ?thesis
  proof (cases "tset_closed s")
    case True
    let ?k2 = "?k\<lparr>tk_state := insert_flag COMPLETE (insert_flag CANCELLED task_state_new)\<rparr>"
    let ?k3 = "?k2\<lparr>tk_borrowed := True, tk_cell := Result (Inl Task_Cancelled)\<rparr>"
    let ?s3 = "push_frame (Refusing ?t) (put_task ?t ?k3 ?s1)"
    have "update_state ?t shutdown ?s1 = Inr (Not_Completed, put_task ?t ?k2 ?s1)"
      by (simp add: update_state_def k1 shutdown_def state_update_def Let_def del: and_then_eq_Inr)
    moreover have "cell_cancel ?t (put_task ?t ?k2 ?s1) = Inr (put_task ?t ?k3 ?s1)"
      using cell_cancel_eq [of ?t "put_task ?t ?k2 ?s1" ?k2] by (simp add: task_at_put [OF k1])
    ultimately have "queue_spawn C th s = Inr (?t, ?s3)"
      using True cl by (simp add: queue_spawn_def tset_bind_def Let_def task_shutdown_def)
    moreover have "sinv th X (?t # J) ?s3"
    proof (rule sinv_but_close)
      have at3: "task_at u ?s3 = task_at u s" if "u \<noteq> ?t" for u
        using that task_at_put [OF k1] H(1) by simp
      have n3: "nrefs X (?t # J) ?s3 u = nrefs X J s u" if "u \<noteq> ?t" for u
        using that nrefs_put [OF k1, of ?k3] H(2) by simp
      show "sinv_but th X (?t # J) ?t ?s3"
        using sinv_globals [OF inv] zero
        by (intro sinv_but_step [OF sinv_butI [OF inv]]) (auto simp: at3 n3 H(4) simp del: task_at_frame nrefs_push nrefs_Cons_J)
      show "task_at ?t ?s3 = Inr ?k3" using task_at_put [OF k1] by simp
    qed (use zero fr H(3) in \<open>auto simp: nrefs_put [OF k1] H(2,4) task_ok_def Let_def\<close>)
    ultimately show ?thesis using True nb by (intro exI [of _ ?s3]) simp
  next
    case False
    let ?k2 = "inc ?k" and ?n = "tset_size s + 1"
    let ?s2 = "put_task ?t ?k2 ?s1"
    let ?s3 = "?s2\<lparr>tset := tset s @ [?t], tset_size := ?n\<rparr>"
    let ?s4 = "schedule ?t ?s3"
    have two: "unat (ts_refcount (tk_state ?k)) = 2" by simp
    have "clone_handle ?t ?s1 = Inr ?s2"
      using clone_handle_eq [OF k1] two by simp
    moreover have sum: "unat (tset_size s) + unat (1 :: usize) < 2 ^ LENGTH(64)" using small by simp
    then have "add_word (debug_assertions C) (tset_size s) 1 = Inr ?n"
      using add_word_no_overflow by blast
    ultimately have "queue_spawn C th s = Inr (?t, ?s4)"
      using False cl by (simp add: queue_spawn_def tset_bind_def Let_def linked_list.push_back_law [OF C])
    moreover have "sinv th X (?t # J) ?s4"
    proof (rule sinv_but_close)
      have at4: "task_at u ?s4 = (if u = ?t then Inr ?k2 else task_at u s)" for u
        using task_at_put [OF k1] H(1) by simp
      have n4: "nrefs X (?t # J) ?s4 u = nrefs X J s u + (if u = ?t then 3 else 0)" for u
        using nrefs_put [OF k1, of ?k2 X "?t # J" u] H(2) [of X "?t # J" u]
        by (cases "u = ?t")
          (simp_all add: nrefs_def sys_refs_def schedule_def count_list_append)
      have fr4: "frames_of u ?s3 = frames_of u s" for u by (simp add: frames_of_def)
      show "sinv_but th X (?t # J) ?t ?s4"
        using sinv_globals [OF inv] zero unat_add_no_overflow [OF sum]
        by (intro sinv_but_step [OF sinv_butI [OF inv]])
          (auto simp: at4 n4 fr4 count_list_append linked_list.push_back_law [OF C]
            simp del: task_at_frame nrefs_schedule nrefs_Cons_J)
      show "task_at ?t ?s4 = Inr ?k2" by (simp only: at4 if_True simp_thms)
      show "unat (ts_refcount (tk_state ?k2)) = nrefs X (?t # J) ?s4 ?t"
        using unat_inc [of ?k] two H(3) by (simp only: n4) simp
      show "0 < nrefs X (?t # J) ?s4 ?t" by (simp only: n4) simp
      show "task_ok ?k2 (count_list (runq ?s4) ?t) (count_list (tset ?s4) ?t) (?t \<in> set (?t # J)) (frames_of ?t ?s4)"
        using zero fr by (simp add: fr4 task_ok_def count_list_append)
    qed simp
    ultimately show ?thesis using False nb by (intro exI [of _ ?s4]) simp
  qed
qed

end
