(* ===== verification/Task_Machine.thy ===== *)
theory Task_Machine
  imports Task_Lifecycle
begin

text \<open>
  The task system with its user: a machine whose state is the system, the wakers the user code holds and
  the join handles it holds, and whose commands are the calls user code and the executor can
  make, and the returns of the user code the system calls. \<open>allowed\<close> is the discipline Rust's ownership
  enforces (only a handle that is held may be used) and what the crate asks of its user besides: no
  reference count at its maximum, a join handle is not polled after it was ready, the queue is shut down
  from outside its tasks, and nothing is spawned or run from a destructor that the shutdown calls.
\<close>

record machine =
  mc_sys :: tsys
  mc_held :: "nat list"
  mc_joins :: "nat list"

datatype command =
    Spawn | Run_Next | Poll_End outcome | Drop_End
  | Clone_Waker nat | Wake nat | Wake_By_Ref nat | Drop_Waker nat
  | Poll_Join nat waker | Abort_Join nat | Drop_Join nat | Shut_Down

definition machine_new :: "env \<Rightarrow> machine" where
  "machine_new C = \<lparr> mc_sys = tsys_new C, mc_held = [], mc_joins = [] \<rparr>"

definition lift_sys :: "machine \<Rightarrow> fault + tsys \<Rightarrow> fault + machine" where
  "lift_sys m r = and_then r (\<lambda>s. Inr (m\<lparr>mc_sys := s\<rparr>))"

fun exec :: "env \<Rightarrow> nat \<Rightarrow> command \<Rightarrow> machine \<Rightarrow> (fault + machine) option" where
  "exec C th Spawn m = Some (and_then (queue_spawn C th (mc_sys m)) (\<lambda>(t, s).
     Inr (m\<lparr>mc_sys := s, mc_joins := t # mc_joins m\<rparr>)))"
| "exec C th Run_Next m = (case queue_next (mc_sys m) of
     (None, s) \<Rightarrow> Some (Inr (m\<lparr>mc_sys := s\<rparr>))
   | (Some t, s) \<Rightarrow> Some (lift_sys m (task_poll C th t s)))"
| "exec C th (Poll_End out) m = (case stack (mc_sys m) of
     f # st \<Rightarrow> Some (lift_sys m (poll_end C th out (frame_task f) ((mc_sys m)\<lparr>stack := st\<rparr>)))
   | [] \<Rightarrow> Some (Inl Panic))"
| "exec C th Drop_End m = (case stack (mc_sys m) of
     f # st \<Rightarrow> map_option (lift_sys m) (drop_end C th f ((mc_sys m)\<lparr>stack := st\<rparr>))
   | [] \<Rightarrow> Some (Inl Panic))"
| "exec C th (Clone_Waker t) m = Some (and_then (waker_clone th t (mc_sys m)) (\<lambda>s.
     Inr (m\<lparr>mc_sys := s, mc_held := t # mc_held m\<rparr>)))"
| "exec C th (Wake t) m = Some (and_then (waker_wake_val th t (mc_sys m)) (\<lambda>s.
     Inr (m\<lparr>mc_sys := s, mc_held := remove1 t (mc_held m)\<rparr>)))"
| "exec C th (Wake_By_Ref t) m = Some (lift_sys m (waker_wake_ref th t (mc_sys m)))"
| "exec C th (Drop_Waker t) m = Some (and_then (waker_drop th t (mc_sys m)) (\<lambda>s.
     Inr (m\<lparr>mc_sys := s, mc_held := remove1 t (mc_held m)\<rparr>)))"
| "exec C th (Poll_Join t w) m = Some (and_then (join_poll th t w (mc_sys m)) (\<lambda>(r, s). Inr (m\<lparr>mc_sys := s\<rparr>)))"
| "exec C th (Abort_Join t) m = Some (lift_sys m (join_abort t (mc_sys m)))"
| "exec C th (Drop_Join t) m = Some (and_then (join_drop th t (mc_sys m)) (\<lambda>s.
     Inr (m\<lparr>mc_sys := s, mc_joins := remove1 t (mc_joins m)\<rparr>)))"
| "exec C th Shut_Down m = map_option (lift_sys m) (queue_shutdown C th (mc_sys m))"

section \<open>The discipline\<close>

definition roomy :: "tsys \<Rightarrow> bool" where
  "roomy s \<longleftrightarrow> (\<forall>x \<in> set (heap s). case x of None \<Rightarrow> True
     | Some k \<Rightarrow> ts_refcount (tk_state k) \<noteq> - 1)"

definition usable :: "nat \<Rightarrow> machine \<Rightarrow> bool" where
  "usable t m \<longleftrightarrow> t \<in> set (mc_held m) \<or> Polling t \<in> set (stack (mc_sys m))"

definition joinable :: "nat \<Rightarrow> machine \<Rightarrow> bool" where
  "joinable t m \<longleftrightarrow> t \<in> set (mc_joins m) \<and> (case task_at t (mc_sys m) of
     Inl _ \<Rightarrow> False
   | Inr k \<Rightarrow> contains COMPLETE (tk_state k) \<longrightarrow> \<not> tk_borrowed k \<and> tk_cell k \<noteq> Cell_Empty)"

fun allowed :: "command \<Rightarrow> machine \<Rightarrow> bool" where
  "allowed Spawn m = (\<not> tset_borrowed (mc_sys m) \<and> tset_size (mc_sys m) \<noteq> - 1)"
| "allowed Run_Next m = (\<not> tset_borrowed (mc_sys m) \<and> roomy (mc_sys m))"
| "allowed (Poll_End out) m = (roomy (mc_sys m) \<and> (case stack (mc_sys m) of Polling t # _ \<Rightarrow> True | _ \<Rightarrow> False))"
| "allowed Drop_End m = (roomy (mc_sys m) \<and> (case stack (mc_sys m) of [] \<Rightarrow> False | Polling t # _ \<Rightarrow> False | _ \<Rightarrow> True))"
| "allowed (Clone_Waker t) m = (roomy (mc_sys m) \<and> usable t m)"
| "allowed (Wake t) m = (roomy (mc_sys m) \<and> t \<in> set (mc_held m))"
| "allowed (Wake_By_Ref t) m = (roomy (mc_sys m) \<and> usable t m)"
| "allowed (Drop_Waker t) m = (t \<in> set (mc_held m))"
| "allowed (Poll_Join t w) m = (roomy (mc_sys m) \<and> joinable t m \<and> (\<forall>u \<in> set (waker_refs w). usable u m))"
| "allowed (Abort_Join t) m = (roomy (mc_sys m) \<and> t \<in> set (mc_joins m))"
| "allowed (Drop_Join t) m = (t \<in> set (mc_joins m))"
| "allowed Shut_Down m = (stack (mc_sys m) = [])"

inductive reachable :: "env \<Rightarrow> nat \<Rightarrow> machine \<Rightarrow> bool" for C th where
  init: "reachable C th (machine_new C)"
| step: "reachable C th m \<Longrightarrow> allowed c m \<Longrightarrow> exec C th c m = Some (Inr m') \<Longrightarrow> reachable C th m'"

text \<open>The run of a list of commands, which is defined if each is allowed and succeeds.\<close>

fun exec_all :: "env \<Rightarrow> nat \<Rightarrow> command list \<Rightarrow> machine \<Rightarrow> machine option" where
  "exec_all C th [] m = Some m"
| "exec_all C th (c # cs) m = (if allowed c m
     then (case exec C th c m of Some (Inr m') \<Rightarrow> exec_all C th cs m' | _ \<Rightarrow> None) else None)"

lemma exec_all_reachable:
  "reachable C th m \<Longrightarrow> exec_all C th cs m = Some m' \<Longrightarrow> reachable C th m'"
  by (induction cs arbitrary: m) (auto split: if_splits option.splits sum.splits intro: reachable.step)

section \<open>The invariant of the machine\<close>

text \<open>The set is borrowed exactly while the shutdown drops a future, and then nothing else runs.\<close>

definition stack_ok :: "tsys \<Rightarrow> bool" where
  "stack_ok s \<longleftrightarrow> (if tset_borrowed s then tset_closed s \<and> (\<exists>t. stack s = [Shutting t])
     else \<forall>t. Shutting t \<notin> set (stack s))"

definition minv :: "nat \<Rightarrow> machine \<Rightarrow> bool" where
  "minv th m \<longleftrightarrow> sinv th (mc_held m) (mc_joins m) (mc_sys m) \<and> stack_ok (mc_sys m)"

lemma not_max_room:
  fixes w :: "'a::len word"
  assumes "w \<noteq> - 1"
  shows "unat w + 1 < 2 ^ LENGTH('a)"
proof -
  have "unat w \<noteq> unat (- 1 :: 'a word)" using assms by (metis word_unat_eq_iff)
  then have "unat w \<noteq> 2 ^ LENGTH('a) - 1" by (simp add: unsigned_minus_1_eq_mask mask_eq_exp_minus_1)
  moreover have "unat w < 2 ^ LENGTH('a)" by (rule unsigned_less)
  ultimately show ?thesis by linarith
qed

lemma roomy_room: "roomy s \<Longrightarrow> room_for s t"
  using not_max_room [where 'a = 32]
  by (auto simp: roomy_def room_for_def task_at_Inr dest!: nth_mem split: option.splits)

lemma usable_live:
  assumes "usable t m"
  shows "0 < nrefs (mc_held m) J (mc_sys m) t"
proof (cases "t \<in> set (mc_held m)")
  case True
  then show ?thesis using count_list_pos [OF True] by (simp add: nrefs_def)
next
  case False
  then have "Polling t \<in> set (stack (mc_sys m))" using assms by (simp add: usable_def)
  then have "t \<in> set (concat (map frame_refs (stack (mc_sys m))))" by force
  then have "0 < count_list (sys_refs (mc_sys m)) t"
    by (intro count_list_pos) (simp add: sys_refs_def)
  then show ?thesis by (simp add: nrefs_def)
qed

lemma joins_live:
  assumes "t \<in> set J"
  shows "0 < nrefs X J s t"
  using count_list_pos [OF assms] by (simp add: nrefs_def)

lemma sinv_X:
  assumes "sinv th X J s" and "\<And>u. count_list Y u = count_list X u"
  shows "sinv th Y J s"
  using assms by (simp add: sinv_def nrefs_def cong: sum.case_cong)

lemma held_first:
  assumes "sinv th X J s" and "t \<in> set X"
  shows "sinv th (t # remove1 t X) J s"
proof -
  have "count_list (t # remove1 t X) u = count_list X u" for u
    using count_list_pos [OF assms(2)] by (cases "u = t") (simp_all add: count_list_remove1)
  then show ?thesis by (intro sinv_X [OF assms(1)])
qed

lemma stack_ok_same:
  assumes "stack_ok s" and "stack s' = stack s" and "tset_borrowed s' = tset_borrowed s" and "tset_closed s' = tset_closed s"
  shows "stack_ok s'"
  using assms by (simp add: stack_ok_def)

lemma stack_ok_woke: "stack_ok s \<Longrightarrow> woke s s' \<Longrightarrow> stack_ok s'"
  by (rule stack_ok_same) (simp_all add: woke_rest)

lemma stack_ok_rest: "stack_ok s \<Longrightarrow> same_rest s s' \<Longrightarrow> stack_ok s'"
  by (rule stack_ok_same) (simp_all add: same_rest_def)

lemma minv_new: "linked_list C \<Longrightarrow> minv th (machine_new C)"
  by (simp add: minv_def machine_new_def tsys_new_def sinv_def stack_ok_def nrefs_def sys_refs_def
      task_at_def linked_list.list_new_law)

section \<open>Every allowed command succeeds\<close>

lemma exec_spawn:
  assumes C: "linked_list C" and inv: "minv th m" and al: "allowed Spawn m"
  shows "\<exists>m'. exec C th Spawn m = Some (Inr m') \<and> minv th m'"
proof -
  let ?s = "mc_sys m" let ?t = "length (heap ?s)"
  obtain s' where s': "queue_spawn C th ?s = Inr (?t, s')" "sinv th (mc_held m) (?t # mc_joins m) s'" "\<not> tset_borrowed s'"
    "if tset_closed ?s then stack s' = Refusing ?t # stack ?s \<and> runq s' = runq ?s
     else stack s' = stack ?s \<and> runq s' = runq ?s @ [?t]"
    using queue_spawn_ok [OF C, of th "mc_held m" "mc_joins m" ?s] not_max_room [of "tset_size ?s"] inv al
    by (auto simp: minv_def)
  have "stack_ok s'" using inv al s'(3,4) by (auto simp: minv_def stack_ok_def split: if_splits)
  then show ?thesis using s' by (simp add: minv_def)
qed

lemma exec_run:
  assumes C: "linked_list C" and inv: "minv th m" and al: "allowed Run_Next m"
  shows "\<exists>m'. exec C th Run_Next m = Some (Inr m') \<and> minv th m'"
proof (cases "runq (mc_sys m)")
  case Nil
  then show ?thesis using inv by (simp add: queue_next_def)
next
  case (Cons t ts)
  let ?s = "mc_sys m"
  have si: "sinv th (mc_held m) (mc_joins m) ?s" using inv by (simp add: minv_def)
  have "0 < nrefs (mc_held m) (mc_joins m) ?s t" by (simp add: nrefs_def sys_refs_def Cons)
  then obtain k where k: "task_at t ?s = Inr k" using sinv_live [OF si] by blast
  obtain s' where s': "task_poll C th t (?s\<lparr>runq := ts\<rparr>) = Inr s'" "sinv th (mc_held m) (mc_joins m) s'"
    "tset_borrowed s' = tset_borrowed ?s" "stack s' = (if contains COMPLETE (tk_state k) then stack ?s
       else if contains CANCELLED (tk_state k) then Cancelling t False # stack ?s else Polling t # stack ?s)"
    using run_ok [OF C si Cons] roomy_room al k by fastforce
  have "stack_ok s'" using inv al s'(3,4) by (auto simp: minv_def stack_ok_def)
  then show ?thesis using s' Cons by (simp add: queue_next_def minv_def lift_sys_def)
qed

lemma poll_end_cases:
  assumes "sinv th X J s" and "stack s = Polling t # st" and "\<forall>u. room_for s u" and k: "task_at t s = Inr k"
  shows "\<exists>s'. poll_end C th out t (s\<lparr>stack := st\<rparr>) = Inr s' \<and> sinv th X J s' \<and> tset_borrowed s' = tset_borrowed s \<and>
    (stack s' = Finishing t # st \<or> stack s' = Cancelling t True # st \<or> stack s' = st)"
proof -
  obtain s' where s': "poll_end C th out t (s\<lparr>stack := st\<rparr>) = Inr s'" "sinv th X J s'" "tset_borrowed s' = tset_borrowed s"
    "out \<noteq> Out_Pending \<longrightarrow> stack s' = Finishing t # st"
    "out = Out_Pending \<longrightarrow> (if contains CANCELLED (tk_state k) then stack s' = Cancelling t True # st else stack s' = st)"
    using poll_end_ok [OF assms(1,2)] assms(3) k by (smt (verit, best))
  then show ?thesis by (cases "out = Out_Pending"; cases "contains CANCELLED (tk_state k)") auto
qed

lemma exec_poll_end:
  assumes inv: "minv th m" and al: "allowed (Poll_End out) m"
  shows "\<exists>m'. exec C th (Poll_End out) m = Some (Inr m') \<and> minv th m'"
proof -
  let ?s = "mc_sys m"
  obtain t st where stk: "stack ?s = Polling t # st" and rm: "roomy ?s"
    using al by (auto split: list.splits frame.splits)
  have si: "sinv th (mc_held m) (mc_joins m) ?s" using inv by (simp add: minv_def)
  obtain k where k: "task_at t ?s = Inr k" using top_frame [OF si stk] by auto
  obtain s' where s': "poll_end C th out t (?s\<lparr>stack := st\<rparr>) = Inr s'" "sinv th (mc_held m) (mc_joins m) s'"
    "tset_borrowed s' = tset_borrowed ?s" "stack s' = Finishing t # st \<or> stack s' = Cancelling t True # st \<or> stack s' = st"
    using poll_end_cases [OF si stk _ k, of C out] roomy_room [OF rm] by blast
  have "stack_ok s'" using inv s'(3,4) stk by (auto simp: minv_def stack_ok_def split: if_splits)
  then show ?thesis using s' stk by (auto simp: minv_def lift_sys_def)
qed

text \<open>The end of the drop of a future that the shutdown cancels resumes the loop of the shutdown.\<close>

definition shut_down :: "tsys \<Rightarrow> bool" where
  "shut_down s \<longleftrightarrow> stack s = [] \<and> tset_closed s \<and> \<not> tset_borrowed s \<and> runq s = [] \<and> tset s = [] \<and>
     (\<forall>t k. task_at t s = Inr k \<longrightarrow> contains COMPLETE (tk_state k))"

lemma shutting_end:
  assumes C: "linked_list C" and si: "sinv th X J s" and so: "stack_ok s" and stk: "stack s = Shutting t # st"
  shows "\<exists>s'. drop_end C th (Shutting t) (s\<lparr>stack := st\<rparr>) = Some (Inr s') \<and> sinv th X J s' \<and> stack_ok s' \<and>
    ((\<exists>u. stack s' = [Shutting u] \<and> length (tset s') < length (tset s)) \<or> shut_down s')"
proof -
  let ?sb = "s\<lparr>stack := st\<rparr>" and ?n = "tset_size s - 1"
  have b: "tset_borrowed s" "tset_closed s" "st = []"
    using so stk by (auto simp: stack_ok_def split: if_splits)
  have size: "unat (tset_size s) = length (tset s) + 1"
    using sinv_globals(2) [OF si] stk b(3) by simp
  have n: "unat ?n = length (tset s)" using tset_drained_eq(2) [of s] size by simp
  obtain k where k: "task_at t s = Inr k" "contains COMPLETE (tk_state k)"
    "cell_unborrow t ?sb = Inr (put_task t (k\<lparr>tk_borrowed := False\<rparr>) ?sb)"
    "sinv th (t # X) J ((put_task t (k\<lparr>tk_borrowed := False\<rparr>) ?sb)\<lparr>tset_size := ?n\<rparr>)"
    using drop_end_unborrow [OF si stk, of t] n b(3) by auto
  let ?sc = "put_task t (k\<lparr>tk_borrowed := False\<rparr>) ?sb"
  obtain s2 where s2: "release th t (?sc\<lparr>tset_size := ?n\<rparr>) = Inr s2" "sinv th X J s2"
    "same_rest (?sc\<lparr>tset_size := ?n\<rparr>) s2" "kept (?sc\<lparr>tset_size := ?n\<rparr>) s2"
    using release_ok [OF k(4)] by blast
  have rest: "stack s2 = []" "tset s2 = tset s" "tset_closed s2" "tset_borrowed s2"
    using s2(3) b by (simp_all add: same_rest_def)
  have drained: "tset_drained C th t ?sc = Inr s2" using tset_drained_eq(1) [of ?sc] size s2(1) by simp
  have fs: "frames_of u s2 = []" for u using rest(1) by (simp add: frames_of_def)
  have "\<not> contains RUNNING (tk_state k')" if "task_at u s2 = Inr k'" for u k'
    using sinv_task(4) [OF s2(2) that] fs by (auto simp: task_ok_def Let_def)
  then obtain s' where s': "tset_drain C th s2 = Some (Inr s')" "sinv th X J s'" "tset_closed s'"
    "(\<exists>t. stack s' = [Shutting t] \<and> tset_borrowed s' \<and> length (tset s') < length (tset s)) \<or>
     (stack s' = [] \<and> \<not> tset_borrowed s' \<and> runq s' = [] \<and> tset s' = [] \<and>
      (\<forall>t k. task_at t s' = Inr k \<longrightarrow> contains COMPLETE (tk_state k)))"
    using tset_drain_ok [OF C s2(2) rest(3,4)] rest(1,2) by metis
  have "stack_ok s'" using s'(3,4) by (auto simp: stack_ok_def)
  moreover have "drop_end C th (Shutting t) ?sb = Some (Inr s')"
    using s'(1) k(3) drained by (simp add: drop_end_def)
  ultimately show ?thesis using s'(2-4) by (auto simp: shut_down_def)
qed

lemma exec_drop_end:
  assumes C: "linked_list C" and inv: "minv th m" and al: "allowed Drop_End m"
  shows "\<exists>m'. exec C th Drop_End m = Some (Inr m') \<and> minv th m'"
proof -
  let ?s = "mc_sys m"
  obtain f st where stk: "stack ?s = f # st" and np: "\<And>t. f \<noteq> Polling t"
    using al by (auto split: list.splits frame.splits)
  let ?sb = "?s\<lparr>stack := st\<rparr>"
  have si: "sinv th (mc_held m) (mc_joins m) ?s" and so: "stack_ok ?s" using inv by (simp_all add: minv_def)
  have rm: "\<And>u. room_for ?s u" using al roomy_room by simp
  have nb: "\<not> tset_borrowed ?s" if "\<And>u. f \<noteq> Shutting u"
    using so stk that by (auto simp: stack_ok_def split: if_splits)
  have rest: "\<And>u. Shutting u \<notin> set st" using so stk by (auto simp: stack_ok_def split: if_splits)
  have "\<exists>s'. drop_end C th f ?sb = Some (Inr s') \<and> sinv th (mc_held m) (mc_joins m) s' \<and> stack_ok s'"
  proof (cases f)
    case (Polling t)
    then show ?thesis using np by simp
  next
    case (Cancelling t w)
    have ns: "\<not> tset_borrowed ?s" using nb Cancelling by simp
    obtain s' where s': "drop_end C th f ?sb = Some (Inr s')" "sinv th (mc_held m) (mc_joins m) s'"
      "tset_borrowed s' = tset_borrowed ?s" "stack s' = (if t \<in> set (mc_joins m) then st else Destroying t # st)"
      using drop_end_complete [OF C si ns rm stk, of t w] Cancelling by (auto simp: drop_end_def)
    then show ?thesis using ns rest by (auto simp: stack_ok_def)
  next
    case (Finishing t)
    have ns: "\<not> tset_borrowed ?s" using nb Finishing by simp
    obtain s' where s': "drop_end C th f ?sb = Some (Inr s')" "sinv th (mc_held m) (mc_joins m) s'"
      "tset_borrowed s' = tset_borrowed ?s" "stack s' = (if t \<in> set (mc_joins m) then st else Destroying t # st)"
      using drop_end_complete [OF C si ns rm stk, of t True] Finishing by (auto simp: drop_end_def)
    then show ?thesis using ns rest by (auto simp: stack_ok_def)
  next
    case (Destroying t)
    have ns: "\<not> tset_borrowed ?s" using nb Destroying by simp
    obtain k where k: "task_at t ?s = Inr k" "contains COMPLETE (tk_state k)"
      "cell_unborrow t ?sb = Inr (put_task t (k\<lparr>tk_borrowed := False\<rparr>) ?sb)"
      "sinv th (t # mc_held m) (mc_joins m) (put_task t (k\<lparr>tk_borrowed := False\<rparr>) ?sb)"
      using drop_end_unborrow [OF si stk, of t] Destroying by auto
    let ?sc = "put_task t (k\<lparr>tk_borrowed := False\<rparr>) ?sb"
    have k0: "task_at t ?sb = Inr k" using k(1) by simp
    have "contains COMPLETE (tk_state k')" if "task_at t ?sc = Inr k'" for k'
      using that k(2) by (auto simp: task_at_put [OF k0])
    moreover have "\<not> tset_borrowed ?sc" using ns by simp
    ultimately obtain s' where "complete_tail C th t ?sc = Inr s'" "sinv th (mc_held m) (mc_joins m) s'"
      "stack s' = st" "tset_borrowed s' = tset_borrowed ?s"
      using complete_tail_ok [OF C k(4)] by fastforce
    then show ?thesis using k(3) ns rest Destroying by (simp add: drop_end_def stack_ok_def)
  next
    case (Refusing t)
    have ns: "\<not> tset_borrowed ?s" using nb Refusing by simp
    obtain k where k: "cell_unborrow t ?sb = Inr (put_task t (k\<lparr>tk_borrowed := False\<rparr>) ?sb)"
      "sinv th (t # mc_held m) (mc_joins m) (put_task t (k\<lparr>tk_borrowed := False\<rparr>) ?sb)"
      using drop_end_unborrow [OF si stk, of t] Refusing by auto
    obtain s' where "release th t (put_task t (k\<lparr>tk_borrowed := False\<rparr>) ?sb) = Inr s'"
      "sinv th (mc_held m) (mc_joins m) s'" "same_rest (put_task t (k\<lparr>tk_borrowed := False\<rparr>) ?sb) s'"
      using release_ok [OF k(2)] by blast
    then show ?thesis using k(1) ns rest Refusing by (simp add: drop_end_def stack_ok_def same_rest_def)
  next
    case (Shutting t)
    then show ?thesis using shutting_end [OF C si so] stk by (metis (no_types, lifting))
  qed
  then show ?thesis using stk by (auto simp: minv_def lift_sys_def)
qed

lemma usable_task:
  assumes "minv th m" and "usable t m"
  shows "\<exists>k. task_at t (mc_sys m) = Inr k"
  using assms sinv_live [OF _ usable_live [OF assms(2)]] by (auto simp: minv_def)

lemma exec_wakers:
  assumes inv: "minv th m" and rm: "roomy (mc_sys m)"
  shows "usable t m \<Longrightarrow> \<exists>m'. exec C th (Clone_Waker t) m = Some (Inr m') \<and> minv th m'"
    "usable t m \<Longrightarrow> \<exists>m'. exec C th (Wake_By_Ref t) m = Some (Inr m') \<and> minv th m'"
    "t \<in> set (mc_held m) \<Longrightarrow> \<exists>m'. exec C th (Wake t) m = Some (Inr m') \<and> minv th m'"
proof -
  let ?s = "mc_sys m"
  have si: "sinv th (mc_held m) (mc_joins m) ?s" and so: "stack_ok ?s" using inv by (simp_all add: minv_def)
  show "\<exists>m'. exec C th (Clone_Waker t) m = Some (Inr m') \<and> minv th m'" if u: "usable t m"
    using waker_clone_ok [OF si usable_live [OF u] roomy_room [OF rm]] stack_ok_rest [OF so]
    by (auto simp: minv_def)
  show "\<exists>m'. exec C th (Wake_By_Ref t) m = Some (Inr m') \<and> minv th m'" if u: "usable t m"
  proof -
    obtain s' where "waker_wake_ref th t ?s = Inr s'" "sinv th (mc_held m) (mc_joins m) s'" "woke ?s s'"
      using waker_wake_ref_ok [OF si usable_live [OF u] roomy_room [OF rm]] by blast
    then show ?thesis using stack_ok_woke [OF so] by (simp add: minv_def lift_sys_def)
  qed
  show "\<exists>m'. exec C th (Wake t) m = Some (Inr m') \<and> minv th m'" if u: "t \<in> set (mc_held m)"
  proof -
    obtain s' where "waker_wake_val th t ?s = Inr s'" "sinv th (remove1 t (mc_held m)) (mc_joins m) s'" "woke ?s s'"
      using waker_wake_val_ok [OF held_first [OF si u] roomy_room [OF rm]] by blast
    then show ?thesis using stack_ok_woke [OF so] by (simp add: minv_def)
  qed
qed

lemma exec_drop_waker:
  assumes inv: "minv th m" and u: "t \<in> set (mc_held m)"
  shows "\<exists>m'. exec C th (Drop_Waker t) m = Some (Inr m') \<and> minv th m'"
proof -
  have si: "sinv th (mc_held m) (mc_joins m) (mc_sys m)" and so: "stack_ok (mc_sys m)" using inv by (simp_all add: minv_def)
  obtain s' where "waker_drop th t (mc_sys m) = Inr s'" "sinv th (remove1 t (mc_held m)) (mc_joins m) s'" "same_rest (mc_sys m) s'"
    using waker_drop_ok [OF held_first [OF si u]] by blast
  then show ?thesis using stack_ok_rest [OF so] by (simp add: minv_def)
qed

lemma exec_joins:
  assumes inv: "minv th m" and al: "allowed c m" and c: "c \<in> {Poll_Join t w, Abort_Join t, Drop_Join t}"
  shows "\<exists>m'. exec C th c m = Some (Inr m') \<and> minv th m'"
proof -
  let ?s = "mc_sys m"
  have si: "sinv th (mc_held m) (mc_joins m) ?s" and so: "stack_ok ?s" using inv by (simp_all add: minv_def)
  have j: "t \<in> set (mc_joins m)" using al c by (auto simp: joinable_def)
  obtain k where k: "task_at t ?s = Inr k" using sinv_live [OF si joins_live [OF j]] by blast
  consider "c = Poll_Join t w" | "c = Abort_Join t" | "c = Drop_Join t" using c by blast
  then show ?thesis
  proof cases
    case 1
    have rm: "roomy ?s" and us: "\<And>u. u \<in> set (waker_refs w) \<Longrightarrow> usable u m"
      and rd: "contains COMPLETE (tk_state k) \<Longrightarrow> \<not> tk_borrowed k \<and> tk_cell k \<noteq> Cell_Empty"
      using al k 1 by (simp_all add: joinable_def)
    have lv: "0 < nrefs (mc_held m) (mc_joins m) ?s u \<and> room_for ?s u" if "u \<in> set (waker_refs w)" for u
      using usable_live [OF us [OF that]] roomy_room [OF rm] by simp
    obtain r s' where s': "join_poll th t w ?s = Inr (r, s')" "sinv th (mc_held m) (mc_joins m) s'"
      "stack s' = stack ?s" "tset_borrowed s' = tset_borrowed ?s" "tset_closed s' = tset_closed ?s"
      using join_poll_ok [OF si j k lv rd] by blast
    then show ?thesis using stack_ok_same [OF so s'(3-5)] 1 by (simp add: minv_def)
  next
    case 2
    have rm: "roomy ?s" using al 2 by simp
    obtain s' where s': "join_abort t ?s = Inr s'" "sinv th (mc_held m) (mc_joins m) s'"
      "stack s' = stack ?s" "tset_borrowed s' = tset_borrowed ?s" "tset_closed s' = tset_closed ?s"
      using join_abort_ok [OF si j k roomy_room [OF rm]] by blast
    then show ?thesis using stack_ok_same [OF so s'(3-5)] 2 by (simp add: minv_def lift_sys_def)
  next
    case 3
    obtain s' where s': "join_drop th t ?s = Inr s'" "sinv th (mc_held m) (remove1 t (mc_joins m)) s'" "same_rest ?s s'"
      using join_drop_ok [OF si j] by blast
    then show ?thesis using stack_ok_rest [OF so s'(3)] 3 by (simp add: minv_def)
  qed
qed

text \<open>The shutdown from outside the tasks: it ends, or stops at the drop of a future.\<close>

lemma shutdown_ok:
  assumes C: "linked_list C" and inv: "minv th m" and st: "stack (mc_sys m) = []"
  shows "\<exists>s'. queue_shutdown C th (mc_sys m) = Some (Inr s') \<and> sinv th (mc_held m) (mc_joins m) s' \<and>
    stack_ok s' \<and> ((\<exists>t. stack s' = [Shutting t]) \<or> shut_down s')"
proof -
  let ?s = "mc_sys m" let ?b = "?s\<lparr>tset_borrowed := True, tset_closed := True\<rparr>"
  have si: "sinv th (mc_held m) (mc_joins m) ?s" and nb: "\<not> tset_borrowed ?s"
    using inv st by (auto simp: minv_def stack_ok_def)
  have same: "task_at t ?b = task_at t ?s" "nrefs (mc_held m) (mc_joins m) ?b t = nrefs (mc_held m) (mc_joins m) ?s t"
    "frames_of t ?b = frames_of t ?s" for t
    by (simp_all add: nrefs_def sys_refs_def frames_of_def task_at_def)
  have si': "sinv th (mc_held m) (mc_joins m) ?b"
    using si by (simp add: sinv_def same cong: sum.case_cong)
  have "frames_of t ?b = []" for t using st by (simp add: frames_of_def)
  then have "\<not> contains RUNNING (tk_state k)" if "task_at t ?b = Inr k" for t k
    using sinv_task(4) [OF si' that] by (auto simp: task_ok_def Let_def)
  then obtain s' where s': "tset_drain C th ?b = Some (Inr s')" "sinv th (mc_held m) (mc_joins m) s'" "tset_closed s'"
    "(\<exists>t. stack s' = Shutting t # stack ?s \<and> tset_borrowed s') \<or>
     (stack s' = stack ?s \<and> \<not> tset_borrowed s' \<and> runq s' = [] \<and> tset s' = [] \<and>
      (\<forall>t k. task_at t s' = Inr k \<longrightarrow> contains COMPLETE (tk_state k)))"
    using tset_drain_ok [OF C si'] by fastforce
  then show ?thesis using nb st by (auto simp: queue_shutdown_def stack_ok_def shut_down_def)
qed

lemma step_safe:
  assumes C: "linked_list C" and inv: "minv th m" and al: "allowed c m"
  shows "\<exists>m'. exec C th c m = Some (Inr m') \<and> minv th m'"
proof (cases c)
  case Shut_Down
  then show ?thesis using shutdown_ok [OF C inv] al by (force simp: lift_sys_def minv_def)
next
  case (Poll_Join t w)
  then show ?thesis using exec_joins [OF inv al] by blast
next
  case (Abort_Join t)
  then show ?thesis using exec_joins [OF inv al] by blast
next
  case (Drop_Join t)
  then show ?thesis using exec_joins [OF inv al] by blast
next
  case Spawn
  then show ?thesis using exec_spawn [OF C inv] al by blast
next
  case Run_Next
  then show ?thesis using exec_run [OF C inv] al by blast
next
  case (Poll_End out)
  then show ?thesis using exec_poll_end [OF inv] al by blast
next
  case Drop_End
  then show ?thesis using exec_drop_end [OF C inv] al by blast
next
  case (Clone_Waker t)
  then show ?thesis using exec_wakers [OF inv] al by (metis allowed.simps(5))
next
  case (Wake t)
  then show ?thesis using exec_wakers [OF inv] al by (metis allowed.simps(6))
next
  case (Wake_By_Ref t)
  then show ?thesis using exec_wakers [OF inv] al by (metis allowed.simps(7))
next
  case (Drop_Waker t)
  then show ?thesis using exec_drop_waker [OF inv] al by (metis allowed.simps(8))
qed

lemma reachable_minv:
  assumes C: "linked_list C"
  shows "reachable C th m \<Longrightarrow> minv th m"
proof (induction rule: reachable.induct)
  case init
  then show ?case by (rule minv_new [OF C])
next
  case (step m c m')
  then show ?case using step_safe [OF C, of th m c] by fastforce
qed

text \<open>What the invariant says of a task.\<close>

lemma minv_task:
  assumes inv: "minv th m" and k: "task_at t (mc_sys m) = Inr k"
  shows "task_ok k (count_list (runq (mc_sys m)) t) (count_list (tset (mc_sys m)) t) (t \<in> set (mc_joins m)) (frames_of t (mc_sys m))"
    and "contains NOTIFIED (tk_state k) \<Longrightarrow> \<not> contains RUNNING (tk_state k) \<Longrightarrow> \<not> contains COMPLETE (tk_state k) \<Longrightarrow>
      t \<in> set (runq (mc_sys m))"
    and "t \<in> set (runq (mc_sys m)) \<Longrightarrow> contains NOTIFIED (tk_state k) \<and> \<not> contains RUNNING (tk_state k)"
    and "contains CANCELLED (tk_state k) \<Longrightarrow> \<not> contains RUNNING (tk_state k) \<Longrightarrow> \<not> contains COMPLETE (tk_state k) \<Longrightarrow>
      contains NOTIFIED (tk_state k)"
    and "Polling t \<in> set (stack (mc_sys m)) \<Longrightarrow> contains RUNNING (tk_state k) \<and> \<not> contains COMPLETE (tk_state k)"
proof -
  have si: "sinv th (mc_held m) (mc_joins m) (mc_sys m)" using inv by (simp add: minv_def)
  show ok: "task_ok k (count_list (runq (mc_sys m)) t) (count_list (tset (mc_sys m)) t) (t \<in> set (mc_joins m)) (frames_of t (mc_sys m))"
    using sinv_task(4) [OF si k] .
  show "t \<in> set (runq (mc_sys m))"
    if "contains NOTIFIED (tk_state k)" "\<not> contains RUNNING (tk_state k)" "\<not> contains COMPLETE (tk_state k)"
  proof -
    have "count_list (runq (mc_sys m)) t = 1" using ok that by (simp add: task_ok_def Let_def)
    then have "count_list (runq (mc_sys m)) t \<noteq> 0" by (simp only: one_neq_zero not_False_eq_True)
    then show ?thesis by (simp only: count_list_0_iff not_not)
  qed
  show "contains NOTIFIED (tk_state k) \<and> \<not> contains RUNNING (tk_state k)" if q: "t \<in> set (runq (mc_sys m))"
  proof -
    have "0 < count_list (runq (mc_sys m)) t" by (rule count_list_pos [OF q])
    then have "count_list (runq (mc_sys m)) t = 1" using ok by (auto simp: task_ok_def Let_def)
    then show ?thesis using ok by (simp add: task_ok_def Let_def)
  qed
  show "contains NOTIFIED (tk_state k)"
    if "contains CANCELLED (tk_state k)" "\<not> contains RUNNING (tk_state k)" "\<not> contains COMPLETE (tk_state k)"
    using ok that by (simp add: task_ok_def Let_def)
  show "contains RUNNING (tk_state k) \<and> \<not> contains COMPLETE (tk_state k)" if "Polling t \<in> set (stack (mc_sys m))"
  proof -
    have "Polling t \<in> set (frames_of t (mc_sys m))" using that by (simp add: frames_of_def)
    then have "\<exists>f \<in> set (frames_of t (mc_sys m)). running_frame f" by (rule bexI [rotated]) simp
    then show ?thesis using ok unfolding task_ok_def Let_def by blast
  qed
qed

text \<open>The drops a shutdown is interrupted by, one after the other.\<close>

fun drop_ends :: "env \<Rightarrow> nat \<Rightarrow> nat \<Rightarrow> machine \<Rightarrow> machine option" where
  "drop_ends C th 0 m = Some m"
| "drop_ends C th (Suc n) m = (case exec C th Drop_End m of
     Some (Inr m') \<Rightarrow> drop_ends C th n m' | _ \<Rightarrow> None)"

lemma drop_ends_finish:
  assumes C: "linked_list C"
  shows "minv th m \<Longrightarrow> stack (mc_sys m) = [Shutting t] \<Longrightarrow>
    \<exists>n m'. n \<le> Suc (length (tset (mc_sys m))) \<and> drop_ends C th n m = Some m' \<and> minv th m' \<and> shut_down (mc_sys m')"
proof (induction "length (tset (mc_sys m))" arbitrary: m t rule: less_induct)
  case less
  have si: "sinv th (mc_held m) (mc_joins m) (mc_sys m)" and so: "stack_ok (mc_sys m)"
    using less.prems(1) by (simp_all add: minv_def)
  obtain s' where s': "drop_end C th (Shutting t) ((mc_sys m)\<lparr>stack := []\<rparr>) = Some (Inr s')"
    "sinv th (mc_held m) (mc_joins m) s'" "stack_ok s'"
    "(\<exists>u. stack s' = [Shutting u] \<and> length (tset s') < length (tset (mc_sys m))) \<or> shut_down s'"
    using shutting_end [OF C si so less.prems(2)] by blast
  let ?m = "m\<lparr>mc_sys := s'\<rparr>"
  have e: "exec C th Drop_End m = Some (Inr ?m)" using s'(1) less.prems(2) by (simp add: lift_sys_def)
  have inv: "minv th ?m" using s'(2,3) by (simp add: minv_def)
  show ?case
  proof (cases "shut_down s'")
    case True
    then have "drop_ends C th (Suc 0) m = Some ?m" using e by simp
    then show ?thesis using inv True by (intro exI [of _ "Suc 0"] exI [of _ ?m]) simp
  next
    case False
    then obtain u where u: "stack s' = [Shutting u]" "length (tset s') < length (tset (mc_sys m))" using s'(4) by blast
    obtain n m' where "n \<le> Suc (length (tset s'))" "drop_ends C th n ?m = Some m'" "minv th m'" "shut_down (mc_sys m')"
      using less.hyps [of ?m u] u inv by auto
    then show ?thesis using u(2) e by (intro exI [of _ "Suc n"] exI [of _ m']) simp
  qed
qed

end
