(* ===== verification/Task_Properties.thy ===== *)
theory Task_Properties
  imports Task_Machine
begin

text \<open>
  The properties of the task system, over every reachable state of the machine, each with an instance on
  a concrete run. The instances use \<open>demo\<close>, the machine of a debug build after the given commands.
\<close>

section \<open>Concrete runs\<close>

definition demo :: "command list \<Rightarrow> machine" where
  "demo cs = (case exec_all (seq_env True) 1 cs (machine_new (seq_env True)) of
     None \<Rightarrow> machine_new (seq_env True) | Some m \<Rightarrow> m)"

lemma demo_reachable: "reachable (seq_env True) 1 (demo cs)"
  using exec_all_reachable [OF reachable.init, of "seq_env True" 1 cs]
  by (auto simp: demo_def reachable.init split: option.splits)

text \<open>A task that is polled, suspended with one waker kept by the user; and one polled again after its wake.\<close>

definition suspended :: machine where
  "suspended = demo [Spawn, Run_Next, Clone_Waker 0, Poll_End Out_Pending]"

definition polling :: machine where
  "polling = demo [Spawn, Run_Next, Clone_Waker 0, Wake_By_Ref 0]"

text \<open>A task that has finished with output 7 while a waker of another kind waits for it; its join handle.\<close>

definition finishing_run :: machine where
  "finishing_run = demo [Spawn, Poll_Join 0 (Ext_Waker 9), Run_Next, Poll_End (Out_Ready 7)]"

definition finished_run :: machine where
  "finished_run = demo [Spawn, Poll_Join 0 (Ext_Waker 9), Run_Next, Poll_End (Out_Ready 7), Drop_End]"

text \<open>Two suspended tasks; a shutdown that is dropping the first future; one whose set is closed.\<close>

definition two_tasks :: machine where
  "two_tasks = demo [Spawn, Spawn, Run_Next, Poll_End Out_Pending, Run_Next, Poll_End Out_Pending]"

definition closing :: machine where
  "closing = demo [Spawn, Spawn, Run_Next, Poll_End Out_Pending, Run_Next, Poll_End Out_Pending, Shut_Down]"

lemmas demo_defs = suspended_def polling_def finishing_run_def finished_run_def two_tasks_def closing_def

lemma runs_reachable:
  "reachable (seq_env True) 1 suspended" "reachable (seq_env True) 1 polling"
  "reachable (seq_env True) 1 finishing_run" "reachable (seq_env True) 1 finished_run"
  "reachable (seq_env True) 1 two_tasks" "reachable (seq_env True) 1 closing"
  by (simp_all only: demo_defs demo_reachable)

section \<open>Safety and reference counts\<close>

text \<open>
  C1: in every reachable state every call the interface allows succeeds: no assertion of the state word
  fails, no cell is borrowed twice, no freed task is used, no loop runs forever.
\<close>

theorem tasks_safe:
  assumes "linked_list C" and "reachable C th m" and "allowed c m"
  shows "\<exists>m'. exec C th c m = Some (Inr m') \<and> reachable C th m'"
  using step_safe [OF assms(1) reachable_minv [OF assms(1,2)] assms(3)] reachable.step [OF assms(2,3)] by blast

theorem tasks_safe_witness:
  "\<exists>m'. exec (seq_env True) 1 (Poll_End Out_Pending) polling = Some (Inr m') \<and> reachable (seq_env True) 1 m'"
proof (rule tasks_safe [OF linked_list_seq_env runs_reachable(2)])
  show "allowed (Poll_End Out_Pending) polling" by code_simp
qed

text \<open>
  C11: the reference count of a live task is exactly the number of handles to it (in the run queue, the
  task set, the headers, the running operations, the join handles and the wakers of the user), and there
  is no handle to a freed task.
\<close>

theorem refcount_exact:
  assumes "linked_list C" and "reachable C th m"
  shows "case task_at t (mc_sys m) of
      Inl _ \<Rightarrow> nrefs (mc_held m) (mc_joins m) (mc_sys m) t = 0
    | Inr k \<Rightarrow> unat (ts_refcount (tk_state k)) = nrefs (mc_held m) (mc_joins m) (mc_sys m) t \<and>
        0 < nrefs (mc_held m) (mc_joins m) (mc_sys m) t"
proof -
  have "sinv th (mc_held m) (mc_joins m) (mc_sys m)" using reachable_minv [OF assms] by (simp add: minv_def)
  then show ?thesis unfolding sinv_def by (auto dest!: conjunct1 spec [of _ t] split: sum.splits)
qed

theorem refcount_exact_witness:
  "case task_at 0 (mc_sys polling) of
      Inl _ \<Rightarrow> nrefs (mc_held polling) (mc_joins polling) (mc_sys polling) 0 = 0
    | Inr k \<Rightarrow> unat (ts_refcount (tk_state k)) = nrefs (mc_held polling) (mc_joins polling) (mc_sys polling) 0 \<and>
        0 < nrefs (mc_held polling) (mc_joins polling) (mc_sys polling) 0"
  by (rule refcount_exact [OF linked_list_seq_env runs_reachable(2)])

text \<open>
  Once no handle to a task is left anywhere and no header holds a waker, every task has been freed.
\<close>

theorem tasks_freed:
  assumes C: "linked_list C" and r: "reachable C th m"
    and out: "mc_held m = []" "mc_joins m = []"
    and sys: "runq (mc_sys m) = []" "tset (mc_sys m) = []" "stack (mc_sys m) = []"
    and wk: "\<And>t k. task_at t (mc_sys m) = Inr k \<Longrightarrow> tk_waker k = None"
  shows "task_at t (mc_sys m) = Inl Dangling"
proof -
  have h: "header_refs x = []" if "x \<in> set (heap (mc_sys m))" for x
  proof (cases x)
    case (Some k)
    then obtain i where "task_at i (mc_sys m) = Inr k" using \<open>x \<in> _\<close> by (auto simp: task_at_Inr in_set_conv_nth)
    then show ?thesis using wk Some by (simp add: header_refs_def)
  qed (simp add: header_refs_def)
  have "concat (map header_refs (heap (mc_sys m))) = []" using h by simp
  then have "nrefs (mc_held m) (mc_joins m) (mc_sys m) t = 0"
    by (simp add: nrefs_def sys_refs_def out sys)
  then have "\<nexists>k. task_at t (mc_sys m) = Inr k"
    using reachable_minv [OF C r] sinv_live [of th "mc_held m" "mc_joins m" "mc_sys m" t]
      sinv_task(2) [of th "mc_held m" "mc_joins m" "mc_sys m" t] by (auto simp: minv_def)
  then show ?thesis by (auto simp: task_at_def split: if_splits option.splits)
qed

definition all_done :: machine where
  "all_done = demo [Spawn, Run_Next, Poll_End (Out_Ready 7), Drop_End, Drop_Join 0]"

theorem tasks_freed_witness: "task_at 0 (mc_sys all_done) = Inl Dangling"
proof (rule tasks_freed [OF linked_list_seq_env, of True 1])
  show "reachable (seq_env True) 1 all_done" by (simp only: all_done_def demo_reachable)
  have e: "heap (mc_sys all_done) = [None]" by code_simp
  show "tk_waker k = None" if "task_at t (mc_sys all_done) = Inr k" for t k
    using that by (auto simp: task_at_Inr e)
qed code_simp+

definition waker_cycle :: machine where
  "waker_cycle = demo [Spawn, Spawn,
     Run_Next, Clone_Waker 0, Poll_Join 1 (Task_Waker 0), Poll_End Out_Pending,
     Run_Next, Clone_Waker 1, Poll_Join 0 (Task_Waker 1), Poll_End Out_Pending,
     Drop_Join 0, Drop_Join 1, Wake 0, Wake 1,
     Run_Next, Poll_End (Out_Ready 0), Drop_End, Drop_End,
     Run_Next, Poll_End (Out_Ready 0), Drop_End, Drop_End]"

text \<open>
  Two tasks that wait for each other's join handle, drop the
  handles and complete keep each other's waker, and stay allocated when nothing else refers to them.
\<close>

theorem waker_cycle_leaks:
  "reachable (seq_env True) 1 waker_cycle \<and> mc_held waker_cycle = [] \<and> mc_joins waker_cycle = [] \<and>
   runq (mc_sys waker_cycle) = [] \<and> tset (mc_sys waker_cycle) = [] \<and> stack (mc_sys waker_cycle) = [] \<and>
   live_count (mc_sys waker_cycle) = 2"
proof (intro conjI)
  show "reachable (seq_env True) 1 waker_cycle" by (simp only: waker_cycle_def demo_reachable)
qed code_simp+

section \<open>Scheduling\<close>

text \<open>
  C12: no task is queued twice, and a task that is not complete is in the run queue exactly if it is
  notified and not running.
\<close>

theorem run_queue_exact:
  assumes "linked_list C" and "reachable C th m"
    and "task_at t (mc_sys m) = Inr k" and "\<not> contains COMPLETE (tk_state k)"
  shows "distinct (runq (mc_sys m)) \<and>
    (t \<in> set (runq (mc_sys m)) \<longleftrightarrow> contains NOTIFIED (tk_state k) \<and> \<not> contains RUNNING (tk_state k))"
proof -
  note inv = reachable_minv [OF assms(1,2)]
  have "distinct (runq (mc_sys m))" using inv sinv_distinct(2) by (auto simp: minv_def)
  then show ?thesis using minv_task(2,3) [OF inv assms(3)] assms(4) by blast
qed

theorem run_queue_exact_witness: "distinct (runq (mc_sys suspended)) \<and> 0 \<notin> set (runq (mc_sys suspended))"
proof -
  let ?k = "\<lparr> tk_state = \<lparr> ts_flags = 8, ts_refcount = 3 \<rparr>, tk_waker = None, tk_thread = 1, tk_cell = Fut,
    tk_borrowed = False \<rparr>"
  have k: "task_at 0 (mc_sys suspended) = Inr ?k" and c: "\<not> contains COMPLETE (tk_state ?k)"
    and n: "\<not> contains NOTIFIED (tk_state ?k)"
    by code_simp+
  from run_queue_exact [OF linked_list_seq_env runs_reachable(1) k c] n show ?thesis by blast
qed

text \<open>
  C4: a wake is never lost: the task is complete, or it is in the run queue, or it is running with the
  notified flag set, so that the end of its poll puts it back.
\<close>

theorem wake_not_lost:
  assumes C: "linked_list C" and r: "reachable C th m" and al: "allowed (Wake_By_Ref t) m"
  shows "\<exists>m' k. exec C th (Wake_By_Ref t) m = Some (Inr m') \<and> task_at t (mc_sys m') = Inr k \<and>
    (contains COMPLETE (tk_state k) \<or> t \<in> set (runq (mc_sys m')) \<or>
     contains RUNNING (tk_state k) \<and> contains NOTIFIED (tk_state k))"
proof -
  have inv: "sinv th (mc_held m) (mc_joins m) (mc_sys m)" using reachable_minv [OF C r] by (simp add: minv_def)
  obtain s' k where s': "waker_wake_ref th t (mc_sys m) = Inr s'" "task_at t s' = Inr k"
    "contains NOTIFIED (tk_state k) \<or> contains COMPLETE (tk_state k)"
    using waker_wake_ref_ok [OF inv usable_live roomy_room] al unfolding allowed.simps by blast
  let ?m = "m\<lparr>mc_sys := s'\<rparr>"
  have e: "exec C th (Wake_By_Ref t) m = Some (Inr ?m)" using s'(1) by (simp add: lift_sys_def)
  have "minv th ?m" by (rule reachable_minv [OF C reachable.step [OF r al e]])
  then show ?thesis using minv_task(2) [of th ?m t k] s' e by auto
qed

theorem wake_not_lost_witness:
  "\<exists>m' k. exec (seq_env True) 1 (Wake_By_Ref 0) suspended = Some (Inr m') \<and> task_at 0 (mc_sys m') = Inr k \<and>
    (contains COMPLETE (tk_state k) \<or> 0 \<in> set (runq (mc_sys m')) \<or>
     contains RUNNING (tk_state k) \<and> contains NOTIFIED (tk_state k))"
proof (rule wake_not_lost [OF linked_list_seq_env runs_reachable(1)])
  show "allowed (Wake_By_Ref 0) suspended" by code_simp
qed

text \<open>
  A poll that returns pending hands the task back: it is cancelled when it was aborted meanwhile, and
  otherwise is in the run queue exactly if it was woken while it ran.
\<close>

theorem pending_poll_requeues:
  assumes C: "linked_list C" and r: "reachable C th m" and st: "stack (mc_sys m) = Polling t # st"
    and rm: "roomy (mc_sys m)" and k: "task_at t (mc_sys m) = Inr k"
  shows "\<exists>m'. exec C th (Poll_End Out_Pending) m = Some (Inr m') \<and>
    (if contains CANCELLED (tk_state k) then stack (mc_sys m') = Cancelling t True # st
     else stack (mc_sys m') = st \<and> (t \<in> set (runq (mc_sys m')) \<longleftrightarrow> contains NOTIFIED (tk_state k)))"
proof -
  have inv: "sinv th (mc_held m) (mc_joins m) (mc_sys m)" using reachable_minv [OF C r] by (simp add: minv_def)
  obtain s' where s': "poll_end C th Out_Pending t ((mc_sys m)\<lparr>stack := st\<rparr>) = Inr s'"
    "if contains CANCELLED (tk_state k) then stack s' = Cancelling t True # st
     else stack s' = st \<and> (t \<in> set (runq s') \<longleftrightarrow> contains NOTIFIED (tk_state k))"
    using poll_end_ok [OF inv st roomy_room [OF rm], of C Out_Pending] k by auto
  then show ?thesis by (simp add: st lift_sys_def)
qed

theorem pending_poll_requeues_witness:
  "\<exists>m'. exec (seq_env True) 1 (Poll_End Out_Pending) polling = Some (Inr m') \<and>
    stack (mc_sys m') = [] \<and> 0 \<in> set (runq (mc_sys m'))"
proof -
  obtain k where k: "task_at 0 (mc_sys polling) = Inr k" "\<not> contains CANCELLED (tk_state k)" "contains NOTIFIED (tk_state k)"
  proof
    show "task_at 0 (mc_sys polling) = Inr \<lparr> tk_state = \<lparr> ts_flags = 11, ts_refcount = 5 \<rparr>, tk_waker = None,
        tk_thread = 1, tk_cell = Fut, tk_borrowed = True \<rparr>" by code_simp
  qed code_simp+
  have "stack (mc_sys polling) = [Polling 0]" and "roomy (mc_sys polling)" by code_simp+
  from pending_poll_requeues [OF linked_list_seq_env runs_reachable(2) this k(1)] k(2,3)
  show ?thesis by simp
qed

text \<open>
  The run queue is served in order: running the next task takes the first one; a complete one is
  dropped, an aborted one is cancelled without being polled, and any other one is polled.
\<close>

theorem run_next_polls:
  assumes C: "linked_list C" and r: "reachable C th m" and al: "allowed Run_Next m"
    and q: "runq (mc_sys m) = t # ts"
  shows "\<exists>m' k. task_at t (mc_sys m) = Inr k \<and> exec C th Run_Next m = Some (Inr m') \<and> runq (mc_sys m') = ts \<and>
    stack (mc_sys m') = (if contains COMPLETE (tk_state k) then stack (mc_sys m)
      else if contains CANCELLED (tk_state k) then Cancelling t False # stack (mc_sys m)
      else Polling t # stack (mc_sys m))"
proof -
  have inv: "sinv th (mc_held m) (mc_joins m) (mc_sys m)" using reachable_minv [OF C r] by (simp add: minv_def)
  have "0 < nrefs (mc_held m) (mc_joins m) (mc_sys m) t" by (simp add: nrefs_def sys_refs_def q)
  then obtain k where k: "task_at t (mc_sys m) = Inr k" using sinv_live [OF inv] by blast
  have "room_for (mc_sys m) t" using al roomy_room by simp
  from run_ok [OF C inv q this] k show ?thesis
    by (auto simp: queue_next_def q lift_sys_def)
qed

theorem run_next_polls_witness:
  "\<exists>m' k. task_at 0 (mc_sys (demo [Spawn, Spawn])) = Inr k \<and>
    exec (seq_env True) 1 Run_Next (demo [Spawn, Spawn]) = Some (Inr m') \<and> runq (mc_sys m') = [1] \<and>
    stack (mc_sys m') = (if contains COMPLETE (tk_state k) then stack (mc_sys (demo [Spawn, Spawn]))
      else if contains CANCELLED (tk_state k) then Cancelling 0 False # stack (mc_sys (demo [Spawn, Spawn]))
      else Polling 0 # stack (mc_sys (demo [Spawn, Spawn])))"
proof (rule run_next_polls [OF linked_list_seq_env demo_reachable])
  show "allowed Run_Next (demo [Spawn, Spawn])" and "runq (mc_sys (demo [Spawn, Spawn])) = [0, 1]" by code_simp+
qed

text \<open>A spawned task is put at the end of the run queue, or, on a closed set, its future is cancelled.\<close>

theorem spawn_queues:
  assumes C: "linked_list C" and r: "reachable C th m" and al: "allowed Spawn m"
  defines "t \<equiv> length (heap (mc_sys m))"
  shows "\<exists>m'. exec C th Spawn m = Some (Inr m') \<and> mc_joins m' = t # mc_joins m \<and>
    (if tset_closed (mc_sys m)
     then stack (mc_sys m') = Refusing t # stack (mc_sys m) \<and> runq (mc_sys m') = runq (mc_sys m)
     else stack (mc_sys m') = stack (mc_sys m) \<and> runq (mc_sys m') = runq (mc_sys m) @ [t])"
proof -
  have inv: "sinv th (mc_held m) (mc_joins m) (mc_sys m)" using reachable_minv [OF C r] by (simp add: minv_def)
  have nb: "\<not> tset_borrowed (mc_sys m)" and room: "unat (tset_size (mc_sys m)) + 1 < 2 ^ 64"
    using al not_max_room [of "tset_size (mc_sys m)"] by simp_all
  obtain s' where s': "queue_spawn C th (mc_sys m) = Inr (t, s')"
    "if tset_closed (mc_sys m) then stack s' = Refusing t # stack (mc_sys m) \<and> runq s' = runq (mc_sys m)
     else stack s' = stack (mc_sys m) \<and> runq s' = runq (mc_sys m) @ [t]"
    using queue_spawn_ok [OF C inv nb room] unfolding t_def by blast
  then show ?thesis by simp
qed

theorem spawn_queues_witness:
  "\<exists>m'. exec (seq_env True) 1 Spawn suspended = Some (Inr m') \<and>
    mc_joins m' = length (heap (mc_sys suspended)) # mc_joins suspended \<and>
    (if tset_closed (mc_sys suspended)
     then stack (mc_sys m') = Refusing (length (heap (mc_sys suspended))) # stack (mc_sys suspended) \<and>
       runq (mc_sys m') = runq (mc_sys suspended)
     else stack (mc_sys m') = stack (mc_sys suspended) \<and>
       runq (mc_sys m') = runq (mc_sys suspended) @ [length (heap (mc_sys suspended))])"
proof (rule spawn_queues [OF linked_list_seq_env runs_reachable(1)])
  show "allowed Spawn suspended" by code_simp
qed

section \<open>Completion, join handles and abort\<close>

text \<open>
  C20: when the future of a task with a join handle has been dropped, the task is complete, holds its
  result for the handle, and the waker the handle registered has been woken.
\<close>

theorem completion_wakes_joiner:
  assumes C: "linked_list C" and r: "reachable C th m" and st: "stack (mc_sys m) = Finishing t # st"
    and rm: "roomy (mc_sys m)" and j: "t \<in> set (mc_joins m)" and k: "task_at t (mc_sys m) = Inr k"
  shows "\<exists>m' k'. exec C th Drop_End m = Some (Inr m') \<and> stack (mc_sys m') = st \<and> task_at t (mc_sys m') = Inr k' \<and>
    contains COMPLETE (tk_state k') \<and> tk_cell k' = tk_cell k \<and>
    (\<forall>w. tk_waker k = Some w \<longrightarrow> waker_woken w (mc_sys m'))"
proof -
  have inv: "sinv th (mc_held m) (mc_joins m) (mc_sys m)" and so: "stack_ok (mc_sys m)"
    using reachable_minv [OF C r] by (simp_all add: minv_def)
  have nb: "\<not> tset_borrowed (mc_sys m)" using so st by (auto simp: stack_ok_def)
  obtain s' where s': "drop_end C th (Finishing t) ((mc_sys m)\<lparr>stack := st\<rparr>) = Some (Inr s')"
    "sinv th (mc_held m) (mc_joins m) s'" "stack s' = st"
    "\<forall>k'. task_at t s' = Inr k' \<longrightarrow> contains COMPLETE (tk_state k') \<and> tk_cell k' = tk_cell k"
    "\<forall>w. tk_waker k = Some w \<longrightarrow> waker_woken w s'"
    using drop_end_complete [OF C inv nb roomy_room [OF rm] st, of t True] j k by (auto simp: drop_end_def)
  obtain k' where "task_at t s' = Inr k'" using sinv_live [OF s'(2) joins_live [OF j]] by blast
  then show ?thesis using s' by (auto simp: st lift_sys_def)
qed

theorem completion_wakes_joiner_witness:
  "\<exists>m' k'. exec (seq_env True) 1 Drop_End finishing_run = Some (Inr m') \<and> stack (mc_sys m') = [] \<and>
    task_at 0 (mc_sys m') = Inr k' \<and> contains COMPLETE (tk_state k') \<and> tk_cell k' = Result (Inr 7) \<and>
    waker_woken (Ext_Waker 9) (mc_sys m')"
proof -
  let ?k = "\<lparr> tk_state = \<lparr> ts_flags = 10, ts_refcount = 4 \<rparr>, tk_waker = Some (Ext_Waker 9),
    tk_thread = 1, tk_cell = Result (Inr 7), tk_borrowed = True \<rparr>"
  have "stack (mc_sys finishing_run) = [Finishing 0]" "roomy (mc_sys finishing_run)" "0 \<in> set (mc_joins finishing_run)"
    "task_at 0 (mc_sys finishing_run) = Inr ?k"
    by code_simp+
  from completion_wakes_joiner [OF linked_list_seq_env runs_reachable(3) this] show ?thesis by simp
qed

text \<open>
  C19: polling a join handle gives the result of a complete task, and otherwise registers the waker with
  the task and is pending.
\<close>

theorem join_returns_result:
  assumes C: "linked_list C" and r: "reachable C th m" and al: "allowed (Poll_Join t w) m"
    and k: "task_at t (mc_sys m) = Inr k"
  shows "\<exists>p s'. join_poll th t w (mc_sys m) = Inr (p, s') \<and>
    (if contains COMPLETE (tk_state k) then \<exists>v. tk_cell k = Result v \<and> p = Ready v
     else p = Pending \<and> (\<exists>k'. task_at t s' = Inr k' \<and> tk_waker k' = Some w))"
proof -
  have inv: "sinv th (mc_held m) (mc_joins m) (mc_sys m)" using reachable_minv [OF C r] by (simp add: minv_def)
  have j: "t \<in> set (mc_joins m)" and us: "\<And>u. u \<in> set (waker_refs w) \<Longrightarrow> usable u m" and rm: "roomy (mc_sys m)"
    and rd: "contains COMPLETE (tk_state k) \<Longrightarrow> \<not> tk_borrowed k \<and> tk_cell k \<noteq> Cell_Empty"
    using al k by (simp_all add: joinable_def)
  have lv: "0 < nrefs (mc_held m) (mc_joins m) (mc_sys m) u \<and> room_for (mc_sys m) u" if "u \<in> set (waker_refs w)" for u
    using usable_live [OF us [OF that]] roomy_room [OF rm] by simp
  show ?thesis using join_poll_ok [OF inv j k lv rd] by blast
qed

theorem join_returns_result_witness:
  "\<exists>s'. join_poll 1 0 (Ext_Waker 3) (mc_sys finished_run) = Inr (Ready (Inr 7), s')"
proof -
  let ?k = "\<lparr> tk_state = \<lparr> ts_flags = 12, ts_refcount = 1 \<rparr>, tk_waker = None,
    tk_thread = 1, tk_cell = Result (Inr 7), tk_borrowed = False \<rparr>"
  have al: "allowed (Poll_Join 0 (Ext_Waker 3)) finished_run" and k: "task_at 0 (mc_sys finished_run) = Inr ?k"
    and c: "contains COMPLETE (tk_state ?k)"
    by code_simp+
  from join_returns_result [OF linked_list_seq_env runs_reachable(4) al k] c show ?thesis by auto
qed

text \<open>
  After an abort the task is complete, or it is marked cancelled and in the run queue or running, so
  that its next step is the cancellation.
\<close>

theorem abort_cancels:
  assumes C: "linked_list C" and r: "reachable C th m" and al: "allowed (Abort_Join t) m"
  shows "\<exists>m' k. exec C th (Abort_Join t) m = Some (Inr m') \<and> task_at t (mc_sys m') = Inr k \<and>
    (contains COMPLETE (tk_state k) \<or>
     contains CANCELLED (tk_state k) \<and> (t \<in> set (runq (mc_sys m')) \<or> contains RUNNING (tk_state k)))"
proof -
  have inv: "sinv th (mc_held m) (mc_joins m) (mc_sys m)" using reachable_minv [OF C r] by (simp add: minv_def)
  have j: "t \<in> set (mc_joins m)" and rm: "roomy (mc_sys m)" using al by simp_all
  obtain k0 where k0: "task_at t (mc_sys m) = Inr k0" using sinv_live [OF inv joins_live [OF j]] by blast
  obtain s' k where s': "join_abort t (mc_sys m) = Inr s'" "task_at t s' = Inr k"
    "contains COMPLETE (tk_state k) \<or> contains CANCELLED (tk_state k)"
    using join_abort_ok [OF inv j k0 roomy_room [OF rm]] by blast
  let ?m = "m\<lparr>mc_sys := s'\<rparr>"
  have e: "exec C th (Abort_Join t) m = Some (Inr ?m)" using s'(1) by (simp add: lift_sys_def)
  have "minv th ?m" by (rule reachable_minv [OF C reachable.step [OF r al e]])
  then show ?thesis using minv_task(2,4) [of th ?m t k] s' e by auto
qed

theorem abort_cancels_witness:
  "\<exists>m' k. exec (seq_env True) 1 (Abort_Join 0) suspended = Some (Inr m') \<and> task_at 0 (mc_sys m') = Inr k \<and>
    (contains COMPLETE (tk_state k) \<or>
     contains CANCELLED (tk_state k) \<and> (0 \<in> set (runq (mc_sys m')) \<or> contains RUNNING (tk_state k)))"
proof (rule abort_cancels [OF linked_list_seq_env runs_reachable(1)])
  show "allowed (Abort_Join 0) suspended" by code_simp
qed

section \<open>Shutdown and misuse\<close>

text \<open>
  C18: a shutdown ends: after it, and the drops of at most as many futures as the set held, the queue and
  the set are empty and closed and every task that is still referred to is complete.
\<close>

theorem shutdown_completes:
  assumes C: "linked_list C" and r: "reachable C th m" and st: "stack (mc_sys m) = []"
  shows "\<exists>n m1 m'. exec C th Shut_Down m = Some (Inr m1) \<and> drop_ends C th n m1 = Some m' \<and> shut_down (mc_sys m')"
proof -
  have inv: "minv th m" by (rule reachable_minv [OF C r])
  obtain s' where s': "queue_shutdown C th (mc_sys m) = Some (Inr s')" "sinv th (mc_held m) (mc_joins m) s'" "stack_ok s'"
    "(\<exists>t. stack s' = [Shutting t]) \<or> shut_down s'"
    using shutdown_ok [OF C inv st] by blast
  let ?m = "m\<lparr>mc_sys := s'\<rparr>"
  have e: "exec C th Shut_Down m = Some (Inr ?m)" using s'(1) by (simp add: lift_sys_def)
  show ?thesis
  proof (cases "shut_down s'")
    case True
    then show ?thesis using e by (intro exI [of _ 0] exI [of _ ?m]) simp
  next
    case False
    then obtain t where "stack (mc_sys ?m) = [Shutting t]" using s'(4) by auto
    then obtain n m' where "drop_ends C th n ?m = Some m'" "shut_down (mc_sys m')"
      using drop_ends_finish [OF C, of th ?m t] s'(2,3) by (auto simp: minv_def)
    then show ?thesis using e by blast
  qed
qed

theorem shutdown_completes_witness:
  "\<exists>n m1 m'. exec (seq_env True) 1 Shut_Down two_tasks = Some (Inr m1) \<and>
    drop_ends (seq_env True) 1 n m1 = Some m' \<and> shut_down (mc_sys m')"
proof (rule shutdown_completes [OF linked_list_seq_env runs_reachable(5)])
  show "stack (mc_sys two_tasks) = []" by code_simp
qed

text \<open>
  While a shutdown drops a future the task set stays borrowed, so a destructor that spawns a task panics.
\<close>

theorem spawn_in_shutdown_panics:
  assumes "tset_borrowed (mc_sys m)"
  shows "exec C th Spawn m = Some (Inl Panic)"
  using assms by (simp add: queue_spawn_def tset_bind_def is_closed_def Let_def)

theorem spawn_in_shutdown_panics_witness: "exec (seq_env True) 1 Spawn closing = Some (Inl Panic)"
proof (rule spawn_in_shutdown_panics)
  show "tset_borrowed (mc_sys closing)" by code_simp
qed

text \<open>A waker that is used on a thread other than the one its task was spawned on aborts the process.\<close>

theorem foreign_waker_aborts:
  assumes "task_at t s = Inr k" and "tk_thread k \<noteq> th"
  shows "waker_clone th t s = Inl Abort \<and> waker_drop th t s = Inl Abort \<and>
    waker_wake_ref th t s = Inl Abort \<and> waker_wake_val th t s = Inl Abort"
  using assms by (simp_all add: waker_clone_def waker_drop_def waker_wake_ref_def waker_wake_val_def check_caller_def)

theorem foreign_waker_aborts_witness:
  "waker_clone 2 0 (mc_sys suspended) = Inl Abort \<and> waker_drop 2 0 (mc_sys suspended) = Inl Abort \<and>
    waker_wake_ref 2 0 (mc_sys suspended) = Inl Abort \<and> waker_wake_val 2 0 (mc_sys suspended) = Inl Abort"
proof -
  let ?k = "\<lparr> tk_state = \<lparr> ts_flags = 8, ts_refcount = 3 \<rparr>, tk_waker = None, tk_thread = 1, tk_cell = Fut,
    tk_borrowed = False \<rparr>"
  have k: "task_at 0 (mc_sys suspended) = Inr ?k" by code_simp
  show ?thesis by (rule foreign_waker_aborts [OF k]) simp
qed

end
