(* ===== verification/Notify.thy ===== *)
theory Notify
  imports Intrusive_List Rust_Int
begin

text \<open>
  The notification list of \<open>norn-uring/src/util/notify.rs\<close>: the futures \<open>Notified\<close> that wait are linked
  in a FIFO list, \<open>Notify::notify\<close> fires the first ones, and a fired future that is dropped before it was
  polled passes its notification on. A future is its address; a waker is a number, and the wakers that
  were called are logged in order.
\<close>

datatype notified_state = Waiter_Unregistered | Waiter_Linked | Waiter_Fired | Waiter_Completed

record notified =
  ne_state :: notified_state
  ne_waker :: "nat option"

record notifier =
  nt_waiters :: "nat list"
  nt_count :: usize
  nt_entries :: "nat \<Rightarrow> notified option"
  nt_woken :: "nat list"

definition notifier_new :: "env \<Rightarrow> notifier" where
  "notifier_new C = \<lparr> nt_waiters = list_new C, nt_count = 0, nt_entries = (\<lambda>_. None), nt_woken = [] \<rparr>"

definition notified_new :: notified where
  "notified_new = \<lparr> ne_state = Waiter_Unregistered, ne_waker = None \<rparr>"

definition notify_wait :: "nat \<Rightarrow> notifier \<Rightarrow> notifier" where
  "notify_wait a s = s\<lparr>nt_entries := (nt_entries s)(a \<mapsto> notified_new)\<rparr>"

definition notify_waiters :: "notifier \<Rightarrow> usize" where
  "notify_waiters s = nt_count s"

text \<open>\<open>Entry::fire\<close>.\<close>

definition notified_fire :: "nat \<Rightarrow> notifier \<Rightarrow> fault + notifier" where
  "notified_fire a s = (case nt_entries s a of
     None \<Rightarrow> Inl Dangling
   | Some e \<Rightarrow> Inr (s\<lparr>nt_woken := nt_woken s @ (case ne_waker e of None \<Rightarrow> [] | Some w \<Rightarrow> [w]),
       nt_entries := (nt_entries s)(a \<mapsto> e\<lparr>ne_waker := None, ne_state := Waiter_Fired\<rparr>)\<rparr>))"

partial_function (option) notify_loop ::
  "env \<Rightarrow> usize \<Rightarrow> usize \<Rightarrow> notifier \<Rightarrow> (fault + (usize \<times> notifier)) option"
where
  "notify_loop C n removed s =
     (if removed = n then Some (Inr (removed, s))
      else case pop_front C (nt_waiters s) of
          (None, ws) \<Rightarrow> Some (Inr (removed, s\<lparr>nt_waiters := ws\<rparr>))
        | (Some a, ws) \<Rightarrow>
            (case notified_fire a (s\<lparr>nt_waiters := ws\<rparr>) of
               Inl f \<Rightarrow> Some (Inl f)
             | Inr s \<Rightarrow> (case add_word (debug_assertions C) removed 1 of
                 Inl f \<Rightarrow> Some (Inl f)
               | Inr r \<Rightarrow> notify_loop C n r s)))"

declare notify_loop.simps [code]

definition notify_n :: "env \<Rightarrow> usize \<Rightarrow> notifier \<Rightarrow> (fault + (usize \<times> notifier)) option" where
  "notify_n C n s =
     map_option (\<lambda>r. and_then r (\<lambda>(removed, s).
       and_then (sub_word (debug_assertions C) (nt_count s) removed) (\<lambda>c.
       Inr (removed, s\<lparr>nt_count := c\<rparr>)))) (notify_loop C n 0 s)"

definition notify_cancel :: "env \<Rightarrow> nat \<Rightarrow> notifier \<Rightarrow> fault + notifier" where
  "notify_cancel C a s =
     and_then (sub_word (debug_assertions C) (nt_count s) 1) (\<lambda>c.
     let (_, ws) = list_remove C a (nt_waiters s) in
     Inr (s\<lparr>nt_count := c, nt_waiters := ws\<rparr>))"

text \<open>The drop of a \<open>Notified\<close>, after which its address is free.\<close>

definition notified_drop :: "env \<Rightarrow> nat \<Rightarrow> notifier \<Rightarrow> (fault + notifier) option" where
  "notified_drop C a s = (case nt_entries s a of
     None \<Rightarrow> Some (Inl Dangling)
   | Some e \<Rightarrow> map_option (\<lambda>r. and_then r (\<lambda>s. Inr (s\<lparr>nt_entries := (nt_entries s)(a := None)\<rparr>)))
       (case ne_state e of
          Waiter_Linked \<Rightarrow> Some (notify_cancel C a s)
        | Waiter_Fired \<Rightarrow> map_option (\<lambda>r. and_then r (\<lambda>(_, s). Inr s)) (notify_n C 1 s)
        | _ \<Rightarrow> Some (Inr s)))"

definition notified_poll :: "env \<Rightarrow> nat \<Rightarrow> nat \<Rightarrow> notifier \<Rightarrow> fault + (unit poll \<times> notifier)" where
  "notified_poll C a w s = (case nt_entries s a of
     None \<Rightarrow> Inl Dangling
   | Some e \<Rightarrow> (case ne_state e of
       Waiter_Unregistered \<Rightarrow>
         and_then (add_word (debug_assertions C) (nt_count s) 1) (\<lambda>c.
         Inr (Pending, s\<lparr>nt_entries := (nt_entries s)(a \<mapsto> e\<lparr>ne_state := Waiter_Linked, ne_waker := Some w\<rparr>),
           nt_waiters := push_back C a (nt_waiters s), nt_count := c\<rparr>))
     | Waiter_Linked \<Rightarrow> Inr (Pending, s\<lparr>nt_entries := (nt_entries s)(a \<mapsto> e\<lparr>ne_waker := Some w\<rparr>)\<rparr>)
     | Waiter_Fired \<Rightarrow> Inr (Ready (), s\<lparr>nt_entries := (nt_entries s)(a \<mapsto> e\<lparr>ne_state := Waiter_Completed\<rparr>)\<rparr>)
     | Waiter_Completed \<Rightarrow> Inl Panic))"

section \<open>The invariant\<close>

definition notify_inv :: "notifier \<Rightarrow> bool" where
  "notify_inv s \<longleftrightarrow> distinct (nt_waiters s) \<and> unat (nt_count s) = length (nt_waiters s) \<and>
     (\<forall>a. a \<in> set (nt_waiters s) \<longleftrightarrow> (\<exists>e. nt_entries s a = Some e \<and> ne_state e = Waiter_Linked)) \<and>
     (\<forall>a e. nt_entries s a = Some e \<and> ne_state e = Waiter_Linked \<longrightarrow> ne_waker e \<noteq> None)"

text \<open>What firing a list of waiters does to the entries, and the wakers it calls.\<close>

definition fired_entries :: "nat list \<Rightarrow> (nat \<Rightarrow> notified option) \<Rightarrow> nat \<Rightarrow> notified option" where
  "fired_entries xs E a = (if a \<in> set xs
     then map_option (\<lambda>e. e\<lparr>ne_waker := None, ne_state := Waiter_Fired\<rparr>) (E a) else E a)"

definition waker_at :: "(nat \<Rightarrow> notified option) \<Rightarrow> nat \<Rightarrow> nat" where
  "waker_at E a = (case E a of Some e \<Rightarrow> (case ne_waker e of Some w \<Rightarrow> w | None \<Rightarrow> 0) | None \<Rightarrow> 0)"

lemma notify_inv_new: "linked_list C \<Longrightarrow> notify_inv (notifier_new C)"
  by (simp add: notify_inv_def notifier_new_def linked_list.list_new_law)

lemma notified_fire_linked:
  assumes "nt_entries s a = Some e" and "ne_waker e \<noteq> None"
  shows "notified_fire a s = Inr (s\<lparr>nt_woken := nt_woken s @ [waker_at (nt_entries s) a],
    nt_entries := fired_entries [a] (nt_entries s)\<rparr>)"
  using assms by (auto simp: notified_fire_def waker_at_def fired_entries_def fun_eq_iff)

lemma fired_entries_Nil [simp]: "fired_entries [] E = E"
  by (simp add: fired_entries_def fun_eq_iff)

lemma fired_entries_Cons:
  "a \<notin> set xs \<Longrightarrow> fired_entries xs (fired_entries [a] E) = fired_entries (a # xs) E"
  by (auto simp: fired_entries_def fun_eq_iff)

lemma waker_at_fired: "a \<notin> set xs \<Longrightarrow> waker_at (fired_entries xs E) a = waker_at E a"
  by (simp add: waker_at_def fired_entries_def)

lemma succ_below:
  fixes r n :: usize
  assumes "unat r < unat n"
  shows "add_word d r 1 = Inr (r + 1) \<and> unat (r + 1) = unat r + 1"
proof -
  have "unat n < 2 ^ LENGTH(64)" by (rule unsigned_less)
  moreover have "unat (1 :: usize) = 1" by simp
  ultimately have "unat r + unat (1 :: usize) < 2 ^ LENGTH(64)" using assms by linarith
  from add_word_no_overflow [OF this] show ?thesis by simp
qed

lemma notify_loop_spec:
  assumes C: "linked_list C"
  shows "distinct (nt_waiters s) \<Longrightarrow>
    (\<And>a. a \<in> set (nt_waiters s) \<Longrightarrow> \<exists>e. nt_entries s a = Some e \<and> ne_waker e \<noteq> None) \<Longrightarrow>
    unat removed \<le> unat n \<Longrightarrow> k = min (unat n - unat removed) (length (nt_waiters s)) \<Longrightarrow>
    \<exists>r. unat r = unat removed + k \<and> notify_loop C n removed s = Some (Inr (r, s\<lparr>
      nt_waiters := drop k (nt_waiters s), nt_entries := fired_entries (take k (nt_waiters s)) (nt_entries s),
      nt_woken := nt_woken s @ map (waker_at (nt_entries s)) (take k (nt_waiters s))\<rparr>))"
proof (induction "nt_waiters s" arbitrary: s removed k)
  case Nil
  have "s\<lparr>nt_waiters := []\<rparr> = s" using Nil.hyps by (cases s) simp
  then show ?case using Nil
    by (subst notify_loop.simps) (auto simp: linked_list.pop_front_law [OF C])
next
  case (Cons a ws)
  note w = Cons.hyps(2) [symmetric]
  show ?case
  proof (cases "removed = n")
    case True
    then have "k = 0" using Cons.prems(4) by simp
    then show ?thesis using True by (subst notify_loop.simps) auto
  next
    case False
    then have lt: "unat removed < unat n" using Cons.prems(3) by (metis le_neq_implies_less word_unat_eq_iff)
    obtain e where e: "nt_entries s a = Some e" "ne_waker e \<noteq> None" using Cons.prems(2) [of a] w by auto
    let ?E = "fired_entries [a] (nt_entries s)"
    let ?s = "s\<lparr>nt_waiters := ws, nt_woken := nt_woken s @ [waker_at (nt_entries s) a], nt_entries := ?E\<rparr>"
    have step: "notify_loop C n removed s = notify_loop C n (removed + 1) ?s"
      using False notified_fire_linked [of "s\<lparr>nt_waiters := ws\<rparr>" a e] e succ_below [OF lt]
      by (subst notify_loop.simps) (simp add: linked_list.pop_front_law [OF C] w)
    have d: "a \<notin> set ws" "distinct ws" using Cons.prems(1) w by auto
    obtain k' where k': "k = Suc k'" "k' = min (unat n - unat (removed + 1)) (length ws)"
      using Cons.prems(4) lt succ_below [OF lt] w by (cases k) auto
    have en: "\<exists>e. nt_entries ?s b = Some e \<and> ne_waker e \<noteq> None" if "b \<in> set (nt_waiters ?s)" for b
      using that Cons.prems(2) [of b] d(1) w by (auto simp: fired_entries_def)
    have "unat (removed + 1) \<le> unat n" using lt succ_below [OF lt] by simp
    from Cons.hyps(1) [of ?s "removed + 1" k', OF _ _ en this] d(2) k'(2)
    obtain r where r: "unat r = unat (removed + 1) + k'"
      "notify_loop C n (removed + 1) ?s = Some (Inr (r, ?s\<lparr>nt_waiters := drop k' ws,
        nt_entries := fired_entries (take k' ws) ?E,
        nt_woken := nt_woken ?s @ map (waker_at ?E) (take k' ws)\<rparr>))"
      by auto
    have "a \<notin> set (take k' ws)" using d(1) by (meson in_set_takeD)
    moreover have "map (waker_at ?E) (take k' ws) = map (waker_at (nt_entries s)) (take k' ws)"
      using d(1) by (auto intro!: waker_at_fired dest: in_set_takeD)
    ultimately show ?thesis
      using r step succ_below [OF lt] k'(1) w by (auto simp: fired_entries_Cons intro!: exI [of _ r])
  qed
qed

text \<open>\<open>Notify::notify\<close> fires the first waiters, as many as asked for or as there are.\<close>

lemma notify_n_spec:
  assumes C: "linked_list C" and inv: "notify_inv s" and k: "k = min (unat n) (length (nt_waiters s))"
  shows "\<exists>r s'. notify_n C n s = Some (Inr (r, s')) \<and> unat r = k \<and> notify_inv s' \<and>
    nt_waiters s' = drop k (nt_waiters s) \<and>
    nt_entries s' = fired_entries (take k (nt_waiters s)) (nt_entries s) \<and>
    nt_woken s' = nt_woken s @ map (waker_at (nt_entries s)) (take k (nt_waiters s))"
proof -
  have d: "distinct (nt_waiters s)" and c: "unat (nt_count s) = length (nt_waiters s)"
    and l: "\<And>a. a \<in> set (nt_waiters s) \<longleftrightarrow> (\<exists>e. nt_entries s a = Some e \<and> ne_state e = Waiter_Linked)"
    and wk: "\<And>a e. nt_entries s a = Some e \<Longrightarrow> ne_state e = Waiter_Linked \<Longrightarrow> ne_waker e \<noteq> None"
    using inv unfolding notify_inv_def by blast+
  have en: "\<exists>e. nt_entries s a = Some e \<and> ne_waker e \<noteq> None" if "a \<in> set (nt_waiters s)" for a
    using that l wk by blast
  let ?s = "s\<lparr>nt_waiters := drop k (nt_waiters s), nt_entries := fired_entries (take k (nt_waiters s)) (nt_entries s),
    nt_woken := nt_woken s @ map (waker_at (nt_entries s)) (take k (nt_waiters s))\<rparr>"
  obtain r where r: "unat r = k" "notify_loop C n 0 s = Some (Inr (r, ?s))"
    using notify_loop_spec [OF C d en, of 0 n k] k by auto
  have le: "r \<le> nt_count s" using r(1) c k by (simp add: word_le_nat_alt)
  have res: "notify_n C n s = Some (Inr (r, ?s\<lparr>nt_count := nt_count s - r\<rparr>))"
    using r(2) sub_word_Inr [OF le] by (simp add: notify_n_def)
  have tk: "a \<in> set (nt_waiters s) \<longleftrightarrow> a \<in> set (take k (nt_waiters s)) \<or> a \<in> set (drop k (nt_waiters s))" for a
    by (metis Un_iff append_take_drop_id set_append)
  have dj: "a \<notin> set (drop k (nt_waiters s))" if "a \<in> set (take k (nt_waiters s))" for a
    using that d by (metis append_take_drop_id disjoint_iff distinct_append)
  have "a \<in> set (drop k (nt_waiters s)) \<longleftrightarrow>
      (\<exists>e. fired_entries (take k (nt_waiters s)) (nt_entries s) a = Some e \<and> ne_state e = Waiter_Linked)" for a
    using l [of a] tk [of a] dj [of a] by (auto simp: fired_entries_def)
  moreover have "ne_waker e \<noteq> None"
    if "fired_entries (take k (nt_waiters s)) (nt_entries s) a = Some e" "ne_state e = Waiter_Linked" for a e
    using that wk [of a e] by (auto simp: fired_entries_def split: if_splits)
  moreover have "unat (nt_count s - r) = length (drop k (nt_waiters s))"
    using unat_sub_le [OF le] c r(1) by simp
  ultimately have "notify_inv (?s\<lparr>nt_count := nt_count s - r\<rparr>)"
    using d unfolding notify_inv_def by simp blast
  then show ?thesis using res r(1) by simp
qed

text \<open>Polling and dropping one waiter keep the invariant.\<close>

lemma notified_poll_keeps:
  assumes C: "linked_list C" and inv: "notify_inv s" and room: "nt_count s \<noteq> - 1"
    and res: "notified_poll C a w s = Inr (r, s')"
  shows "notify_inv s'"
proof -
  obtain e where e: "nt_entries s a = Some e"
    using res by (auto simp: notified_poll_def split: option.splits)
  have c: "unat (nt_count s) = length (nt_waiters s)" using inv by (simp add: notify_inv_def)
  show ?thesis
  proof (cases "ne_state e")
    case Waiter_Unregistered
    have "unat (nt_count s) < unat (- 1 :: usize)"
      using room by (metis word_order.not_eq_extremum word_less_nat_alt)
    note succ = succ_below [OF this]
    have nm: "a \<notin> set (nt_waiters s)" using inv e Waiter_Unregistered by (auto simp: notify_inv_def)
    have "s' = s\<lparr>nt_entries := (nt_entries s)(a \<mapsto> e\<lparr>ne_state := Waiter_Linked, ne_waker := Some w\<rparr>),
        nt_waiters := nt_waiters s @ [a], nt_count := nt_count s + 1\<rparr>"
      using res e Waiter_Unregistered succ
      by (simp add: notified_poll_def linked_list.push_back_law [OF C])
    then show ?thesis using inv nm succ c by (auto simp: notify_inv_def)
  qed (use res e inv in \<open>auto simp: notified_poll_def notify_inv_def split: if_splits\<close>)
qed

lemma notified_drop_spec:
  assumes C: "linked_list C" and inv: "notify_inv s" and e: "nt_entries s a = Some e"
  shows "\<exists>s'. notified_drop C a s = Some (Inr s') \<and> notify_inv s' \<and> nt_entries s' a = None \<and>
    (if ne_state e = Waiter_Fired \<and> nt_waiters s \<noteq> []
     then nt_woken s' = nt_woken s @ [waker_at (nt_entries s) (hd (nt_waiters s))] \<and>
       nt_waiters s' = tl (nt_waiters s)
     else nt_woken s' = nt_woken s \<and> nt_waiters s' = remove1 a (nt_waiters s))"
proof -
  have d: "distinct (nt_waiters s)" and c: "unat (nt_count s) = length (nt_waiters s)"
    using inv by (simp_all add: notify_inv_def)
  have linked: "a \<in> set (nt_waiters s) \<longleftrightarrow> ne_state e = Waiter_Linked"
    using inv e by (auto simp: notify_inv_def)
  have forget: "notify_inv (t\<lparr>nt_entries := (nt_entries t)(a := None)\<rparr>)"
    if "notify_inv t" "a \<notin> set (nt_waiters t)" for t
    using that by (auto simp: notify_inv_def)
  show ?thesis
  proof (cases "ne_state e")
    case Waiter_Linked
    let ?s = "s\<lparr>nt_count := nt_count s - 1, nt_waiters := remove1 a (nt_waiters s),
      nt_entries := (nt_entries s)(a := None)\<rparr>"
    have len: "0 < length (nt_waiters s)" using linked Waiter_Linked by (cases "nt_waiters s") auto
    then have le: "1 \<le> nt_count s" using c by (simp add: word_le_nat_alt Suc_le_eq)
    have "notified_drop C a s = Some (Inr ?s)"
      using linked Waiter_Linked e sub_word_Inr [OF le]
      by (simp add: notified_drop_def notify_cancel_def linked_list.list_remove_law [OF C d])
    moreover have "notify_inv ?s"
      using inv linked Waiter_Linked unat_sub_le [OF le] c len
      by (auto simp: notify_inv_def length_remove1)
    ultimately show ?thesis using Waiter_Linked by simp
  next
    case Waiter_Fired
    define k where "k = min (unat (1 :: usize)) (length (nt_waiters s))"
    obtain r s1 where s1: "notify_n C 1 s = Some (Inr (r, s1))" "notify_inv s1"
      "nt_waiters s1 = drop k (nt_waiters s)" "nt_woken s1 = nt_woken s @ map (waker_at (nt_entries s)) (take k (nt_waiters s))"
      using notify_n_spec [OF C inv k_def] by blast
    have a: "a \<notin> set (nt_waiters s)" using linked Waiter_Fired by simp
    then have "a \<notin> set (nt_waiters s1)" using s1(3) by (metis in_set_dropD)
    then show ?thesis
      using Waiter_Fired e s1 forget a
      by (cases "nt_waiters s") (simp_all add: notified_drop_def k_def)
  next
    case Waiter_Unregistered
    then show ?thesis using e inv linked forget by (simp add: notified_drop_def remove1_idem)
  next
    case Waiter_Completed
    then show ?thesis using e inv linked forget by (simp add: notified_drop_def remove1_idem)
  qed
qed

text \<open>Dropping a waiter adds no waiter.\<close>

lemma notified_drop_dom:
  assumes C: "linked_list C" and inv: "notify_inv s" and d: "notified_drop C a s = Some (Inr s')"
    and b: "nt_entries s b = None"
  shows "nt_entries s' b = None"
proof -
  obtain e where e: "nt_entries s a = Some e" using d by (auto simp: notified_drop_def split: option.splits)
  have f: "fired_entries xs (nt_entries s) b = None" for xs using b by (simp add: fired_entries_def)
  show ?thesis
  proof (cases "ne_state e")
    case Waiter_Fired
    obtain r s1 where "notify_n C 1 s = Some (Inr (r, s1))" "nt_entries s1 b = None"
      using notify_n_spec [OF C inv refl, of 1] f by metis
    then show ?thesis using d e Waiter_Fired by (auto simp: notified_drop_def)
  next
    case Waiter_Linked
    then show ?thesis using d e b
      by (cases "list_remove C a (nt_waiters s)") (auto simp: notified_drop_def notify_cancel_def)
  qed (use d e b in \<open>auto simp: notified_drop_def\<close>)
qed

end
