(* ===== verification/Unpark.thy ===== *)
theory Unpark
  imports Rust_Int
begin

text \<open>
  Waking a parked event loop from another thread (\<open>norn-uring/src/driver/unpark.rs\<close>, and the decision
  \<open>Driver::prepare_park\<close> takes on it): an atomic byte with the bits "the reactor is parked" and "a wake was
  requested", and an eventfd the reactor reads while it is parked. The threads interleave atomic step by
  atomic step; a remote thread's wake is two steps, the \<open>fetch_or\<close> and the write to the eventfd.
\<close>

definition REACTOR_PARK_BIT :: u8 where "REACTOR_PARK_BIT = push_bit 0 1"
definition REMOTE_THREAD_BIT :: u8 where "REMOTE_THREAD_BIT = push_bit 1 1"

definition up_woken :: "u8 \<Rightarrow> bool" where
  "up_woken st \<longleftrightarrow> st AND REMOTE_THREAD_BIT = REMOTE_THREAD_BIT"

definition up_is_parked :: "u8 \<Rightarrow> bool" where
  "up_is_parked st \<longleftrightarrow> st AND REACTOR_PARK_BIT = REACTOR_PARK_BIT"

text \<open>The atomic operations on the flag: the value they return, and the new one.\<close>

definition unparker_park :: "u8 \<Rightarrow> u8 \<times> u8" where
  "unparker_park flag = (flag, flag OR REACTOR_PARK_BIT)"

definition unparker_reset :: "u8 \<Rightarrow> u8" where
  "unparker_reset flag = flag AND (NOT REACTOR_PARK_BIT AND NOT REMOTE_THREAD_BIT)"

text \<open>\<open>wake_inner\<close>: whether it writes to the eventfd, and the new flag.\<close>

definition unparker_wake :: "u8 \<Rightarrow> bool \<times> u8" where
  "unparker_wake flag = (\<not> up_woken flag \<and> up_is_parked flag, flag OR REMOTE_THREAD_BIT)"

text \<open>
  \<open>prepare_park\<close> on the flag, where \<open>push\<close> is whether the submission queue took the read of the eventfd:
  whether the reactor may sleep, whether a read was armed, and the new flag.
\<close>

definition park_decision :: "bool \<Rightarrow> u8 \<Rightarrow> bool \<times> bool \<times> u8" where
  "park_decision push flag =
     (let (st, flag) = unparker_park flag in
      if \<not> up_is_parked st
      then (if push then (\<not> up_woken st, True, flag) else (False, False, flag))
      else (\<not> up_woken st, False, flag))"

section \<open>The flag's bits\<close>

lemma bit_park_bits:
  "bit REACTOR_PARK_BIT n \<longleftrightarrow> n = 0" "bit REMOTE_THREAD_BIT n \<longleftrightarrow> n = 1"
  by (simp_all only: REACTOR_PARK_BIT_def REMOTE_THREAD_BIT_def bit_push_bit_iff bit_1_iff) auto

lemma up_bits: "up_is_parked st \<longleftrightarrow> bit st 0" "up_woken st \<longleftrightarrow> bit st 1"
  unfolding up_is_parked_def up_woken_def using bit_park_bits by (auto intro!: and_flag_iff)

lemma up_bits_simps [simp]:
  "up_is_parked (st OR REACTOR_PARK_BIT)" "up_woken (st OR REMOTE_THREAD_BIT)"
  "up_woken (st OR REACTOR_PARK_BIT) = up_woken st" "up_is_parked (st OR REMOTE_THREAD_BIT) = up_is_parked st"
  "\<not> up_woken (unparker_reset st)" "\<not> up_is_parked (unparker_reset st)"
  "\<not> up_woken 0" "\<not> up_is_parked 0"
  by (simp_all add: up_bits bit_or_iff bit_park_bits unparker_reset_def bit_and_iff bit_not_iff)

section \<open>The interleaving\<close>

record wake_state =
  wk_flag :: u8
  wk_event :: nat \<comment> \<open>the eventfd's counter\<close>
  wk_armed :: bool \<comment> \<open>a read of the eventfd is outstanding\<close>
  wk_cqe :: bool \<comment> \<open>its completion has arrived and is not drained yet\<close>
  wk_writers :: nat \<comment> \<open>remote threads between the \<open>fetch_or\<close> and the write\<close>
  wk_asleep :: bool

datatype wake_step =
    Reactor_Prepare bool | Reactor_Return | Reactor_Drain | Remote_Wake | Remote_Write | Kernel_Read

definition wake_init :: wake_state where
  "wake_init = \<lparr> wk_flag = 0, wk_event = 0, wk_armed = False, wk_cqe = False, wk_writers = 0, wk_asleep = False \<rparr>"

fun wake_do :: "wake_step \<Rightarrow> wake_state \<Rightarrow> wake_state option" where
  "wake_do (Reactor_Prepare push) s =
     (if wk_asleep s then None
      else let (sleeps, arms, flag) = park_decision push (wk_flag s) in
        Some (s\<lparr>wk_flag := flag, wk_armed := wk_armed s \<or> arms, wk_asleep := sleeps\<rparr>))"
| "wake_do Reactor_Return s = (if wk_asleep s then Some (s\<lparr>wk_asleep := False\<rparr>) else None)"
| "wake_do Reactor_Drain s =
     (if \<not> wk_asleep s \<and> wk_cqe s then Some (s\<lparr>wk_cqe := False, wk_flag := unparker_reset (wk_flag s)\<rparr>) else None)"
| "wake_do Remote_Wake s =
     (let (writes, flag) = unparker_wake (wk_flag s) in
      Some (s\<lparr>wk_flag := flag, wk_writers := wk_writers s + (if writes then 1 else 0)\<rparr>))"
| "wake_do Remote_Write s =
     (if 0 < wk_writers s then Some (s\<lparr>wk_writers := wk_writers s - 1, wk_event := wk_event s + 1\<rparr>) else None)"
| "wake_do Kernel_Read s =
     (if wk_armed s \<and> 0 < wk_event s then Some (s\<lparr>wk_armed := False, wk_event := 0, wk_cqe := True\<rparr>) else None)"

text \<open>Reachability, where the flag says whether the push of the eventfd read may fail.\<close>

inductive wake_reach :: "bool \<Rightarrow> wake_state \<Rightarrow> wake_state \<Rightarrow> bool" for fails s0 where
  wake_refl: "wake_reach fails s0 s0"
| wake_next: "wake_reach fails s0 s \<Longrightarrow> fails \<or> c \<noteq> Reactor_Prepare False \<Longrightarrow> wake_do c s = Some s' \<Longrightarrow>
    wake_reach fails s0 s'"

inductive_cases wake_reachE: "wake_reach fails s0 s"

definition wake_inv :: "wake_state \<Rightarrow> bool" where
  "wake_inv s \<longleftrightarrow> (up_is_parked (wk_flag s) \<longleftrightarrow> wk_armed s \<or> wk_cqe s) \<and> \<not> (wk_armed s \<and> wk_cqe s) \<and>
     (wk_asleep s \<longrightarrow> up_is_parked (wk_flag s)) \<and>
     (wk_asleep s \<and> up_woken (wk_flag s) \<longrightarrow> wk_cqe s \<or> 0 < wk_event s \<or> 0 < wk_writers s)"

lemma wake_inv_step:
  assumes "wake_inv s" and "wake_do c s = Some s'" and "c \<noteq> Reactor_Prepare False"
  shows "wake_inv s'"
  using assms
  by (cases c) (auto simp: wake_inv_def park_decision_def unparker_park_def unparker_wake_def split: if_splits)

lemma wake_reach_inv: "wake_reach False wake_init s \<Longrightarrow> wake_inv s"
proof (induction rule: wake_reach.induct)
  case wake_refl
  then show ?case by (simp add: wake_inv_def wake_init_def)
next
  case (wake_next s c s')
  then show ?case using wake_inv_step by blast
qed

text \<open>A wake that finds the reactor not parked leaves the flag set with nobody to write: it stays so.\<close>

definition wake_stuck :: "wake_state \<Rightarrow> bool" where
  "wake_stuck s \<longleftrightarrow> up_woken (wk_flag s) \<and> wk_event s = 0 \<and> wk_writers s = 0 \<and> \<not> wk_asleep s \<and> \<not> wk_cqe s"

lemma wake_stuck_step: "wake_stuck s \<Longrightarrow> wake_do c s = Some s' \<Longrightarrow> wake_stuck s'"
  by (cases c) (auto simp: wake_stuck_def park_decision_def unparker_park_def unparker_wake_def split: if_splits)

lemma wake_stuck_reach: "wake_reach fails s0 s \<Longrightarrow> wake_stuck s0 \<Longrightarrow> wake_stuck s"
  by (induction rule: wake_reach.induct) (auto intro: wake_stuck_step)

end
