(* ===== verification/Operation.thy ===== *)
theory Operation
  imports Rust_Int
begin

text \<open>
  The operations in flight of \<open>norn-uring/src/operation\<close>: the reference-counted cell of an operation and
  its header (\<open>header.rs\<close>, \<open>raw.rs\<close>), and the future \<open>Op\<close> with its stages (\<open>mod.rs\<close>). The cell is
  referred to by the future and by the submission queue entry, which carries its address through the
  kernel; a completion queue entry brings it back. Memory is a map from addresses to cells.

  What an operation does with a completion is the trait \<open>Operation\<close>: a record of its functions over the
  data of the operation. The flag test \<open>cqueue::more\<close> belongs to the crate \<open>io_uring\<close> and is
  a parameter too. The wakers that were called, and the data that was dropped with its operation, are logged.
\<close>

section \<open>Completions and the traits\<close>

record cqe_result =
  cr_result :: "i32 + u32" \<comment> \<open>the error number, or the result\<close>
  cr_flags :: u32

record ('d, 'o, 'i) op_class =
  cl_cleanup :: "'d \<Rightarrow> cqe_result \<Rightarrow> 'd"
  cl_complete :: "'d \<Rightarrow> cqe_result \<Rightarrow> 'o" \<comment> \<open>\<open>Singleshot::complete\<close>\<close>
  cl_update :: "'d \<Rightarrow> cqe_result \<Rightarrow> fault + 'd" \<comment> \<open>\<open>Singleshot::update\<close>\<close>
  cl_item :: "'d \<Rightarrow> cqe_result \<Rightarrow> fault + ('i \<times> 'd)" \<comment> \<open>\<open>Multishot::update\<close>\<close>
  cl_more :: "u32 \<Rightarrow> bool" \<comment> \<open>\<open>cqueue::more\<close>\<close>
  cl_debug :: bool

definition cqe_more :: "('d, 'o, 'i) op_class \<Rightarrow> cqe_result \<Rightarrow> bool" where
  "cqe_more T r = cl_more T (cr_flags r)"

text \<open>The default \<open>Singleshot::update\<close>.\<close>

definition default_update :: "'d \<Rightarrow> cqe_result \<Rightarrow> fault + 'd" where
  "default_update d r = Inl Panic"

section \<open>Headers and cells\<close>

record 'd raw_op =
  ro_refcount :: usize
  ro_waker :: "nat option"
  ro_completions :: "cqe_result list"
  ro_complete :: bool
  ro_data :: "'d option"

record 'd op_heap =
  oh_ops :: "u64 \<Rightarrow> 'd raw_op option"
  oh_woken :: "nat list"
  oh_dropped :: "(u64 \<times> 'd) list"

definition op_at :: "u64 \<Rightarrow> 'd op_heap \<Rightarrow> fault + 'd raw_op" where
  "op_at a h = (case oh_ops h a of None \<Rightarrow> Inl Dangling | Some r \<Rightarrow> Inr r)"

definition put_op :: "u64 \<Rightarrow> 'd raw_op \<Rightarrow> 'd op_heap \<Rightarrow> 'd op_heap" where
  "put_op a r h = h\<lparr>oh_ops := (oh_ops h)(a \<mapsto> r)\<rparr>"

definition raw_op_new :: "'d \<Rightarrow> 'd raw_op" where
  "raw_op_new d = \<lparr> ro_refcount = 1, ro_waker = None, ro_completions = [], ro_complete = False, ro_data = Some d \<rparr>"

text \<open>\<open>RawOp::allocate\<close>, with the address the allocator chose.\<close>

definition raw_allocate :: "u64 \<Rightarrow> 'd \<Rightarrow> 'd op_heap \<Rightarrow> 'd op_heap" where
  "raw_allocate a d h = put_op a (raw_op_new d) h"

definition inc_refcount :: "bool \<Rightarrow> 'd raw_op \<Rightarrow> fault + 'd raw_op" where
  "inc_refcount dbg r =
     and_then (assert_that (0 < ro_refcount r)) (\<lambda>_.
     and_then (add_word dbg (ro_refcount r) 1) (\<lambda>n. Inr (r\<lparr>ro_refcount := n\<rparr>)))"

definition dec_refcount :: "bool \<Rightarrow> 'd raw_op \<Rightarrow> fault + (bool \<times> 'd raw_op)" where
  "dec_refcount dbg r =
     and_then (assert_that (0 < ro_refcount r)) (\<lambda>_.
     and_then (sub_word dbg (ro_refcount r) 1) (\<lambda>n. Inr (n = 0, r\<lparr>ro_refcount := n\<rparr>)))"

definition clone_op :: "('d, 'o, 'i) op_class \<Rightarrow> u64 \<Rightarrow> 'd op_heap \<Rightarrow> fault + 'd op_heap" where
  "clone_op T a h =
     and_then (op_at a h) (\<lambda>r. and_then (inc_refcount (cl_debug T) r) (\<lambda>r. Inr (put_op a r h)))"

text \<open>\<open>RawOp::destroy\<close>: the completions nobody consumed are cleaned up in order.\<close>

definition destroy_op :: "('d, 'o, 'i) op_class \<Rightarrow> u64 \<Rightarrow> 'd op_heap \<Rightarrow> fault + 'd op_heap" where
  "destroy_op T a h =
     and_then (op_at a h) (\<lambda>r.
     and_then (debug_assert (cl_debug T) (ro_refcount r = 0)) (\<lambda>_. case ro_data r of
       Some d \<Rightarrow>
         Inr (h\<lparr>oh_ops := (oh_ops h)(a := None),
                oh_dropped := oh_dropped h @ [(a, foldl (cl_cleanup T) d (ro_completions r))]\<rparr>)
     | None \<Rightarrow> if ro_completions r = [] then Inr (h\<lparr>oh_ops := (oh_ops h)(a := None)\<rparr>) else Inl Panic))"

definition drop_op_ref :: "('d, 'o, 'i) op_class \<Rightarrow> u64 \<Rightarrow> 'd op_heap \<Rightarrow> fault + 'd op_heap" where
  "drop_op_ref T a h =
     and_then (op_at a h) (\<lambda>r.
     and_then (dec_refcount (cl_debug T) r) (\<lambda>(last, r).
       if last then destroy_op T a (put_op a r h) else Inr (put_op a r h)))"

section \<open>Completing an operation\<close>

definition take_waker :: "'d raw_op \<Rightarrow> nat option \<times> 'd raw_op" where
  "take_waker r = (ro_waker r, r\<lparr>ro_waker := None\<rparr>)"

definition raw_complete :: "('d, 'o, 'i) op_class \<Rightarrow> u64 \<Rightarrow> cqe_result \<Rightarrow> 'd op_heap \<Rightarrow> fault + 'd op_heap" where
  "raw_complete T a res h =
     and_then (op_at a h) (\<lambda>r.
     and_then (assert_that (\<not> ro_complete r)) (\<lambda>_.
       let r = r\<lparr>ro_completions := ro_completions r @ [res]\<rparr>;
           r = (if cqe_more T res then r else r\<lparr>ro_complete := True\<rparr>);
           (w, r) = take_waker r in
       Inr ((put_op a r h)\<lparr>oh_woken := oh_woken h @ (case w of None \<Rightarrow> [] | Some k \<Rightarrow> [k])\<rparr>)))"

text \<open>\<open>RawOpRef::complete\<close>: the reference is given up unless more completions follow.\<close>

definition ref_complete :: "('d, 'o, 'i) op_class \<Rightarrow> u64 \<Rightarrow> cqe_result \<Rightarrow> 'd op_heap \<Rightarrow> fault + 'd op_heap" where
  "ref_complete T a res h =
     and_then (raw_complete T a res h) (\<lambda>h. if cqe_more T res then Inr h else drop_op_ref T a h)"

record cqe =
  cq_user_data :: u64
  cq_result :: i32
  cq_flags :: u32

definition cqe_to_result :: "bool \<Rightarrow> cqe \<Rightarrow> fault + cqe_result" where
  "cqe_to_result dbg e =
     (if 0 \<le> sint (cq_result e) then Inr \<lparr> cr_result = Inr (cq_result e), cr_flags = cq_flags e \<rparr>
      else if dbg \<and> cq_result e = push_bit 31 1 then Inl Panic
      else Inr \<lparr> cr_result = Inl (- cq_result e), cr_flags = cq_flags e \<rparr>)"

definition complete_operation :: "('d, 'o, 'i) op_class \<Rightarrow> cqe \<Rightarrow> 'd op_heap \<Rightarrow> fault + 'd op_heap" where
  "complete_operation T e h =
     and_then (assert_that (1024 < cq_user_data e)) (\<lambda>_.
     and_then (cqe_to_result (cl_debug T) e) (\<lambda>res. ref_complete T (cq_user_data e) res h))"

section \<open>The typed handle\<close>

text \<open>\<open>take_completions\<close> and \<open>pop_completion\<close> hold a second reference while they run.\<close>

definition take_completions ::
  "('d, 'o, 'i) op_class \<Rightarrow> u64 \<Rightarrow> 'd op_heap \<Rightarrow> fault + (cqe_result list \<times> 'd op_heap)"
where
  "take_completions T a h =
     and_then (clone_op T a h) (\<lambda>h.
     and_then (op_at a h) (\<lambda>r.
     and_then (drop_op_ref T a (put_op a (r\<lparr>ro_completions := []\<rparr>) h)) (\<lambda>h.
     Inr (ro_completions r, h))))"

definition pop_completion ::
  "('d, 'o, 'i) op_class \<Rightarrow> u64 \<Rightarrow> 'd op_heap \<Rightarrow> fault + (cqe_result option \<times> 'd op_heap)"
where
  "pop_completion T a h =
     and_then (clone_op T a h) (\<lambda>h.
     and_then (op_at a h) (\<lambda>r.
       let (c, r) = (if ro_completions r = [] then (None, r)
         else (Some (last (ro_completions r)), r\<lparr>ro_completions := butlast (ro_completions r)\<rparr>)) in
     and_then (drop_op_ref T a (put_op a r h)) (\<lambda>h. Inr (c, h))))"

definition try_take :: "u64 \<Rightarrow> 'd op_heap \<Rightarrow> fault + ('d option \<times> 'd op_heap)" where
  "try_take a h =
     and_then (op_at a h) (\<lambda>r.
       if \<not> ro_complete r then Inr (None, h)
       else Inr (ro_data r, put_op a (r\<lparr>ro_data := None\<rparr>) h))"

definition register_waker :: "u64 \<Rightarrow> nat \<Rightarrow> 'd op_heap \<Rightarrow> fault + 'd op_heap" where
  "register_waker a w h = and_then (op_at a h) (\<lambda>r. Inr (put_op a (r\<lparr>ro_waker := Some w\<rparr>) h))"

text \<open>
  The loop of \<open>try_complete\<close> over the completions: all but the last update the data, and the last one
  completes the operation. Without any, it panics.
\<close>

fun complete_with :: "('d, 'o, 'i) op_class \<Rightarrow> 'd \<Rightarrow> cqe_result list \<Rightarrow> fault + 'o" where
  "complete_with T d [] = Inl Panic"
| "complete_with T d [r] = and_then (assert_that (\<not> cqe_more T r)) (\<lambda>_. Inr (cl_complete T d r))"
| "complete_with T d (r # rs) =
     and_then (assert_that (cqe_more T r)) (\<lambda>_. and_then (cl_update T d r) (\<lambda>d. complete_with T d rs))"

definition try_complete ::
  "('d, 'o, 'i) op_class \<Rightarrow> u64 \<Rightarrow> 'd op_heap \<Rightarrow> fault + ('o option \<times> 'd op_heap)"
where
  "try_complete T a h =
     and_then (op_at a h) (\<lambda>r.
       if \<not> ro_complete r then Inr (None, h)
       else
         and_then (take_completions T a h) (\<lambda>(rs, h).
         and_then (try_take a h) (\<lambda>(d, h). case d of
           None \<Rightarrow> Inl Panic
         | Some d \<Rightarrow> and_then (complete_with T d rs) (\<lambda>v. Inr (Some v, h)))))"

definition try_next ::
  "('d, 'o, 'i) op_class \<Rightarrow> u64 \<Rightarrow> 'd op_heap \<Rightarrow> fault + ('i option \<times> 'd op_heap)"
where
  "try_next T a h =
     and_then (pop_completion T a h) (\<lambda>(c, h). case c of
       None \<Rightarrow> Inr (None, h)
     | Some res \<Rightarrow>
         and_then (op_at a h) (\<lambda>r. case ro_data r of
           None \<Rightarrow> Inl Panic
         | Some d \<Rightarrow> and_then (cl_item T d res) (\<lambda>(v, d). Inr (Some v, put_op a (r\<lparr>ro_data := Some d\<rparr>) h))))"

section \<open>The future\<close>

text \<open>
  The future \<open>Op\<close>: its address, its stage and its flag. What the poll of the push future of the
  driver returns is an argument.
\<close>

datatype push_result = Push_Pending | Push_Done | Push_Closed

record op_future =
  of_addr :: u64
  of_submitted :: bool \<comment> \<open>\<open>Stage::Submitted\<close>, and not \<open>Unsubmitted\<close>\<close>
  of_completed :: bool

text \<open>\<open>Op::new\<close>: the cell, a reference for the future and one for the entry.\<close>

definition op_new ::
  "('d, 'o, 'i) op_class \<Rightarrow> u64 \<Rightarrow> 'd \<Rightarrow> 'd op_heap \<Rightarrow> fault + (op_future \<times> 'd op_heap)"
where
  "op_new T a d h =
     and_then (clone_op T a (raw_allocate a d h)) (\<lambda>h.
     Inr (\<lparr> of_addr = a, of_submitted = False, of_completed = False \<rparr>, h))"

definition poll_submit :: "push_result \<Rightarrow> op_future \<Rightarrow> fault + (bool \<times> op_future)" where
  "poll_submit p f =
     (if of_submitted f then Inr (True, f)
      else (case p of
          Push_Pending \<Rightarrow> Inr (False, f)
        | Push_Done \<Rightarrow> Inr (True, f\<lparr>of_submitted := True\<rparr>)
        | Push_Closed \<Rightarrow> Inl Panic))"

text \<open>The polls of \<open>Stage\<close>, then those of \<open>Op\<close>, which record that the operation has completed.\<close>

definition op_stage_poll ::
  "('d, 'o, 'i) op_class \<Rightarrow> push_result \<Rightarrow> nat \<Rightarrow> op_future \<Rightarrow> 'd op_heap
   \<Rightarrow> fault + ('o poll \<times> op_future \<times> 'd op_heap)"
where
  "op_stage_poll T p w f h =
     and_then (poll_submit p f) (\<lambda>(ready, f).
       if \<not> ready then Inr (Pending, f, h)
       else and_then (try_complete T (of_addr f) h) (\<lambda>(v, h). case v of
           Some v \<Rightarrow> Inr (Ready v, f, h)
         | None \<Rightarrow> and_then (register_waker (of_addr f) w h) (\<lambda>h. Inr (Pending, f, h))))"

definition op_poll ::
  "('d, 'o, 'i) op_class \<Rightarrow> push_result \<Rightarrow> nat \<Rightarrow> op_future \<Rightarrow> 'd op_heap
   \<Rightarrow> fault + ('o poll \<times> op_future \<times> 'd op_heap)"
where
  "op_poll T p w f h =
     and_then (op_stage_poll T p w f h) (\<lambda>(r, f, h). case r of
         Pending \<Rightarrow> Inr (Pending, f, h)
       | Ready v \<Rightarrow> Inr (Ready v, f\<lparr>of_completed := True\<rparr>, h))"

definition op_stage_poll_next ::
  "('d, 'o, 'i) op_class \<Rightarrow> push_result \<Rightarrow> nat \<Rightarrow> op_future \<Rightarrow> 'd op_heap
   \<Rightarrow> fault + ('i option poll \<times> op_future \<times> 'd op_heap)"
where
  "op_stage_poll_next T p w f h =
     and_then (poll_submit p f) (\<lambda>(ready, f).
       if \<not> ready then Inr (Pending, f, h)
       else and_then (try_next T (of_addr f) h) (\<lambda>(v, h). case v of
           Some v \<Rightarrow> Inr (Ready (Some v), f, h)
         | None \<Rightarrow> and_then (op_at (of_addr f) h) (\<lambda>r.
             if ro_complete r then Inr (Ready None, f, h)
             else and_then (register_waker (of_addr f) w h) (\<lambda>h. Inr (Pending, f, h)))))"

definition op_poll_next ::
  "('d, 'o, 'i) op_class \<Rightarrow> push_result \<Rightarrow> nat \<Rightarrow> op_future \<Rightarrow> 'd op_heap
   \<Rightarrow> fault + ('i option poll \<times> op_future \<times> 'd op_heap)"
where
  "op_poll_next T p w f h =
     and_then (op_stage_poll_next T p w f h) (\<lambda>(r, f, h). case r of
         Pending \<Rightarrow> Inr (Pending, f, h)
       | Ready v \<Rightarrow> Inr (Ready v, if v = None then f\<lparr>of_completed := True\<rparr> else f, h))"

text \<open>
  The drop of the future: the request to cancel that goes to the driver, and the state after its handle
  (and, before the submission, its entry) is dropped.
\<close>

definition op_drop ::
  "('d, 'o, 'i) op_class \<Rightarrow> op_future \<Rightarrow> 'd op_heap \<Rightarrow> fault + (u64 option \<times> 'd op_heap)"
where
  "op_drop T f h =
     (if of_submitted f
      then and_then (drop_op_ref T (of_addr f) h) (\<lambda>h.
           Inr (if of_completed f then None else Some (of_addr f), h))
      else and_then (drop_op_ref T (of_addr f) h) (\<lambda>h.
           and_then (drop_op_ref T (of_addr f) h) (\<lambda>h. Inr (None, h))))"

end
