(* ===== verification/Ring_Driver.thy ===== *)
theory Ring_Driver
  imports Notify Unpark Operation Park
begin

text \<open>
  The driver of the event loop, \<open>norn-uring/src/driver\<close>: the state all handles share and the operations on
  the rings (\<open>mod.rs\<close>), the future that pushes an entry (\<open>futures.rs\<close>) and the thread-local handle
  (\<open>context.rs\<close>). The rings belong to the crate \<open>io_uring\<close> and the kernel: they are a state of any type
  with a record of the operations the driver calls.
\<close>

section \<open>The rings\<close>

datatype fd_kind = Fd_Regular i32 | Fd_Fixed u32

text \<open>
  The requests of the crate, each with the arguments the program gives it. A path is its bytes, a socket
  address is its bytes, and a message header is its vector of memory regions and its name. An accept of one
  connection carries the place of the address and the number given as the place of its length; without them it
  accepts many.
\<close>

type_synonym path_bytes = "u8 list"
type_synonym sock_addr = "u8 list"

record msghdr =
  mh_iov :: "(usize \<times> usize) list"
  mh_name :: "sock_addr option"

datatype sqe_op =
    Sqe_Read_Event | Sqe_Nop | Sqe_Close fd_kind | Sqe_Async_Cancel u64
  | Sqe_Open_At i32 path_bytes i32 u32
  | Sqe_Unlink_At i32 path_bytes i32
  | Sqe_Mkdir_At i32 path_bytes u32
  | Sqe_Read fd_kind usize u32 u64
  | Sqe_Write fd_kind usize u32 u64
  | Sqe_Fsync fd_kind bool
  | Sqe_Sync_Range fd_kind u32 u64 u32
  | Sqe_Fallocate fd_kind u64 u64 i32
  | Sqe_Socket i32 i32 i32
  | Sqe_Connect fd_kind sock_addr
  | Sqe_Accept fd_kind "(sock_addr \<times> u32) option" i32
  | Sqe_Shutdown fd_kind i32
  | Sqe_Send fd_kind usize u32
  | Sqe_Recv fd_kind usize u32
  | Sqe_Send_Msg fd_kind msghdr
  | Sqe_Recv_Msg fd_kind msghdr
  | Sqe_Poll_Add fd_kind u32 bool

record sqe =
  sq_op :: sqe_op
  sq_io_drain :: bool
  sq_skip_success :: bool
  sq_buf_group :: "u16 option" \<comment> \<open>\<open>BUFFER_SELECT\<close> with its group\<close>
  sq_user_data :: u64

definition sqe_build :: "sqe_op \<Rightarrow> sqe" where
  "sqe_build p = \<lparr> sq_op = p, sq_io_drain = False, sq_skip_success = False, sq_buf_group = None, sq_user_data = 0 \<rparr>"

text \<open>What is cancelled: the request with the given user data, or all (\<open>None\<close>).\<close>

record 'k uring =
  ur_sq_full :: "'k \<Rightarrow> bool"
  ur_sq_push :: "sqe \<Rightarrow> 'k \<Rightarrow> 'k option"
  ur_cq_full :: "'k \<Rightarrow> bool"
  ur_cq_len :: "'k \<Rightarrow> nat"
  ur_cq_fill :: "nat \<Rightarrow> 'k \<Rightarrow> cqe list \<times> 'k"
  ur_submit :: "'k \<Rightarrow> (i32 + usize) \<times> 'k"
  ur_submit_args :: "nat \<Rightarrow> (nat \<times> nat) option \<Rightarrow> 'k \<Rightarrow> (i32 + usize) \<times> 'k" \<comment> \<open>how many to wait for, seconds and nanoseconds\<close>
  ur_sync_cancel :: "u64 option \<Rightarrow> 'k \<Rightarrow> (i32 + unit) \<times> 'k"
  ur_ebusy :: i32
  ur_eintr :: i32

section \<open>The shared state\<close>

datatype status = Status_Running | Status_Draining | Status_Shutdown

record ('k, 'd) driver =
  dr_ring :: 'k
  dr_backpressure :: notifier
  dr_status :: status
  dr_unparker :: u8
  dr_event :: nat \<comment> \<open>the writes to the eventfd\<close>
  dr_ops :: "'d op_heap"

definition DRAIN_TOKEN :: u64 where "DRAIN_TOKEN = 1"
definition UNPARKER_WAKE_TOKEN :: u64 where "UNPARKER_WAKE_TOKEN = 2"
definition CANCELLATION_TOKEN :: u64 where "CANCELLATION_TOKEN = 3"
definition CLOSE_FD_TOKEN :: u64 where "CLOSE_FD_TOKEN = 4"

definition driver_new :: "env \<Rightarrow> 'k \<Rightarrow> ('k, 'd) driver" where
  "driver_new C k = \<lparr> dr_ring = k, dr_backpressure = notifier_new C, dr_status = Status_Running, dr_unparker = 0,
     dr_event = 0, dr_ops = \<lparr> oh_ops = (\<lambda>_. None), oh_woken = [], oh_dropped = [] \<rparr> \<rparr>"

definition notify_waiting :: "env \<Rightarrow> usize \<Rightarrow> ('k, 'd) driver \<Rightarrow> (fault + ('k, 'd) driver) option" where
  "notify_waiting C n s = run_then (notify_n C n (dr_backpressure s)) (\<lambda>(_, b). Some (Inr (s\<lparr>dr_backpressure := b\<rparr>)))"

definition set_status :: "env \<Rightarrow> status \<Rightarrow> ('k, 'd) driver \<Rightarrow> (fault + ('k, 'd) driver) option" where
  "set_status C st s =
     run_then (if st \<noteq> dr_status s then notify_waiting C (- 1) s else Some (Inr s)) (\<lambda>s.
     Some (Inr (s\<lparr>dr_status := st\<rparr>)))"

text \<open>A configured entry is the address of its operation and what it asks for.\<close>

definition into_entry :: "u64 \<times> sqe \<Rightarrow> sqe" where
  "into_entry e = (snd e)\<lparr>sq_user_data := fst e\<rparr>"

text \<open>\<open>try_push\<close> gives the entry back (\<open>Some\<close>) if the queue is full.\<close>

definition try_push ::
  "'k uring \<Rightarrow> u64 \<times> sqe \<Rightarrow> ('k, 'd) driver \<Rightarrow> fault + ((u64 \<times> sqe) option \<times> ('k, 'd) driver)"
where
  "try_push U e s =
     (if ur_sq_full U (dr_ring s) then Inr (Some e, s)
      else case ur_sq_push U (into_entry e) (dr_ring s) of
          None \<Rightarrow> Inl Panic
        | Some k \<Rightarrow> Inr (None, s\<lparr>dr_ring := k\<rparr>))"

definition try_push_raw :: "'k uring \<Rightarrow> sqe \<Rightarrow> ('k, 'd) driver \<Rightarrow> bool \<times> ('k, 'd) driver" where
  "try_push_raw U e s = (case ur_sq_push U e (dr_ring s) of
     None \<Rightarrow> (False, s)
   | Some k \<Rightarrow> (True, s\<lparr>dr_ring := k\<rparr>))"

definition shared_submit ::
  "env \<Rightarrow> 'k uring \<Rightarrow> park_mode \<Rightarrow> ('k, 'd) driver \<Rightarrow> (fault + ((io_error + usize) \<times> ('k, 'd) driver)) option"
where
  "shared_submit C U mode s =
     (let (r, k) = (case mode of
          Timeout t \<Rightarrow> ur_submit_args U 1 (Some (t div 1000000000, t mod 1000000000)) (dr_ring s)
        | NextCompletion \<Rightarrow> ur_submit_args U 1 None (dr_ring s)
        | NoPark \<Rightarrow> ur_submit U (dr_ring s));
        s = s\<lparr>dr_ring := k\<rparr>
      in case r of
          Inl e \<Rightarrow> Some (Inr (Inl (Os_Error e), s))
        | Inr n \<Rightarrow> run_then (notify_waiting C n s) (\<lambda>s. Some (Inr (Inr n, s))))"

definition try_push_raw_submit ::
  "env \<Rightarrow> 'k uring \<Rightarrow> sqe \<Rightarrow> ('k, 'd) driver \<Rightarrow> (fault + ((io_error + unit) \<times> ('k, 'd) driver)) option"
where
  "try_push_raw_submit C U e s =
     (let (ok, s) = try_push_raw U e s in
      run_then (if ok then Some (Inr (Inr 0, s)) else shared_submit C U NoPark s) (\<lambda>(r, s). case r of
          Inl x \<Rightarrow> Some (Inr (Inl x, s))
        | Inr _ \<Rightarrow>
            let (ok, s) = try_push_raw U e s in
            Some (Inr (if ok then Inr () else Inl Other_Error, s))))"

definition driver_cancel ::
  "env \<Rightarrow> 'k uring \<Rightarrow> u64 \<Rightarrow> bool \<Rightarrow> ('k, 'd) driver \<Rightarrow> (fault + ((io_error + unit) \<times> ('k, 'd) driver)) option"
where
  "driver_cancel C U a sync s =
     run_then (shared_submit C U NoPark s) (\<lambda>(r, s). case r of
         Inl x \<Rightarrow> Some (Inr (Inl x, s))
       | Inr _ \<Rightarrow>
           if \<not> sync \<and> \<not> ur_sq_full U (dr_ring s)
           then (case ur_sq_push U ((sqe_build (Sqe_Async_Cancel a))\<lparr>sq_skip_success := True, sq_user_data := CANCELLATION_TOKEN\<rparr>) (dr_ring s) of
               None \<Rightarrow> Some (Inl Panic)
             | Some k \<Rightarrow> Some (Inr (Inr (), s\<lparr>dr_ring := k\<rparr>)))
           else
             let (r, k) = ur_sync_cancel U (Some a) (dr_ring s) in
             Some (Inr (case r of Inl e \<Rightarrow> Inl (Os_Error e) | Inr _ \<Rightarrow> Inr (), s\<lparr>dr_ring := k\<rparr>)))"

definition driver_close_fd ::
  "env \<Rightarrow> 'k uring \<Rightarrow> fd_kind \<Rightarrow> ('k, 'd) driver \<Rightarrow> (fault + ((io_error + unit) \<times> ('k, 'd) driver)) option"
where
  "driver_close_fd C U fd s =
     try_push_raw_submit C U ((sqe_build (Sqe_Close fd))\<lparr>sq_skip_success := True, sq_user_data := CLOSE_FD_TOKEN\<rparr>) s"

definition cancel_all :: "'k uring \<Rightarrow> ('k, 'd) driver \<Rightarrow> (io_error + unit) \<times> ('k, 'd) driver" where
  "cancel_all U s = (let (r, k) = ur_sync_cancel U None (dr_ring s) in
     (case r of Inl e \<Rightarrow> Inl (Os_Error e) | Inr _ \<Rightarrow> Inr (), s\<lparr>dr_ring := k\<rparr>))"

definition driver_needs_park :: "'k uring \<Rightarrow> ('k, 'd) driver \<Rightarrow> bool" where
  "driver_needs_park U s \<longleftrightarrow> 0 < notify_waiters (dr_backpressure s) \<or> ur_sq_full U (dr_ring s) \<or> ur_cq_full U (dr_ring s)"

text \<open>The entries that fit in a buffer of \<open>n\<close>, and whether there were more.\<close>

definition drain_fill :: "'k uring \<Rightarrow> nat \<Rightarrow> ('k, 'd) driver \<Rightarrow> cqe list \<times> bool \<times> ('k, 'd) driver" where
  "drain_fill U n s =
     (let has_more = n < ur_cq_len U (dr_ring s); (es, k) = ur_cq_fill U n (dr_ring s) in
      (es, has_more, s\<lparr>dr_ring := k\<rparr>))"

section \<open>Parking\<close>

definition event_read :: sqe where
  "event_read = (sqe_build Sqe_Read_Event)\<lparr>sq_user_data := UNPARKER_WAKE_TOKEN\<rparr>"

definition prepare_park :: "'k uring \<Rightarrow> ('k, 'd) driver \<Rightarrow> bool \<times> ('k, 'd) driver" where
  "prepare_park U s =
     (if dr_status s \<noteq> Status_Running then (True, s)
      else
        let (st, flag) = unparker_park (dr_unparker s); s = s\<lparr>dr_unparker := flag\<rparr> in
        if \<not> up_is_parked st
        then (let (ok, s) = try_push_raw U event_read s in if ok then (\<not> up_woken st, s) else (False, s))
        else (\<not> up_woken st, s))"

definition driver_submit ::
  "env \<Rightarrow> 'k uring \<Rightarrow> park_mode \<Rightarrow> ('k, 'd) driver \<Rightarrow> (fault + ((io_error + usize) \<times> ('k, 'd) driver)) option"
where
  "driver_submit C U mode s =
     (let (mode, s) = (if mode = NoPark then (mode, s)
        else let (ready, s) = prepare_park U s in (if ready then mode else NoPark, s))
      in shared_submit C U mode s)"

text \<open>One entry of the completion queue.\<close>

definition drain_entry ::
  "env \<Rightarrow> ('d, 'o, 'i) op_class \<Rightarrow> cqe \<Rightarrow> ('k, 'd) driver \<Rightarrow> (fault + ('k, 'd) driver) option"
where
  "drain_entry C T e s =
     (let u = cq_user_data e in
      if u = DRAIN_TOKEN then set_status C Status_Shutdown s
      else if u = UNPARKER_WAKE_TOKEN then Some (Inr (s\<lparr>dr_unparker := unparker_reset (dr_unparker s)\<rparr>))
      else if u = CANCELLATION_TOKEN then Some (Inr s)
      else if u = CLOSE_FD_TOKEN then Some (Inr s)
      else if u \<le> 1024 then Some (and_then (cqe_to_result (cl_debug T) e) (\<lambda>_. Inr s))
      else Some (and_then (complete_operation T e (dr_ops s)) (\<lambda>h. Inr (s\<lparr>dr_ops := h\<rparr>))))"

fun drain_entries ::
  "env \<Rightarrow> ('d, 'o, 'i) op_class \<Rightarrow> cqe list \<Rightarrow> ('k, 'd) driver \<Rightarrow> (fault + ('k, 'd) driver) option"
where
  "drain_entries C T [] s = Some (Inr s)"
| "drain_entries C T (e # es) s = run_then (drain_entry C T e s) (drain_entries C T es)"

text \<open>
  \<open>Driver::drain\<close> with a buffer of 32 entries and no limit (\<open>usize::MAX\<close>), as \<open>park\<close> calls it: the
  number of entries it has drained.
\<close>

partial_function (option) drain_loop ::
  "env \<Rightarrow> 'k uring \<Rightarrow> ('d, 'o, 'i) op_class \<Rightarrow> nat \<Rightarrow> ('k, 'd) driver \<Rightarrow> (fault + (nat \<times> ('k, 'd) driver)) option"
where
  "drain_loop C U T drained s =
     (case drain_fill U 32 s of (es, has_more, s) \<Rightarrow>
      run_then (drain_entries C T es s) (\<lambda>s.
        if \<not> has_more then Some (Inr (drained + length es, s)) else drain_loop C U T (drained + length es) s))"

declare drain_loop.simps [code]

definition driver_drain ::
  "env \<Rightarrow> 'k uring \<Rightarrow> ('d, 'o, 'i) op_class \<Rightarrow> ('k, 'd) driver \<Rightarrow> (fault + (nat \<times> ('k, 'd) driver)) option"
where
  "driver_drain C U T s = drain_loop C U T 0 s"

partial_function (option) park_loop ::
  "env \<Rightarrow> 'k uring \<Rightarrow> ('d, 'o, 'i) op_class \<Rightarrow> park_mode \<Rightarrow> ('k, 'd) driver
   \<Rightarrow> (fault + ((io_error + unit) \<times> ('k, 'd) driver)) option"
where
  "park_loop C U T mode s =
     run_then (driver_submit C U mode s) (\<lambda>(r, s). case r of
         Inr _ \<Rightarrow> Some (Inr (Inr (), s))
       | Inl x \<Rightarrow>
           if x = Os_Error (ur_ebusy U)
           then run_then (driver_drain C U T s) (\<lambda>(_, s). park_loop C U T NoPark s)
           else if x = Os_Error (ur_eintr U) then park_loop C U T mode s
           else Some (Inr (Inl x, s)))"

declare park_loop.simps [code]

definition driver_park ::
  "env \<Rightarrow> 'k uring \<Rightarrow> ('d, 'o, 'i) op_class \<Rightarrow> park_mode \<Rightarrow> ('k, 'd) driver
   \<Rightarrow> (fault + ((io_error + unit) \<times> ('k, 'd) driver)) option"
where
  "driver_park C U T mode s =
     run_then (driver_drain C U T s) (\<lambda>(n, s). park_loop C U T (if 0 < n then NoPark else mode) s)"

text \<open>\<open>Unparker::wake\<close> from the driver's own thread.\<close>

definition driver_wake :: "('k, 'd) driver \<Rightarrow> ('k, 'd) driver" where
  "driver_wake s = (let (writes, flag) = unparker_wake (dr_unparker s) in
     s\<lparr>dr_unparker := flag, dr_event := dr_event s + (if writes then 1 else 0)\<rparr>)"

text \<open>The body of the loop of \<open>Driver::shutdown\<close>; \<open>unwrap\<close> panics on an error.\<close>

definition shutdown_running ::
  "env \<Rightarrow> 'k uring \<Rightarrow> ('k, 'd) driver \<Rightarrow> (fault + ('k, 'd) driver) option"
where
  "shutdown_running C U s =
     run_then (shared_submit C U NoPark (driver_wake s)) (\<lambda>(r, s). case r of
         Inl _ \<Rightarrow> Some (Inl Panic)
       | Inr _ \<Rightarrow> (case cancel_all U s of
             (Inl _, _) \<Rightarrow> Some (Inl Panic)
           | (Inr _, s) \<Rightarrow>
               let (ok, s) = try_push_raw U ((sqe_build Sqe_Nop)\<lparr>sq_io_drain := True, sq_user_data := DRAIN_TOKEN\<rparr>) s in
               if ok then set_status C Status_Draining s else Some (Inr s)))"

partial_function (option) driver_shutdown ::
  "env \<Rightarrow> 'k uring \<Rightarrow> ('d, 'o, 'i) op_class \<Rightarrow> ('k, 'd) driver \<Rightarrow> (fault + ('k, 'd) driver) option"
where
  "driver_shutdown C U T s =
     (if dr_status s = Status_Shutdown then Some (Inr s)
      else
        run_then (if dr_status s = Status_Running then shutdown_running C U s else Some (Inr s)) (\<lambda>s.
        run_then (if dr_status s = Status_Draining
            then run_then (driver_park C U T NextCompletion s) (\<lambda>(r, s). case r of
                   Inl _ \<Rightarrow> Some (Inl Panic) | Inr _ \<Rightarrow> Some (Inr s))
            else Some (Inr s)) (\<lambda>s.
        driver_shutdown C U T s)))"

declare driver_shutdown.simps [code]

section \<open>The push future\<close>

text \<open>
  \<open>PushFutureInner\<close>: the address of its \<open>Notified\<close>, while it waits, and the entry. The address of a new
  \<open>Notified\<close> is the place the future keeps it in, \<open>pf_slot\<close>.
\<close>

record push_future =
  pf_slot :: nat
  pf_waiting :: bool
  pf_entry :: "(u64 \<times> sqe) option"

definition push_future_new :: "nat \<Rightarrow> u64 \<times> sqe \<Rightarrow> push_future" where
  "push_future_new slot e = \<lparr> pf_slot = slot, pf_waiting = False, pf_entry = Some e \<rparr>"

text \<open>The result: pending, pushed, or shutting down.\<close>

partial_function (option) push_poll ::
  "env \<Rightarrow> 'k uring \<Rightarrow> nat \<Rightarrow> push_future \<Rightarrow> ('k, 'd) driver
   \<Rightarrow> (fault + (push_result \<times> push_future \<times> ('k, 'd) driver)) option"
where
  "push_poll C U w f s =
     (if dr_status s \<noteq> Status_Running then Some (Inr (Push_Closed, f, s))
      else
        run_then (if pf_waiting f
            then Some (and_then (notified_poll C (pf_slot f) w (dr_backpressure s)) (\<lambda>(r, b).
                   Inr (r = Pending, s\<lparr>dr_backpressure := b\<rparr>)))
            else Some (Inr (False, s))) (\<lambda>(wait, s).
          if wait then Some (Inr (Push_Pending, f, s))
          else
            run_then (if pf_waiting f
                then run_then (notified_drop C (pf_slot f) (dr_backpressure s)) (\<lambda>b. Some (Inr (s\<lparr>dr_backpressure := b\<rparr>)))
                else Some (Inr s)) (\<lambda>s.
              case pf_entry f of
                None \<Rightarrow> Some (Inl Panic)
              | Some e \<Rightarrow>
                  run_then (Some (try_push U e s)) (\<lambda>(back, s). case back of
                      None \<Rightarrow> Some (Inr (Push_Done, f\<lparr>pf_waiting := False, pf_entry := None\<rparr>, s))
                    | Some e \<Rightarrow>
                        push_poll C U w (f\<lparr>pf_waiting := True, pf_entry := Some e\<rparr>)
                          (s\<lparr>dr_backpressure := notify_wait (pf_slot f) (dr_backpressure s)\<rparr>)))))"

declare push_poll.simps [code]

text \<open>The drop of the push future: its \<open>Notified\<close>, then its entry with the reference it holds.\<close>

definition push_drop ::
  "env \<Rightarrow> ('d, 'o, 'i) op_class \<Rightarrow> push_future \<Rightarrow> ('k, 'd) driver \<Rightarrow> (fault + ('k, 'd) driver) option"
where
  "push_drop C T f s =
     run_then (if pf_waiting f
         then run_then (notified_drop C (pf_slot f) (dr_backpressure s)) (\<lambda>b. Some (Inr (s\<lparr>dr_backpressure := b\<rparr>)))
         else Some (Inr s)) (\<lambda>s. case pf_entry f of
           None \<Rightarrow> Some (Inr s)
         | Some e \<Rightarrow> Some (and_then (drop_op_ref T (fst e) (dr_ops s)) (\<lambda>h. Inr (s\<lparr>dr_ops := h\<rparr>))))"

section \<open>The operation on the driver\<close>

text \<open>
  The future \<open>Op\<close> together with the push future it owns until the entry is in the queue. \<open>configure\<close> is
  \<open>Operation::configure\<close> of the data; the address of the cell and the place of the push future are chosen
  by the allocator.
\<close>

definition handle_push :: "nat \<Rightarrow> u64 \<times> sqe \<Rightarrow> push_future" where
  "handle_push slot e = push_future_new slot e"

definition handle_submit ::
  "('d, 'o, 'i) op_class \<Rightarrow> ('d \<Rightarrow> sqe) \<Rightarrow> u64 \<Rightarrow> nat \<Rightarrow> 'd \<Rightarrow> ('k, 'd) driver
   \<Rightarrow> fault + (op_future \<times> push_future \<times> ('k, 'd) driver)"
where
  "handle_submit T configure a slot d s =
     and_then (op_new T a d (dr_ops s)) (\<lambda>(f, h). Inr (f, handle_push slot (a, configure d), s\<lparr>dr_ops := h\<rparr>))"

text \<open>The poll of the push future, unless the entry was pushed before.\<close>

definition poll_push ::
  "env \<Rightarrow> 'k uring \<Rightarrow> nat \<Rightarrow> op_future \<Rightarrow> push_future \<Rightarrow> ('k, 'd) driver
   \<Rightarrow> (fault + (push_result \<times> push_future \<times> ('k, 'd) driver)) option"
where
  "poll_push C U w f pf s = (if of_submitted f then Some (Inr (Push_Done, pf, s)) else push_poll C U w pf s)"

definition driver_poll_op ::
  "env \<Rightarrow> 'k uring \<Rightarrow> ('d, 'o, 'i) op_class \<Rightarrow> nat \<Rightarrow> op_future \<Rightarrow> push_future \<Rightarrow> ('k, 'd) driver
   \<Rightarrow> (fault + ('o poll \<times> op_future \<times> push_future \<times> ('k, 'd) driver)) option"
where
  "driver_poll_op C U T w f pf s =
     run_then (poll_push C U w f pf s) (\<lambda>(p, pf, s).
     Some (and_then (op_poll T p w f (dr_ops s)) (\<lambda>(r, f, h). Inr (r, f, pf, s\<lparr>dr_ops := h\<rparr>))))"

definition driver_poll_next ::
  "env \<Rightarrow> 'k uring \<Rightarrow> ('d, 'o, 'i) op_class \<Rightarrow> nat \<Rightarrow> op_future \<Rightarrow> push_future \<Rightarrow> ('k, 'd) driver
   \<Rightarrow> (fault + ('i option poll \<times> op_future \<times> push_future \<times> ('k, 'd) driver)) option"
where
  "driver_poll_next C U T w f pf s =
     run_then (poll_push C U w f pf s) (\<lambda>(p, pf, s).
     Some (and_then (op_poll_next T p w f (dr_ops s)) (\<lambda>(r, f, h). Inr (r, f, pf, s\<lparr>dr_ops := h\<rparr>))))"

text \<open>
  The drop: a submitted operation that has not completed is cancelled, whatever comes of it; then the handle
  is dropped, and before the submission the push future with its entry.
\<close>

definition driver_drop_op ::
  "env \<Rightarrow> 'k uring \<Rightarrow> ('d, 'o, 'i) op_class \<Rightarrow> op_future \<Rightarrow> push_future \<Rightarrow> ('k, 'd) driver
   \<Rightarrow> (fault + ('k, 'd) driver) option"
where
  "driver_drop_op C U T f pf s =
     run_then (if of_submitted f \<and> \<not> of_completed f then driver_cancel C U (of_addr f) False s else Some (Inr (Inr (), s))) (\<lambda>(_, s).
     run_then (Some (drop_op_ref T (of_addr f) (dr_ops s))) (\<lambda>h.
     if of_submitted f then Some (Inr (s\<lparr>dr_ops := h\<rparr>)) else push_drop C T pf (s\<lparr>dr_ops := h\<rparr>)))"

section \<open>The thread-local handle\<close>

definition driver_ctx_enter :: "'h \<Rightarrow> 'h option \<Rightarrow> fault + 'h option" where
  "driver_ctx_enter h c = and_then (assert_that (c = None)) (\<lambda>_. Inr (Some h))"

definition driver_ctx_leave :: "'h option \<Rightarrow> fault + 'h option" where
  "driver_ctx_leave c = and_then (assert_that (c \<noteq> None)) (\<lambda>_. Inr None)"

text \<open>\<open>Handle::current\<close> panics outside a driver context.\<close>

definition driver_handle_current :: "'h option \<Rightarrow> fault + 'h" where
  "driver_handle_current c = (case c of None \<Rightarrow> Inl Panic | Some h \<Rightarrow> Inr h)"

end
