(* ===== verification/Ring_Spec.thy ===== *)
theory Ring_Spec
  imports Ring_Driver
begin

text \<open>
  What the driver's operations do to the rings, proved over an interface of the rings: the laws of
  the submission and completion queue that the documentation of \<open>io_uring\<close> states. The completion queue grows only
  while the thread submits. The interface holds for a simulated ring, which also serves the instances of
  the properties.
\<close>

section \<open>Draining does not touch the rings\<close>

lemma notify_waiting_frame:
  "notify_waiting C n (s\<lparr>dr_ring := k\<rparr>) = run_then (notify_waiting C n s) (\<lambda>s. Some (Inr (s\<lparr>dr_ring := k\<rparr>)))"
  by (auto simp: notify_waiting_def run_then_def split: option.splits sum.splits prod.splits)

lemma drain_entry_frame:
  "drain_entry C T e (s\<lparr>dr_ring := k\<rparr>) = run_then (drain_entry C T e s) (\<lambda>s. Some (Inr (s\<lparr>dr_ring := k\<rparr>)))"
  by (auto simp: drain_entry_def set_status_def notify_waiting_frame and_then_def run_then_def Let_def
      split: option.splits sum.splits)

lemma run_then_assoc: "run_then (run_then m f) g = run_then m (\<lambda>x. run_then (f x) g)"
  by (simp add: run_then_def split: option.splits sum.splits)

lemma drain_entries_frame:
  "drain_entries C T es (s\<lparr>dr_ring := k\<rparr>) = run_then (drain_entries C T es s) (\<lambda>s. Some (Inr (s\<lparr>dr_ring := k\<rparr>)))"
proof (induction es arbitrary: s)
  case (Cons e es)
  then show ?case by (simp add: drain_entry_frame run_then_assoc)
qed simp

lemma drain_entries_append:
  "drain_entries C T (es @ es') s = run_then (drain_entries C T es s) (drain_entries C T es')"
proof (induction es arbitrary: s)
  case (Cons e es)
  show ?case by (simp add: run_then_assoc ext [OF Cons.IH])
qed simp

section \<open>The interface\<close>

locale io_ring =
  fixes U :: "'k uring" and capacity :: nat and sq :: "'k \<Rightarrow> sqe list" and cq :: "'k \<Rightarrow> cqe list"
  assumes full_law: "ur_sq_full U k \<longleftrightarrow> capacity \<le> length (sq k)"
    and push_full: "capacity \<le> length (sq k) \<Longrightarrow> ur_sq_push U e k = None"
    and push_room: "length (sq k) < capacity \<Longrightarrow>
      \<exists>k'. ur_sq_push U e k = Some k' \<and> sq k' = sq k @ [e] \<and> cq k' = cq k"
    and len_law: "ur_cq_len U k = length (cq k)"
    and fill_law: "\<exists>k'. ur_cq_fill U n k = (take n (cq k), k') \<and> cq k' = drop n (cq k) \<and> sq k' = sq k"
begin

lemma try_push_full: "capacity \<le> length (sq (dr_ring s)) \<Longrightarrow> try_push U e s = Inr (Some e, s)"
  by (simp add: try_push_def full_law)

lemma try_push_room:
  assumes "length (sq (dr_ring s)) < capacity"
  shows "\<exists>k. try_push U e s = Inr (None, s\<lparr>dr_ring := k\<rparr>) \<and> sq k = sq (dr_ring s) @ [into_entry e] \<and> cq k = cq (dr_ring s)"
  using push_room [OF assms, of "into_entry e"] assms by (auto simp: try_push_def full_law)

lemma try_push_raw_room:
  assumes "length (sq (dr_ring s)) < capacity"
  shows "\<exists>k. try_push_raw U e s = (True, s\<lparr>dr_ring := k\<rparr>) \<and> sq k = sq (dr_ring s) @ [e] \<and> cq k = cq (dr_ring s)"
  using push_room [OF assms, of e] by (auto simp: try_push_raw_def)

lemma try_push_raw_full: "capacity \<le> length (sq (dr_ring s)) \<Longrightarrow> try_push_raw U e s = (False, s)"
  by (simp add: try_push_raw_def push_full)

text \<open>\<open>try_push_raw_submit\<close> pushes its entry again after it has pushed it.\<close>

lemma push_raw_submit_twice:
  assumes "length (sq (dr_ring s)) + 2 \<le> capacity"
  shows "\<exists>s'. try_push_raw_submit C U e s = Some (Inr (Inr (), s')) \<and> sq (dr_ring s') = sq (dr_ring s) @ [e, e]"
proof -
  obtain k where k: "try_push_raw U e s = (True, s\<lparr>dr_ring := k\<rparr>)" "sq k = sq (dr_ring s) @ [e]"
    using try_push_raw_room [of s e] assms by auto
  obtain k' where k': "try_push_raw U e (s\<lparr>dr_ring := k\<rparr>) = (True, s\<lparr>dr_ring := k'\<rparr>)" "sq k' = sq k @ [e]"
    using try_push_raw_room [of "s\<lparr>dr_ring := k\<rparr>" e] k(2) assms by auto
  show ?thesis using k k' by (simp add: try_push_raw_submit_def)
qed

text \<open>Draining handles every entry of the completion queue, in order, and empties it.\<close>

lemma drain_loop_spec:
  shows "\<exists>k. cq k = [] \<and> sq k = sq (dr_ring s) \<and> drain_loop C U T d s =
    run_then (drain_entries C T (cq (dr_ring s)) (s\<lparr>dr_ring := k\<rparr>)) (\<lambda>s'. Some (Inr (d + length (cq (dr_ring s)), s')))"
proof (induction "length (cq (dr_ring s))" arbitrary: s d rule: less_induct)
  case less
  let ?q = "cq (dr_ring s)"
  obtain k where k: "ur_cq_fill U 32 (dr_ring s) = (take 32 ?q, k)" "cq k = drop 32 ?q" "sq k = sq (dr_ring s)"
    using fill_law by blast
  have fill: "drain_fill U 32 s = (take 32 ?q, 32 < length ?q, s\<lparr>dr_ring := k\<rparr>)"
    using k(1) by (simp add: drain_fill_def len_law)
  have step: "drain_loop C U T d s = run_then (drain_entries C T (take 32 ?q) (s\<lparr>dr_ring := k\<rparr>)) (\<lambda>s.
      if \<not> 32 < length ?q then Some (Inr (d + length (take 32 ?q), s)) else drain_loop C U T (d + length (take 32 ?q)) s)"
    by (subst drain_loop.simps) (simp add: fill)
  show ?case
  proof (cases "32 < length ?q")
    case False
    then show ?thesis using step k(2,3) by (intro exI [of _ k]) simp
  next
    case True
    then have lt: "length (cq k) < length ?q" using k(2) by simp
    show ?thesis
    proof (cases "drain_entries C T (take 32 ?q) (s\<lparr>dr_ring := k\<rparr>)")
      case None
      obtain k' where "cq k' = []" "sq k' = sq (dr_ring s)"
        using less.hyps [of "s\<lparr>dr_ring := k\<rparr>"] lt k(3) by auto
      moreover have "drain_entries C T (take 32 ?q) (s\<lparr>dr_ring := k'\<rparr>) = None" for k'
        using None by (simp add: drain_entries_frame run_then_def split: option.splits sum.splits)
      then have "drain_entries C T ?q (s\<lparr>dr_ring := k'\<rparr>) = None" for k'
        using drain_entries_append [of C T "take 32 ?q" "drop 32 ?q" "s\<lparr>dr_ring := k'\<rparr>"] by simp
      ultimately show ?thesis using step None by (intro exI [of _ k']) simp
    next
      case (Some r)
      obtain k0 where k0: "cq k0 = []" "sq k0 = sq (dr_ring s)"
        using less.hyps [of "s\<lparr>dr_ring := k\<rparr>"] lt k(3) by auto
      have other: "drain_entries C T (take 32 ?q) (s\<lparr>dr_ring := k'\<rparr>) =
          Some (case r of Inl e \<Rightarrow> Inl e | Inr s' \<Rightarrow> Inr (s'\<lparr>dr_ring := k'\<rparr>))" for k'
        using Some by (auto simp: drain_entries_frame run_then_def split: option.splits sum.splits)
      show ?thesis
      proof (cases r)
        case (Inl e)
        have "drain_entries C T ?q (s\<lparr>dr_ring := k0\<rparr>) = Some (Inl e)"
          using drain_entries_append [of C T "take 32 ?q" "drop 32 ?q" "s\<lparr>dr_ring := k0\<rparr>"] other [of k0] Inl by simp
        then show ?thesis using step Some Inl k0 by (intro exI [of _ k0]) simp
      next
        case (Inr s1)
        have ring1: "dr_ring s1 = k"
          using other [of k] Some Inr by (metis driver.select_convs(1) driver.surjective driver.update_convs(1) option.inject old.sum.simps(6) sum.inject(2))
        have "length (cq (dr_ring s1)) < length ?q" using ring1 k(2) True by simp
        from less.hyps [OF this, of "d + length (take 32 ?q)"]
        obtain k' where k': "cq k' = []" "sq k' = sq k" "drain_loop C U T (d + length (take 32 ?q)) s1 =
            run_then (drain_entries C T (drop 32 ?q) (s1\<lparr>dr_ring := k'\<rparr>)) (\<lambda>s'. Some (Inr (d + length (take 32 ?q) + length (drop 32 ?q), s')))"
          using ring1 k(2) by auto
        have "drain_entries C T ?q (s\<lparr>dr_ring := k'\<rparr>) = drain_entries C T (drop 32 ?q) (s1\<lparr>dr_ring := k'\<rparr>)"
          using drain_entries_append [of C T "take 32 ?q" "drop 32 ?q" "s\<lparr>dr_ring := k'\<rparr>"] other [of k'] Inr by simp
        moreover have "d + length (take 32 ?q) + length (drop 32 ?q) = d + length ?q" using True by simp
        ultimately show ?thesis using step Some Inr True k' k(3) by (intro exI [of _ k']) simp
      qed
    qed
  qed
qed

lemma drain_spec:
  "\<exists>k. cq k = [] \<and> sq k = sq (dr_ring s) \<and> driver_drain C U T s =
    run_then (drain_entries C T (cq (dr_ring s)) (s\<lparr>dr_ring := k\<rparr>)) (\<lambda>s'. Some (Inr (length (cq (dr_ring s)), s')))"
  using drain_loop_spec [of s C T 0] by (simp add: driver_drain_def)

section \<open>Pushing\<close>

text \<open>A new waiter on the backpressure list registers and is pending.\<close>

lemma push_poll_full:
  assumes C: "linked_list C" and run: "dr_status s = Status_Running" and e: "pf_entry f = Some e" "\<not> pf_waiting f"
    and full: "capacity \<le> length (sq (dr_ring s))" and room: "nt_count (dr_backpressure s) \<noteq> - 1"
  shows "\<exists>b. push_poll C U w f s = Some (Inr (Push_Pending, f\<lparr>pf_waiting := True\<rparr>, s\<lparr>dr_backpressure := b\<rparr>)) \<and>
    nt_waiters b = nt_waiters (dr_backpressure s) @ [pf_slot f]"
proof -
  let ?b = "notify_wait (pf_slot f) (dr_backpressure s)"
  have "unat (nt_count (dr_backpressure s)) < unat (- 1 :: usize)"
    using room by (metis word_order.not_eq_extremum word_less_nat_alt)
  from succ_below [OF this, of "debug_assertions C"] obtain b where
    b: "notified_poll C (pf_slot f) w ?b = Inr (Pending, b)" "nt_waiters b = nt_waiters (dr_backpressure s) @ [pf_slot f]"
    by (simp add: notified_poll_def notify_wait_def notified_new_def linked_list.push_back_law [OF C])
  let ?f = "f\<lparr>pf_waiting := True, pf_entry := Some e\<rparr>"
  have again: "push_poll C U w ?f (s\<lparr>dr_backpressure := ?b\<rparr>) = Some (Inr (Push_Pending, ?f, s\<lparr>dr_backpressure := b\<rparr>))"
    using run b(1) by (subst push_poll.simps) simp
  have "push_poll C U w f s = push_poll C U w ?f (s\<lparr>dr_backpressure := ?b\<rparr>)"
    using run e full by (subst push_poll.simps) (simp add: try_push_full)
  moreover have "?f = f\<lparr>pf_waiting := True\<rparr>" using e(1) by (cases f) simp
  ultimately show ?thesis using again b(2) by (intro exI [of _ b]) simp
qed

lemma push_poll_room:
  assumes run: "dr_status s = Status_Running" and e: "pf_entry f = Some e" "\<not> pf_waiting f"
    and room: "length (sq (dr_ring s)) < capacity"
  shows "\<exists>k. push_poll C U w f s = Some (Inr (Push_Done, f\<lparr>pf_waiting := False, pf_entry := None\<rparr>, s\<lparr>dr_ring := k\<rparr>)) \<and>
    sq k = sq (dr_ring s) @ [into_entry e]"
proof -
  obtain k where k: "try_push U e s = Inr (None, s\<lparr>dr_ring := k\<rparr>)" "sq k = sq (dr_ring s) @ [into_entry e]"
    using try_push_room [OF room] by blast
  have "push_poll C U w f s = Some (Inr (Push_Done, f\<lparr>pf_waiting := False, pf_entry := None\<rparr>, s\<lparr>dr_ring := k\<rparr>))"
    using run e k(1) by (subst push_poll.simps) simp
  then show ?thesis using k(2) by blast
qed

text \<open>A waiter that was notified continues as if it had not waited.\<close>

lemma push_poll_fired:
  assumes C: "linked_list C" and run: "dr_status s = Status_Running" and w: "pf_waiting f"
    and n: "nt_entries (dr_backpressure s) (pf_slot f) = Some n" "ne_state n = Waiter_Fired"
  shows "push_poll C U w f s = push_poll C U w (f\<lparr>pf_waiting := False\<rparr>)
    (s\<lparr>dr_backpressure := (dr_backpressure s)\<lparr>nt_entries := (nt_entries (dr_backpressure s))(pf_slot f := None)\<rparr>\<rparr>)"
proof -
  let ?b = "(dr_backpressure s)\<lparr>nt_entries := (nt_entries (dr_backpressure s))(pf_slot f \<mapsto> n\<lparr>ne_state := Waiter_Completed\<rparr>)\<rparr>"
  have "notified_poll C (pf_slot f) w (dr_backpressure s) = Inr (Ready (), ?b)"
    using n by (simp add: notified_poll_def)
  moreover have "notified_drop C (pf_slot f) ?b =
      Some (Inr ((dr_backpressure s)\<lparr>nt_entries := (nt_entries (dr_backpressure s))(pf_slot f := None)\<rparr>))"
    by (simp add: notified_drop_def)
  ultimately show ?thesis
    using run w by (subst (1 2) push_poll.simps) (simp cong: option.case_cong sum.case_cong)
qed

lemma push_poll_spec:
  assumes C: "linked_list C" and run: "dr_status s = Status_Running" and e: "pf_entry f = Some e"
    and room: "nt_count (dr_backpressure s) \<noteq> - 1"
    and wt: "pf_waiting f \<Longrightarrow> nt_entries (dr_backpressure s) (pf_slot f) = Some n \<and> ne_state n \<in> {Waiter_Linked, Waiter_Fired}"
  shows "\<exists>p f' s'. push_poll C U w f s = Some (Inr (p, f', s')) \<and>
    (if pf_waiting f \<and> ne_state n = Waiter_Linked
     then p = Push_Pending \<and> f' = f \<and> dr_ring s' = dr_ring s
     else if capacity \<le> length (sq (dr_ring s))
     then p = Push_Pending \<and> pf_entry f' = Some e \<and> pf_waiting f' \<and> dr_ring s' = dr_ring s \<and>
       nt_waiters (dr_backpressure s') = nt_waiters (dr_backpressure s) @ [pf_slot f]
     else p = Push_Done \<and> pf_entry f' = None \<and> sq (dr_ring s') = sq (dr_ring s) @ [into_entry e])"
proof (cases "pf_waiting f \<and> ne_state n = Waiter_Linked")
  case True
  then have "push_poll C U w f s = Some (Inr (Push_Pending, f, s\<lparr>dr_backpressure := (dr_backpressure s)\<lparr>nt_entries :=
      (nt_entries (dr_backpressure s))(pf_slot f \<mapsto> n\<lparr>ne_waker := Some w\<rparr>)\<rparr>\<rparr>))"
    using run wt by (subst push_poll.simps) (simp add: notified_poll_def)
  then show ?thesis using True by simp
next
  case False
  define f0 where "f0 = f\<lparr>pf_waiting := False\<rparr>"
  define s0 where "s0 = (if pf_waiting f
    then s\<lparr>dr_backpressure := (dr_backpressure s)\<lparr>nt_entries := (nt_entries (dr_backpressure s))(pf_slot f := None)\<rparr>\<rparr> else s)"
  have eq: "push_poll C U w f s = push_poll C U w f0 s0"
  proof (cases "pf_waiting f")
    case True
    then have "nt_entries (dr_backpressure s) (pf_slot f) = Some n" "ne_state n = Waiter_Fired" using wt False by auto
    from push_poll_fired [OF C run True this] show ?thesis using True by (simp add: f0_def s0_def)
  next
    case nw: False
    then have "f0 = f" by (cases f) (simp add: f0_def)
    then show ?thesis using nw by (simp add: s0_def)
  qed
  have f0: "pf_entry f0 = Some e" "\<not> pf_waiting f0" "pf_slot f0 = pf_slot f" using e by (simp_all add: f0_def)
  have s0: "dr_status s0 = Status_Running" "dr_ring s0 = dr_ring s" "nt_count (dr_backpressure s0) \<noteq> - 1"
    "nt_waiters (dr_backpressure s0) = nt_waiters (dr_backpressure s)"
    using run room by (simp_all add: s0_def)
  show ?thesis
  proof (cases "capacity \<le> length (sq (dr_ring s))")
    case True
    obtain b where "push_poll C U w f0 s0 = Some (Inr (Push_Pending, f0\<lparr>pf_waiting := True\<rparr>, s0\<lparr>dr_backpressure := b\<rparr>))"
      "nt_waiters b = nt_waiters (dr_backpressure s0) @ [pf_slot f0]"
      using push_poll_full [OF C s0(1) f0(1,2) _ s0(3)] True s0(2) by auto
    then show ?thesis using False True eq f0 s0
      by (intro exI [of _ Push_Pending] exI [of _ "f0\<lparr>pf_waiting := True\<rparr>"] exI [of _ "s0\<lparr>dr_backpressure := b\<rparr>"]) auto
  next
    case nf: False
    obtain k where "push_poll C U w f0 s0 = Some (Inr (Push_Done, f0\<lparr>pf_waiting := False, pf_entry := None\<rparr>, s0\<lparr>dr_ring := k\<rparr>))"
      "sq k = sq (dr_ring s0) @ [into_entry e]"
      using push_poll_room [OF s0(1) f0(1,2)] nf s0(2) by auto
    then show ?thesis using False nf eq s0
      by (intro exI [of _ Push_Done] exI [of _ "f0\<lparr>pf_waiting := False, pf_entry := None\<rparr>"] exI [of _ "s0\<lparr>dr_ring := k\<rparr>"]) auto
  qed
qed

end

text \<open>A push on a driver that is not running fails without touching the rings.\<close>

lemma push_poll_closed: "dr_status s \<noteq> Status_Running \<Longrightarrow> push_poll C U w f s = Some (Inr (Push_Closed, f, s))"
  by (subst push_poll.simps) simp

text \<open>\<open>prepare_park\<close> decides as the wake-up protocol does, with whether the push of the read succeeded.\<close>

lemma prepare_park_decision:
  assumes "dr_status s = Status_Running"
  shows "prepare_park U s =
    (let push = ur_sq_push U event_read (dr_ring s); (sleeps, arms, flag) = park_decision (push \<noteq> None) (dr_unparker s) in
     (sleeps, s\<lparr>dr_unparker := flag, dr_ring := (if arms then the push else dr_ring s)\<rparr>))"
  using assms
  by (auto simp: prepare_park_def park_decision_def unparker_park_def try_push_raw_def Let_def split: option.splits)

section \<open>A simulated ring\<close>

text \<open>
  A ring that completes what is submitted at once: an entry without the flag to skip success is answered with the
  result 0 and no flags.
\<close>

record sim_ring =
  sim_sq :: "sqe list"
  sim_cq :: "cqe list"

definition sim_complete :: "sqe list \<Rightarrow> cqe list" where
  "sim_complete es = map (\<lambda>e. \<lparr> cq_user_data = sq_user_data e, cq_result = 0, cq_flags = 0 \<rparr>)
     (filter (\<lambda>e. \<not> sq_skip_success e) es)"

definition sim_submit :: "sim_ring \<Rightarrow> (i32 + usize) \<times> sim_ring" where
  "sim_submit k = (Inr (of_nat (length (sim_sq k))), k\<lparr>sim_sq := [], sim_cq := sim_cq k @ sim_complete (sim_sq k)\<rparr>)"

definition sim_uring :: "nat \<Rightarrow> sim_ring uring" where
  "sim_uring n = \<lparr> ur_sq_full = (\<lambda>k. n \<le> length (sim_sq k)),
     ur_sq_push = (\<lambda>e k. if n \<le> length (sim_sq k) then None else Some (k\<lparr>sim_sq := sim_sq k @ [e]\<rparr>)),
     ur_cq_full = (\<lambda>k. 2 * n \<le> length (sim_cq k)), ur_cq_len = (\<lambda>k. length (sim_cq k)),
     ur_cq_fill = (\<lambda>m k. (take m (sim_cq k), k\<lparr>sim_cq := drop m (sim_cq k)\<rparr>)),
     ur_submit = sim_submit, ur_submit_args = (\<lambda>_ _. sim_submit), ur_sync_cancel = (\<lambda>_ k. (Inr (), k)),
     ur_ebusy = 16, ur_eintr = 4 \<rparr>"

interpretation sim: io_ring "sim_uring n" n sim_sq sim_cq for n
  by unfold_locales (auto simp: sim_uring_def)

lemma io_ring_sim: "io_ring (sim_uring n) n sim_sq sim_cq"
  by (rule sim.io_ring_axioms)

end
