(* ===== verification/Operation_Life.thy ===== *)
theory Operation_Life
  imports Operation
begin

text \<open>
  The life of the operations of one type: a machine in which futures are created, polled and dropped, and
  the kernel completes what was submitted. It keeps for each address its future and where the entry
  that carries the second reference is. Its invariant is that the reference count is exactly the number
  of these two, that a live completion always finds its cell, and what the completions of a cell are.
\<close>

datatype entry_place = Nowhere | In_Future | In_Ring

record 'd life =
  lf_heap :: "'d op_heap"
  lf_futs :: "u64 \<Rightarrow> op_future option"
  lf_place :: "u64 \<Rightarrow> entry_place"

datatype 'd life_cmd =
    Op_New u64 'd | Op_Poll u64 nat push_result | Op_Next u64 nat push_result | Op_Drop u64 | Kernel_Cqe cqe

definition life_new :: "'d life" where
  "life_new = \<lparr> lf_heap = \<lparr> oh_ops = (\<lambda>_. None), oh_woken = [], oh_dropped = [] \<rparr>,
     lf_futs = (\<lambda>_. None), lf_place = (\<lambda>_. Nowhere) \<rparr>"

text \<open>The state after a poll of the future at \<open>a\<close>: an accepted push moves the entry to the ring.\<close>

definition life_polled :: "u64 \<Rightarrow> op_future \<Rightarrow> 'd op_heap \<Rightarrow> 'd life \<Rightarrow> 'd life" where
  "life_polled a f h m = m\<lparr>lf_heap := h, lf_futs := (lf_futs m)(a \<mapsto> f),
     lf_place := (if of_submitted f \<and> lf_place m a = In_Future then (lf_place m)(a := In_Ring) else lf_place m)\<rparr>"

fun life_exec :: "('d, 'o, 'i) op_class \<Rightarrow> 'd life_cmd \<Rightarrow> 'd life \<Rightarrow> fault + 'd life" where
  "life_exec T (Op_New a d) m = and_then (op_new T a d (lf_heap m)) (\<lambda>(f, h).
     Inr (m\<lparr>lf_heap := h, lf_futs := (lf_futs m)(a \<mapsto> f), lf_place := (lf_place m)(a := In_Future)\<rparr>))"
| "life_exec T (Op_Poll a w p) m = (case lf_futs m a of None \<Rightarrow> Inl Dangling | Some f \<Rightarrow>
     and_then (op_poll T p w f (lf_heap m)) (\<lambda>(_, f, h). Inr (life_polled a f h m)))"
| "life_exec T (Op_Next a w p) m = (case lf_futs m a of None \<Rightarrow> Inl Dangling | Some f \<Rightarrow>
     and_then (op_poll_next T p w f (lf_heap m)) (\<lambda>(_, f, h). Inr (life_polled a f h m)))"
| "life_exec T (Op_Drop a) m = (case lf_futs m a of None \<Rightarrow> Inl Dangling | Some f \<Rightarrow>
     and_then (op_drop T f (lf_heap m)) (\<lambda>(_, h).
     Inr (m\<lparr>lf_heap := h, lf_futs := (lf_futs m)(a := None),
       lf_place := (if of_submitted f then lf_place m else (lf_place m)(a := Nowhere))\<rparr>)))"
| "life_exec T (Kernel_Cqe e) m = and_then (complete_operation T e (lf_heap m)) (\<lambda>h.
     Inr (m\<lparr>lf_heap := h, lf_place := (if cl_more T (cq_flags e) then lf_place m
       else (lf_place m)(cq_user_data e := Nowhere))\<rparr>))"

text \<open>
  What the caller and the kernel respect: fresh addresses above the reserved tokens, a future is not polled
  after it was ready nor during the shutdown, and the kernel completes entries it was given.
\<close>

fun life_allowed :: "bool \<Rightarrow> 'd life_cmd \<Rightarrow> 'd life \<Rightarrow> bool" where
  "life_allowed multi (Op_New a d) m = (oh_ops (lf_heap m) a = None \<and> 1024 < a)"
| "life_allowed multi (Op_Poll a w p) m = (\<not> multi \<and> p \<noteq> Push_Closed \<and>
     (case lf_futs m a of None \<Rightarrow> False | Some f \<Rightarrow> \<not> of_completed f))"
| "life_allowed multi (Op_Next a w p) m = (multi \<and> p \<noteq> Push_Closed \<and> lf_futs m a \<noteq> None)"
| "life_allowed multi (Op_Drop a) m = (lf_futs m a \<noteq> None)"
| "life_allowed multi (Kernel_Cqe e) m = (lf_place m (cq_user_data e) = In_Ring \<and> cq_result e \<noteq> push_bit 31 1)"

inductive life_reach :: "('d, 'o, 'i) op_class \<Rightarrow> bool \<Rightarrow> 'd life \<Rightarrow> bool" for T multi where
  life_init: "life_reach T multi life_new"
| life_step: "life_reach T multi m \<Longrightarrow> life_allowed multi c m \<Longrightarrow> life_exec T c m = Inr m' \<Longrightarrow> life_reach T multi m'"

inductive_cases life_reachE: "life_reach T multi m"

text \<open>What is asked of the type: it handles the completions the kernel announces more after.\<close>

definition class_ok :: "('d, 'o, 'i) op_class \<Rightarrow> bool" where
  "class_ok T \<longleftrightarrow> (\<forall>d r. cqe_more T r \<longrightarrow> (\<exists>d'. cl_update T d r = Inr d')) \<and> (\<forall>d r. \<exists>v d'. cl_item T d r = Inr (v, d'))"

section \<open>The invariant\<close>

definition comps_ok :: "('d, 'o, 'i) op_class \<Rightarrow> bool \<Rightarrow> cqe_result list \<Rightarrow> bool" where
  "comps_ok T complete cs \<longleftrightarrow> (if complete then cs \<noteq> [] \<and> \<not> cqe_more T (last cs) \<and> (\<forall>c \<in> set (butlast cs). cqe_more T c)
     else \<forall>c \<in> set cs. cqe_more T c)"

definition life_ok ::
  "('d, 'o, 'i) op_class \<Rightarrow> bool \<Rightarrow> u64 \<Rightarrow> 'd raw_op option \<Rightarrow> op_future option \<Rightarrow> entry_place \<Rightarrow> bool"
where
  "life_ok T multi a ro fu pl \<longleftrightarrow> (case ro of
     None \<Rightarrow> fu = None \<and> pl = Nowhere
   | Some r \<Rightarrow> 1024 < a \<and> (fu \<noteq> None \<or> pl \<noteq> Nowhere) \<and>
       ro_refcount r = (if fu = None then 0 else 1) + (if pl = Nowhere then 0 else 1) \<and>
       (case fu of None \<Rightarrow> True | Some f \<Rightarrow> of_addr f = a \<and> (of_submitted f \<longleftrightarrow> pl \<noteq> In_Future)) \<and>
       (pl = In_Future \<longrightarrow> fu \<noteq> None \<and> ro_completions r = []) \<and>
       (ro_complete r \<longleftrightarrow> pl = Nowhere) \<and>
       (case ro_data r of
          None \<Rightarrow> \<not> multi \<and> ro_completions r = [] \<and> ro_complete r \<and> (case fu of None \<Rightarrow> False | Some f \<Rightarrow> of_completed f)
        | Some d \<Rightarrow> (case fu of None \<Rightarrow> True | Some f \<Rightarrow> of_completed f \<longrightarrow> multi \<and> ro_complete r) \<and>
            (\<not> multi \<longrightarrow> comps_ok T (ro_complete r) (ro_completions r))))"

definition life_inv :: "('d, 'o, 'i) op_class \<Rightarrow> bool \<Rightarrow> 'd life \<Rightarrow> bool" where
  "life_inv T multi m \<longleftrightarrow> (\<forall>a. life_ok T multi a (oh_ops (lf_heap m) a) (lf_futs m a) (lf_place m a))"

lemma life_inv_new: "life_inv T multi life_new"
  by (simp add: life_inv_def life_ok_def life_new_def)

section \<open>The operations on a cell\<close>

lemma op_at_iff: "op_at a h = Inr r \<longleftrightarrow> oh_ops h a = Some r"
  by (simp add: op_at_def split: option.splits)

lemma op_at_put [simp]: "op_at a (put_op a r h) = Inr r"
  by (simp add: op_at_def put_op_def)

lemma put_op_simps [simp]:
  "oh_ops (put_op a r h) = (oh_ops h)(a \<mapsto> r)" "oh_woken (put_op a r h) = oh_woken h"
  "oh_dropped (put_op a r h) = oh_dropped h" "put_op a r (put_op a r' h) = put_op a r h"
  "(put_op a r h)\<lparr>oh_ops := E\<rparr> = h\<lparr>oh_ops := E\<rparr>"
  by (simp_all add: put_op_def)

lemma small_words [simp]:
  "add_word d (1 :: usize) 1 = Inr 2" "add_word d (2 :: usize) 1 = Inr 3"
  "sub_word d (1 :: usize) 1 = Inr 0" "sub_word d (2 :: usize) 1 = Inr 1" "sub_word d (3 :: usize) 1 = Inr 2"
  by (simp_all add: add_word_def sub_word_def)

lemma clone_op_eq:
  assumes "op_at a h = Inr r" and "ro_refcount r \<in> {1, 2}"
  shows "clone_op T a h = Inr (put_op a (r\<lparr>ro_refcount := ro_refcount r + 1\<rparr>) h)"
  using assms by (auto simp: clone_op_def inc_refcount_def simp del: and_then_eq_Inr)

lemma drop_op_keep:
  assumes "op_at a h = Inr r" and "ro_refcount r \<in> {2, 3}"
  shows "drop_op_ref T a h = Inr (put_op a (r\<lparr>ro_refcount := ro_refcount r - 1\<rparr>) h)"
  using assms by (auto simp: drop_op_ref_def dec_refcount_def simp del: and_then_eq_Inr)

lemma drop_op_last:
  assumes "op_at a h = Inr r" and "ro_refcount r = 1" and "ro_data r = None \<longrightarrow> ro_completions r = []"
  shows "drop_op_ref T a h = Inr (h\<lparr>oh_ops := (oh_ops h)(a := None),
    oh_dropped := oh_dropped h @ (case ro_data r of None \<Rightarrow> []
      | Some d \<Rightarrow> [(a, foldl (cl_cleanup T) d (ro_completions r))])\<rparr>)"
  using assms
  by (cases "ro_data r") (simp_all add: drop_op_ref_def dec_refcount_def destroy_op_def del: and_then_eq_Inr)

lemma take_completions_eq:
  assumes "op_at a h = Inr r" and "ro_refcount r \<in> {1, 2}"
  shows "take_completions T a h = Inr (ro_completions r, put_op a (r\<lparr>ro_completions := []\<rparr>) h)"
  using assms clone_op_eq [OF assms, of T]
  by (auto simp: take_completions_def drop_op_keep simp del: and_then_eq_Inr)

lemma pop_completion_eq:
  assumes "op_at a h = Inr r" and "ro_refcount r \<in> {1, 2}"
  shows "pop_completion T a h = Inr (if ro_completions r = [] then (None, put_op a r h)
    else (Some (last (ro_completions r)), put_op a (r\<lparr>ro_completions := butlast (ro_completions r)\<rparr>) h))"
  using assms clone_op_eq [OF assms, of T]
  by (auto simp: pop_completion_def drop_op_keep Let_def simp del: and_then_eq_Inr)

text \<open>A complete list of completions updates the data with all but the last one and completes it.\<close>

fun fold_updates :: "('d, 'o, 'i) op_class \<Rightarrow> 'd \<Rightarrow> cqe_result list \<Rightarrow> 'd" where
  "fold_updates T d [] = d"
| "fold_updates T d (r # rs) = (case cl_update T d r of Inl _ \<Rightarrow> d | Inr d' \<Rightarrow> fold_updates T d' rs)"

lemma complete_with_eq:
  assumes T: "class_ok T"
  shows "comps_ok T True cs \<Longrightarrow> complete_with T d cs = Inr (cl_complete T (fold_updates T d (butlast cs)) (last cs))"
proof (induction cs arbitrary: d rule: induct_list012)
  case (3 r r' rs)
  then have "cqe_more T r" "comps_ok T True (r' # rs)" by (auto simp: comps_ok_def)
  moreover obtain d' where "cl_update T d r = Inr d'" using T \<open>cqe_more T r\<close> unfolding class_ok_def by blast
  ultimately show ?case using "3.IH"(2) by simp
qed (auto simp: comps_ok_def)

section \<open>The operations of the future\<close>

lemma op_poll_eq:
  assumes T: "class_ok T" and r: "op_at (of_addr f) h = Inr r" "ro_refcount r \<in> {1, 2}" and p: "p \<noteq> Push_Closed"
    and c: "ro_complete r \<Longrightarrow> ro_data r = Some d \<and> comps_ok T True (ro_completions r)"
  shows "op_poll T p w f h =
    (if \<not> of_submitted f \<and> p = Push_Pending then Inr (Pending, f, h)
     else if ro_complete r
     then Inr (Ready (cl_complete T (fold_updates T d (butlast (ro_completions r))) (last (ro_completions r))),
       f\<lparr>of_submitted := True, of_completed := True\<rparr>,
       put_op (of_addr f) (r\<lparr>ro_completions := [], ro_data := None\<rparr>) h)
     else Inr (Pending, f\<lparr>of_submitted := True\<rparr>, put_op (of_addr f) (r\<lparr>ro_waker := Some w\<rparr>) h))"
proof -
  have sub: "poll_submit p f = Inr (of_submitted f \<or> p = Push_Done, if p = Push_Done then f\<lparr>of_submitted := True\<rparr> else f)"
    using p by (cases p; cases f) (simp_all add: poll_submit_def)
  show ?thesis
  proof (cases "ro_complete r")
    case False
    then show ?thesis using r sub p
      by (cases p; cases f)
        (simp_all add: op_poll_def op_stage_poll_def try_complete_def register_waker_def del: and_then_eq_Inr)
  next
    case True
    then show ?thesis
      using r sub p c [OF True] take_completions_eq [OF r, of T] complete_with_eq [OF T, of "ro_completions r" d]
      by (cases p; cases f)
        (simp_all add: op_poll_def op_stage_poll_def try_complete_def try_take_def del: and_then_eq_Inr)
  qed
qed

lemma op_next_eq:
  assumes T: "class_ok T" and r: "op_at (of_addr f) h = Inr r" "ro_refcount r \<in> {1, 2}" and p: "p \<noteq> Push_Closed"
    and d: "ro_data r = Some d" and v: "ro_completions r \<noteq> [] \<Longrightarrow> cl_item T d (last (ro_completions r)) = Inr (v, d')"
  shows "op_poll_next T p w f h =
    (if \<not> of_submitted f \<and> p = Push_Pending then Inr (Pending, f, h)
     else if ro_completions r \<noteq> []
     then Inr (Ready (Some v), f\<lparr>of_submitted := True\<rparr>,
       put_op (of_addr f) (r\<lparr>ro_completions := butlast (ro_completions r), ro_data := Some d'\<rparr>) h)
     else if ro_complete r then Inr (Ready None, f\<lparr>of_submitted := True, of_completed := True\<rparr>, put_op (of_addr f) r h)
     else Inr (Pending, f\<lparr>of_submitted := True\<rparr>, put_op (of_addr f) (r\<lparr>ro_waker := Some w\<rparr>) h))"
proof -
  have sub: "poll_submit p f = Inr (of_submitted f \<or> p = Push_Done, if p = Push_Done then f\<lparr>of_submitted := True\<rparr> else f)"
    using p by (cases p; cases f) (simp_all add: poll_submit_def)
  show ?thesis
  proof (cases "ro_completions r = []")
    case True
    then show ?thesis
      using r sub p d pop_completion_eq [OF r, of T]
      by (cases p; cases f; cases "ro_complete r")
        (simp_all add: op_poll_next_def op_stage_poll_next_def try_next_def register_waker_def del: and_then_eq_Inr)
  next
    case False
    then show ?thesis
      using r sub p d v [OF False] pop_completion_eq [OF r, of T]
      by (cases p; cases f) (simp_all add: op_poll_next_def op_stage_poll_next_def try_next_def del: and_then_eq_Inr)
  qed
qed

section \<open>Every step keeps the invariant\<close>

lemma life_inv_at: "life_inv T multi m \<Longrightarrow> life_ok T multi a (oh_ops (lf_heap m) a) (lf_futs m a) (lf_place m a)"
  by (simp add: life_inv_def)

lemma life_inv_change:
  assumes "life_inv T multi m"
    and "\<And>b. b \<noteq> a \<Longrightarrow> oh_ops (lf_heap m') b = oh_ops (lf_heap m) b \<and> lf_futs m' b = lf_futs m b \<and> lf_place m' b = lf_place m b"
    and "life_ok T multi a (oh_ops (lf_heap m') a) (lf_futs m' a) (lf_place m' a)"
  shows "life_inv T multi m'"
  unfolding life_inv_def
proof
  fix b
  show "life_ok T multi b (oh_ops (lf_heap m') b) (lf_futs m' b) (lf_place m' b)"
    using assms(2) [of b] assms(3) life_inv_at [OF assms(1), of b] by (cases "b = a") simp_all
qed

lemma life_polled_inv:
  assumes "life_inv T multi m" and "oh_ops h = (oh_ops (lf_heap m))(a \<mapsto> r)"
    and "life_ok T multi a (Some r) (Some f) (if of_submitted f \<and> lf_place m a = In_Future then In_Ring else lf_place m a)"
  shows "life_inv T multi (life_polled a f h m)"
  using assms(3) by (intro life_inv_change [OF assms(1), of a]) (auto simp: life_polled_def assms(2) split: if_splits)

text \<open>The cell a future refers to.\<close>

lemma life_future:
  assumes inv: "life_inv T multi m" and f: "lf_futs m a = Some f"
  shows "\<exists>r. oh_ops (lf_heap m) a = Some r \<and> ro_refcount r \<in> {1, 2} \<and> of_addr f = a"
  using life_inv_at [OF inv, of a] f by (auto simp: life_ok_def split: option.splits if_splits)

lemma step_new:
  assumes inv: "life_inv T multi m" and al: "life_allowed multi (Op_New a d) m"
  shows "\<exists>m'. life_exec T (Op_New a d) m = Inr m' \<and> life_inv T multi m'"
proof -
  let ?h = "lf_heap m" and ?f = "\<lparr> of_addr = a, of_submitted = False, of_completed = False \<rparr>"
  let ?r = "(raw_op_new d)\<lparr>ro_refcount := 2\<rparr>"
  have "op_at a (raw_allocate a d ?h) = Inr (raw_op_new d)" and "ro_refcount (raw_op_new d) \<in> {1, 2}"
    by (simp_all add: raw_allocate_def raw_op_new_def)
  from clone_op_eq [OF this, of T] have "op_new T a d ?h = Inr (?f, put_op a ?r ?h)"
    by (simp add: op_new_def raw_allocate_def raw_op_new_def del: and_then_eq_Inr)
  then show ?thesis
    using al by (auto intro!: life_inv_change [OF inv, of a] simp: life_ok_def raw_op_new_def comps_ok_def)
qed

lemma step_poll:
  assumes T: "class_ok T" and inv: "life_inv T multi m" and al: "life_allowed multi (Op_Poll a w p) m"
  shows "\<exists>m'. life_exec T (Op_Poll a w p) m = Inr m' \<and> life_inv T multi m'"
proof -
  obtain f where f: "lf_futs m a = Some f" "\<not> of_completed f" and p: "p \<noteq> Push_Closed" and mu: "\<not> multi"
    using al by (auto split: option.splits)
  obtain r where r: "oh_ops (lf_heap m) a = Some r" "ro_refcount r \<in> {1, 2}" "of_addr f = a"
    using life_future [OF inv f(1)] by blast
  note ok = life_inv_at [OF inv, of a, unfolded life_ok_def r(1) f(1), simplified]
  obtain d where d: "ro_data r = Some d" using ok f(2) by (cases "ro_data r") auto
  have c: "ro_complete r \<Longrightarrow> ro_data r = Some d \<and> comps_ok T True (ro_completions r)" using ok d mu by auto
  have at: "op_at (of_addr f) (lf_heap m) = Inr r" using r by (simp add: op_at_iff)
  have triv: "oh_ops (lf_heap m) = (oh_ops (lf_heap m))(a \<mapsto> r)" using r(1) by (simp add: fun_upd_idem)
  note eq = op_poll_eq [OF T at r(2) p c, of w]
  consider (push) "\<not> of_submitted f \<and> p = Push_Pending"
    | (ready) "of_submitted f \<or> p \<noteq> Push_Pending" "ro_complete r"
    | (wait) "of_submitted f \<or> p \<noteq> Push_Pending" "\<not> ro_complete r"
    by blast
  then show ?thesis
  proof cases
    case push
    have "life_inv T multi (life_polled a f (lf_heap m) m)"
      using ok push d f(2) mu by (intro life_polled_inv [OF inv triv]) (auto simp: life_ok_def)
    then show ?thesis using eq f(1) push by simp
  next
    case ready
    let ?r = "r\<lparr>ro_completions := [], ro_data := None\<rparr>" let ?f = "f\<lparr>of_submitted := True, of_completed := True\<rparr>"
    have "life_inv T multi (life_polled a ?f (put_op a ?r (lf_heap m)) m)"
      using ok ready mu r(3) by (intro life_polled_inv [OF inv, of _ _ ?r]) (auto simp: life_ok_def)
    then show ?thesis using eq f(1) ready r(3) by auto
  next
    case wait
    let ?r = "r\<lparr>ro_waker := Some w\<rparr>" let ?f = "f\<lparr>of_submitted := True\<rparr>"
    have "life_inv T multi (life_polled a ?f (put_op a ?r (lf_heap m)) m)"
      using ok wait d f(2) mu r(3) by (intro life_polled_inv [OF inv, of _ _ ?r]) (auto simp: life_ok_def comps_ok_def)
    then show ?thesis using eq f(1) wait r(3) by auto
  qed
qed

lemma step_next:
  assumes T: "class_ok T" and inv: "life_inv T multi m" and al: "life_allowed multi (Op_Next a w p) m"
  shows "\<exists>m'. life_exec T (Op_Next a w p) m = Inr m' \<and> life_inv T multi m'"
proof -
  obtain f where f: "lf_futs m a = Some f" and p: "p \<noteq> Push_Closed" and mu: "multi" using al by auto
  obtain r where r: "oh_ops (lf_heap m) a = Some r" "ro_refcount r \<in> {1, 2}" "of_addr f = a"
    using life_future [OF inv f] by blast
  note ok = life_inv_at [OF inv, of a, unfolded life_ok_def r(1) f, simplified]
  obtain d where d: "ro_data r = Some d" using ok mu by (cases "ro_data r") auto
  obtain v d' where v: "cl_item T d (last (ro_completions r)) = Inr (v, d')" using T unfolding class_ok_def by blast
  have at: "op_at (of_addr f) (lf_heap m) = Inr r" using r by (simp add: op_at_iff)
  have triv: "oh_ops (lf_heap m) = (oh_ops (lf_heap m))(a \<mapsto> r)" using r(1) by (simp add: fun_upd_idem)
  note eq = op_next_eq [OF T at r(2) p d v, of w]
  consider (push) "\<not> of_submitted f \<and> p = Push_Pending"
    | (item) "of_submitted f \<or> p \<noteq> Push_Pending" "ro_completions r \<noteq> []"
    | (over) "of_submitted f \<or> p \<noteq> Push_Pending" "ro_completions r = []" "ro_complete r"
    | (wait) "of_submitted f \<or> p \<noteq> Push_Pending" "ro_completions r = []" "\<not> ro_complete r"
    by blast
  then show ?thesis
  proof cases
    case push
    have "life_inv T multi (life_polled a f (lf_heap m) m)"
      using ok push d mu by (intro life_polled_inv [OF inv triv]) (auto simp: life_ok_def)
    then show ?thesis using eq f push by simp
  next
    case item
    let ?r = "r\<lparr>ro_completions := butlast (ro_completions r), ro_data := Some d'\<rparr>" let ?f = "f\<lparr>of_submitted := True\<rparr>"
    have "life_inv T multi (life_polled a ?f (put_op a ?r (lf_heap m)) m)"
      using ok item d mu r(3) by (intro life_polled_inv [OF inv, of _ _ ?r]) (auto simp: life_ok_def)
    then show ?thesis using eq f item r(3) by auto
  next
    case over
    let ?f = "f\<lparr>of_submitted := True, of_completed := True\<rparr>"
    have "life_inv T multi (life_polled a ?f (put_op a r (lf_heap m)) m)"
      using ok over d mu r(3) by (intro life_polled_inv [OF inv, of _ _ r]) (auto simp: life_ok_def)
    then show ?thesis using eq f over r(3) by auto
  next
    case wait
    let ?r = "r\<lparr>ro_waker := Some w\<rparr>" let ?f = "f\<lparr>of_submitted := True\<rparr>"
    have "life_inv T multi (life_polled a ?f (put_op a ?r (lf_heap m)) m)"
      using ok wait d mu r(3) by (intro life_polled_inv [OF inv, of _ _ ?r]) (auto simp: life_ok_def)
    then show ?thesis using eq f wait r(3) by auto
  qed
qed

text \<open>
  Giving up one of the two references of a cell: it stays with the other one, or is freed, and then what
  nobody consumed is cleaned up.
\<close>

lemma step_drop:
  assumes inv: "life_inv T multi m" and al: "life_allowed multi (Op_Drop a) m"
  shows "\<exists>m'. life_exec T (Op_Drop a) m = Inr m' \<and> life_inv T multi m'"
proof -
  obtain f where f: "lf_futs m a = Some f" using al by auto
  obtain r where r: "oh_ops (lf_heap m) a = Some r" "ro_refcount r \<in> {1, 2}" "of_addr f = a"
    using life_future [OF inv f] by blast
  note ok = life_inv_at [OF inv, of a, unfolded life_ok_def r(1) f, simplified]
  have at: "op_at a (lf_heap m) = Inr r" using r by (simp add: op_at_iff)
  have da: "ro_data r = None \<longrightarrow> ro_completions r = []" using ok by (auto split: option.splits)
  let ?m = "\<lambda>h p. m\<lparr>lf_heap := h, lf_futs := (lf_futs m)(a := None), lf_place := p\<rparr>"
  let ?r = "r\<lparr>ro_refcount := 1\<rparr>"
  let ?free = "\<lambda>r h. h\<lparr>oh_ops := (oh_ops h)(a := None), oh_dropped := oh_dropped h @ (case ro_data r of None \<Rightarrow> []
      | Some d \<Rightarrow> [(a, foldl (cl_cleanup T) d (ro_completions r))])\<rparr>"
  have keep: "drop_op_ref T a (lf_heap m) = Inr (put_op a ?r (lf_heap m))" if "ro_refcount r = 2"
    using drop_op_keep [OF at, of T] that by simp
  have last: "drop_op_ref T a (put_op a ?r (lf_heap m)) = Inr (?free ?r (put_op a ?r (lf_heap m)))"
    using drop_op_last [of a "put_op a ?r (lf_heap m)" ?r T] da by simp
  consider (unsub) "\<not> of_submitted f" | (ring) "of_submitted f" "lf_place m a = In_Ring"
    | (over) "of_submitted f" "lf_place m a = Nowhere"
    using ok by (cases "lf_place m a") auto
  then show ?thesis
  proof cases
    case unsub
    let ?h = "?free ?r (put_op a ?r (lf_heap m))"
    have "life_inv T multi (?m ?h ((lf_place m)(a := Nowhere)))"
      by (rule life_inv_change [OF inv, of a]) (simp_all add: life_ok_def)
    moreover have "ro_refcount r = 2" using ok unsub by simp
    ultimately show ?thesis using f r(3) unsub keep last by (simp add: op_drop_def del: and_then_eq_Inr)
  next
    case ring
    have "life_inv T multi (?m (put_op a ?r (lf_heap m)) (lf_place m))"
      using ok ring by (intro life_inv_change [OF inv, of a]) (auto simp: life_ok_def split: option.splits)
    moreover have "ro_refcount r = 2" using ok ring by simp
    ultimately show ?thesis using f r(3) ring keep by (simp add: op_drop_def del: and_then_eq_Inr)
  next
    case over
    have "life_inv T multi (?m (?free r (lf_heap m)) (lf_place m))"
      using over by (intro life_inv_change [OF inv, of a]) (simp_all add: life_ok_def)
    moreover have "ro_refcount r = 1" using ok over by simp
    ultimately show ?thesis
      using f r(3) over drop_op_last [OF at _ da, of T] by (simp add: op_drop_def del: and_then_eq_Inr)
  qed
qed

text \<open>A completion that arrives: the result it carries, and the cell after it.\<close>

lemma complete_operation_eq:
  assumes r: "op_at (cq_user_data e) h = Inr r" and a: "1024 < cq_user_data e" and nc: "\<not> ro_complete r"
    and res: "cqe_to_result (cl_debug T) e = Inr res"
    and rc: "ro_refcount r \<in> {1, 2}" and d: "ro_data r = Some d"
  shows "complete_operation T e h = Inr
    (let a = cq_user_data e; cs = ro_completions r @ [res];
         wk = oh_woken h @ (case ro_waker r of None \<Rightarrow> [] | Some k \<Rightarrow> [k]) in
     if cqe_more T res
     then (put_op a (r\<lparr>ro_completions := cs, ro_waker := None\<rparr>) h)\<lparr>oh_woken := wk\<rparr>
     else if ro_refcount r = 2
     then (put_op a (r\<lparr>ro_completions := cs, ro_complete := True, ro_waker := None, ro_refcount := 1\<rparr>) h)\<lparr>oh_woken := wk\<rparr>
     else h\<lparr>oh_ops := (oh_ops h)(a := None), oh_woken := wk,
       oh_dropped := oh_dropped h @ [(a, foldl (cl_cleanup T) d cs)]\<rparr>)"
proof -
  let ?a = "cq_user_data e" let ?cs = "ro_completions r @ [res]"
  let ?wk = "oh_woken h @ (case ro_waker r of None \<Rightarrow> [] | Some k \<Rightarrow> [k])"
  let ?r = "r\<lparr>ro_completions := ?cs, ro_complete := True, ro_waker := None\<rparr>"
  let ?h = "(put_op ?a ?r h)\<lparr>oh_woken := ?wk\<rparr>"
  have at: "op_at ?a ?h = Inr ?r" by (simp add: op_at_def)
  have co: "complete_operation T e h = ref_complete T ?a res h"
    using a res by (simp add: complete_operation_def)
  show ?thesis
  proof (cases "cqe_more T res")
    case True
    then show ?thesis
      using r nc by (simp add: co ref_complete_def raw_complete_def take_waker_def Let_def del: and_then_eq_Inr)
  next
    case False
    have rc1: "raw_complete T ?a res h = Inr ?h"
      using r nc False by (simp add: raw_complete_def take_waker_def Let_def del: and_then_eq_Inr)
    have eq: "complete_operation T e h = drop_op_ref T ?a ?h"
      using False rc1 by (simp add: co ref_complete_def del: and_then_eq_Inr)
    show ?thesis
    proof (cases "ro_refcount r = 2")
      case True
      then show ?thesis using False eq drop_op_keep [OF at, of T] by (simp add: Let_def put_op_def)
    next
      case one: False
      then show ?thesis using False eq drop_op_last [OF at, of T] rc d by (simp add: Let_def put_op_def)
    qed
  qed
qed

lemma cqe_to_result_ok:
  "cq_result e \<noteq> push_bit 31 1 \<Longrightarrow> \<exists>res. cqe_to_result dbg e = Inr res \<and> cr_flags res = cq_flags e"
  by (simp add: cqe_to_result_def)

text \<open>The cell an entry in the ring refers to.\<close>

lemma life_in_ring:
  assumes inv: "life_inv T multi m" and pl: "lf_place m a = In_Ring"
  shows "\<exists>r d. oh_ops (lf_heap m) a = Some r \<and> ro_data r = Some d \<and> 1024 < a \<and> \<not> ro_complete r \<and>
    ro_refcount r = (if lf_futs m a = None then 1 else 2)"
proof -
  note ok = life_inv_at [OF inv, of a, unfolded life_ok_def pl]
  obtain r where r: "oh_ops (lf_heap m) a = Some r" using ok by (cases "oh_ops (lf_heap m) a") auto
  obtain d where "ro_data r = Some d" using ok r by (cases "ro_data r") auto
  then show ?thesis using ok r by auto
qed

lemma step_cqe:
  assumes inv: "life_inv T multi m" and al: "life_allowed multi (Kernel_Cqe e) m"
  shows "\<exists>m'. life_exec T (Kernel_Cqe e) m = Inr m' \<and> life_inv T multi m'"
proof -
  let ?a = "cq_user_data e" let ?h = "lf_heap m"
  have pl: "lf_place m ?a = In_Ring" using al by simp
  obtain r d where r: "oh_ops ?h ?a = Some r" "ro_data r = Some d" "1024 < ?a" "\<not> ro_complete r"
    "ro_refcount r = (if lf_futs m ?a = None then 1 else 2)"
    using life_in_ring [OF inv pl] by blast
  obtain res where res: "cqe_to_result (cl_debug T) e = Inr res" "cr_flags res = cq_flags e"
    using cqe_to_result_ok al by fastforce
  have at: "op_at ?a ?h = Inr r" using r(1) by (simp add: op_at_iff)
  have mo: "cl_more T (cq_flags e) = cqe_more T res" using res(2) by (simp add: cqe_more_def)
  note ok = life_inv_at [OF inv, of ?a, unfolded life_ok_def r(1) pl, simplified, unfolded r(2), simplified]
  have rc: "ro_refcount r \<in> {1, 2}" using r(5) by simp
  note eq = complete_operation_eq [OF at r(3,4) res(1) rc r(2)]
  let ?cs = "ro_completions r @ [res]"
  let ?wk = "oh_woken ?h @ (case ro_waker r of None \<Rightarrow> [] | Some k \<Rightarrow> [k])"
  consider (more) "cqe_more T res" | (last) "\<not> cqe_more T res" "lf_futs m ?a = None" | (final) "\<not> cqe_more T res" "lf_futs m ?a \<noteq> None"
    by blast
  then show ?thesis
  proof cases
    case more
    let ?m = "m\<lparr>lf_heap := (put_op ?a (r\<lparr>ro_completions := ?cs, ro_waker := None\<rparr>) ?h)\<lparr>oh_woken := ?wk\<rparr>\<rparr>"
    have "life_inv T multi ?m"
      using ok pl r more by (intro life_inv_change [OF inv, of ?a]) (auto simp: life_ok_def comps_ok_def split: option.splits)
    then show ?thesis using eq more mo by (simp add: Let_def)
  next
    case last
    let ?m = "m\<lparr>lf_heap := ?h\<lparr>oh_ops := (oh_ops ?h)(?a := None), oh_woken := ?wk,
        oh_dropped := oh_dropped ?h @ [(?a, foldl (cl_cleanup T) d ?cs)]\<rparr>, lf_place := (lf_place m)(?a := Nowhere)\<rparr>"
    have "life_inv T multi ?m" using last by (intro life_inv_change [OF inv, of ?a]) (simp_all add: life_ok_def)
    then show ?thesis using eq last mo r(5) by (simp add: Let_def)
  next
    case final
    let ?m = "m\<lparr>lf_heap := (put_op ?a (r\<lparr>ro_completions := ?cs, ro_complete := True, ro_waker := None, ro_refcount := 1\<rparr>) ?h)\<lparr>oh_woken := ?wk\<rparr>,
        lf_place := (lf_place m)(?a := Nowhere)\<rparr>"
    have "life_inv T multi ?m"
      using ok pl r final by (intro life_inv_change [OF inv, of ?a]) (auto simp: life_ok_def comps_ok_def split: option.splits)
    then show ?thesis using eq final mo r(5) by (simp add: Let_def)
  qed
qed

lemma life_step_safe:
  assumes T: "class_ok T" and inv: "life_inv T multi m" and al: "life_allowed multi c m"
  shows "\<exists>m'. life_exec T c m = Inr m' \<and> life_inv T multi m'"
proof (cases c)
  case (Op_New a d)
  then show ?thesis using step_new [OF inv] al by blast
next
  case (Op_Poll a w p)
  then show ?thesis using step_poll [OF T inv] al by blast
next
  case (Op_Next a w p)
  then show ?thesis using step_next [OF T inv] al by blast
next
  case (Op_Drop a)
  then show ?thesis using step_drop [OF inv] al by blast
next
  case (Kernel_Cqe e)
  then show ?thesis using step_cqe [OF inv] al by blast
qed

lemma life_reach_inv:
  assumes T: "class_ok T"
  shows "life_reach T multi m \<Longrightarrow> life_inv T multi m"
proof (induction rule: life_reach.induct)
  case life_init
  then show ?case by (rule life_inv_new)
next
  case (life_step m c m')
  then show ?case using life_step_safe [OF T, of multi m c] by auto
qed

section \<open>After the future is gone\<close>

fun life_run :: "('d, 'o, 'i) op_class \<Rightarrow> 'd life_cmd list \<Rightarrow> 'd life \<Rightarrow> fault + 'd life" where
  "life_run T [] m = Inr m"
| "life_run T (c # cs) m = and_then (life_exec T c m) (life_run T cs)"

text \<open>\<open>es\<close> are the completions of the entry at \<open>a\<close>, the last one final, and \<open>rs\<close> their results.\<close>

definition final_cqes :: "('d, 'o, 'i) op_class \<Rightarrow> u64 \<Rightarrow> cqe list \<Rightarrow> cqe_result list \<Rightarrow> bool" where
  "final_cqes T a es rs \<longleftrightarrow> comps_ok T True rs \<and>
     list_all2 (\<lambda>e res. cq_user_data e = a \<and> cqe_to_result (cl_debug T) e = Inr res \<and> cr_flags res = cq_flags e) es rs"

lemma orphan_completes:
  assumes pl: "lf_place m a = In_Ring" and fu: "lf_futs m a = None" and inv: "life_inv T multi m"
    and r: "oh_ops (lf_heap m) a = Some r" "ro_data r = Some d" and fin: "final_cqes T a es rs"
  shows "\<exists>m'. life_run T (map Kernel_Cqe es) m = Inr m' \<and> oh_ops (lf_heap m') a = None \<and>
    oh_dropped (lf_heap m') = oh_dropped (lf_heap m) @ [(a, foldl (cl_cleanup T) d (ro_completions r @ rs))]"
  using assms
proof (induction es arbitrary: m r rs)
  case Nil
  then show ?case by (auto simp: final_cqes_def comps_ok_def)
next
  case (Cons e es)
  note pl = Cons.prems(1) and fu = Cons.prems(2) and inv = Cons.prems(3) and r = Cons.prems(4,5) and fin = Cons.prems(6)
  obtain res rs' where rs: "rs = res # rs'" "cq_user_data e = a" "cqe_to_result (cl_debug T) e = Inr res" "cr_flags res = cq_flags e"
    using fin by (auto simp: final_cqes_def list_all2_Cons1)
  have cell: "1024 < a" "\<not> ro_complete r" "ro_refcount r = 1" using life_in_ring [OF inv pl] r fu by auto
  have at: "op_at (cq_user_data e) (lf_heap m) = Inr r" using r(1) rs(2) by (simp add: op_at_iff)
  have mo: "cl_more T (cq_flags e) = cqe_more T res" using rs(4) by (simp add: cqe_more_def)
  have rc: "ro_refcount r \<in> {1, 2}" using cell(3) by simp
  note eq = complete_operation_eq [OF at cell(1) [folded rs(2)] cell(2) rs(3) rc r(2)]
  show ?case
  proof (cases rs')
    case Nil
    then have "es = []" "\<not> cqe_more T res" using fin rs(1) by (auto simp: final_cqes_def comps_ok_def)
    then show ?thesis using eq cell(3) rs(1,2) Nil by (simp add: Let_def)
  next
    case (Cons res' rs'')
    then have more: "cqe_more T res" and fin': "final_cqes T a es rs'"
      using fin rs(1) by (auto simp: final_cqes_def comps_ok_def)
    let ?r = "r\<lparr>ro_completions := ro_completions r @ [res], ro_waker := None\<rparr>"
    let ?h = "(put_op a ?r (lf_heap m))\<lparr>oh_woken := oh_woken (lf_heap m) @ (case ro_waker r of None \<Rightarrow> [] | Some k \<Rightarrow> [k])\<rparr>"
    have ex: "life_exec T (Kernel_Cqe e) m = Inr (m\<lparr>lf_heap := ?h\<rparr>)"
      using eq more mo rs(2) by (simp add: Let_def)
    moreover have "life_inv T multi (m\<lparr>lf_heap := ?h\<rparr>)"
      using life_inv_at [OF inv, of a, unfolded life_ok_def r(1) pl, simplified, unfolded r(2) fu, simplified] cell fu pl r(2) more
      by (intro life_inv_change [OF inv, of a]) (auto simp: life_ok_def comps_ok_def)
    moreover have "life_run T (map Kernel_Cqe (e # es)) m = life_run T (map Kernel_Cqe es) (m\<lparr>lf_heap := ?h\<rparr>)"
      using ex by (simp only: list.map life_run.simps and_then_simps)
    ultimately show ?thesis
      using Cons.IH [of "m\<lparr>lf_heap := ?h\<rparr>" ?r rs'] pl fu r(2) fin' rs(1) by simp
  qed
qed

text \<open>Dropping the future of a submitted operation leaves its cell to the ring.\<close>

lemma drop_in_ring:
  assumes inv: "life_inv T multi m" and pl: "lf_place m a = In_Ring" and f: "lf_futs m a = Some f"
    and r: "oh_ops (lf_heap m) a = Some r"
  shows "\<exists>m'. life_exec T (Op_Drop a) m = Inr m' \<and> life_inv T multi m' \<and> lf_place m' a = In_Ring \<and> lf_futs m' a = None \<and>
    oh_ops (lf_heap m') a = Some (r\<lparr>ro_refcount := 1\<rparr>) \<and> oh_dropped (lf_heap m') = oh_dropped (lf_heap m)"
proof -
  note ok = life_inv_at [OF inv, of a, unfolded life_ok_def r f pl, simplified]
  have at: "op_at a (lf_heap m) = Inr r" using r by (simp add: op_at_iff)
  have rc: "ro_refcount r = 2" and a: "of_addr f = a" and sub: "of_submitted f" using ok by simp_all
  obtain m' where m': "life_exec T (Op_Drop a) m = Inr m'" "life_inv T multi m'"
    using step_drop [OF inv, of a] f by auto
  have "op_drop T f (lf_heap m) = Inr (if of_completed f then None else Some a, put_op a (r\<lparr>ro_refcount := 1\<rparr>) (lf_heap m))"
    using drop_op_keep [OF at, of T] rc a sub by (simp add: op_drop_def del: and_then_eq_Inr)
  then have "m' = m\<lparr>lf_heap := put_op a (r\<lparr>ro_refcount := 1\<rparr>) (lf_heap m), lf_futs := (lf_futs m)(a := None)\<rparr>"
    using m'(1) f sub by simp
  then show ?thesis using m' pl by simp
qed

text \<open>A future dropped in flight, and everything the kernel answers afterwards.\<close>

lemma drop_cleans_up:
  assumes "class_ok T" and "life_reach T multi m" and "lf_place m a = In_Ring" and "lf_futs m a = Some f"
    and "oh_ops (lf_heap m) a = Some r" and "ro_data r = Some d" and "final_cqes T a es rs"
  shows "\<exists>m'. life_run T (Op_Drop a # map Kernel_Cqe es) m = Inr m' \<and> oh_ops (lf_heap m') a = None \<and>
    oh_dropped (lf_heap m') = oh_dropped (lf_heap m) @ [(a, foldl (cl_cleanup T) d (ro_completions r @ rs))]"
proof -
  from drop_in_ring [OF life_reach_inv [OF assms(1,2)] assms(3-5)] obtain m1 where m1:
    "life_exec T (Op_Drop a) m = Inr m1" "life_inv T multi m1" "lf_place m1 a = In_Ring" "lf_futs m1 a = None"
    "oh_ops (lf_heap m1) a = Some (r\<lparr>ro_refcount := 1\<rparr>)" "oh_dropped (lf_heap m1) = oh_dropped (lf_heap m)" by blast
  from orphan_completes [OF m1(3,4,2,5) _ assms(7)] assms(6) m1(1,6) show ?thesis by simp
qed

section \<open>Concrete runs\<close>

fun life_script :: "('d, 'o, 'i) op_class \<Rightarrow> bool \<Rightarrow> 'd life_cmd list \<Rightarrow> 'd life \<Rightarrow> 'd life option" where
  "life_script T multi [] m = Some m"
| "life_script T multi (c # cs) m = (if life_allowed multi c m
     then (case life_exec T c m of Inr m' \<Rightarrow> life_script T multi cs m' | Inl _ \<Rightarrow> None) else None)"

lemma life_script_reach:
  "life_reach T multi m \<Longrightarrow> life_script T multi cs m = Some m' \<Longrightarrow> life_reach T multi m'"
  by (induction cs arbitrary: m) (auto split: if_splits sum.splits intro: life_reach.life_step)

definition life_demo :: "('d, 'o, 'i) op_class \<Rightarrow> bool \<Rightarrow> 'd life_cmd list \<Rightarrow> 'd life" where
  "life_demo T multi cs = (case life_script T multi cs life_new of None \<Rightarrow> life_new | Some m \<Rightarrow> m)"

lemma life_demo_reach: "life_reach T multi (life_demo T multi cs)"
  using life_script_reach [OF life_reach.life_init, of T multi cs]
  by (auto simp: life_demo_def life_reach.life_init split: option.splits)

text \<open>An operation that counts its completions; the flag of a completion that announces more is bit 1.\<close>

definition count_class :: "(nat, nat, u32) op_class" where
  "count_class = \<lparr> cl_cleanup = (\<lambda>d r. d + 1), cl_complete = (\<lambda>d r. d + 100), cl_update = (\<lambda>d r. Inr (d + 1)),
     cl_item = (\<lambda>d r. Inr (case cr_result r of Inl _ \<Rightarrow> 0 | Inr n \<Rightarrow> n, d)), cl_more = (\<lambda>f. bit f 1), cl_debug = True \<rparr>"

lemma class_ok_count [simp]: "class_ok count_class"
  by (simp add: class_ok_def count_class_def)

end
