(* ===== verification/Ring_Properties.thy ===== *)
theory Ring_Properties
  imports Ring_Spec Operation_Life
begin

text \<open>
  The properties of the driver of the rings and of its parts: the notification list, the wake-up of a
  parked event loop, the operations in flight and the submission and completion of entries.
\<close>

section \<open>The notification list\<close>

text \<open>Two linked waiters, at 1 and 2, with the wakers 10 and 20; and the first one fired.\<close>

definition two_waiters :: notifier where
  "two_waiters = \<lparr> nt_waiters = [1, 2], nt_count = 2,
     nt_entries = [1 \<mapsto> \<lparr> ne_state = Waiter_Linked, ne_waker = Some 10 \<rparr>, 2 \<mapsto> \<lparr> ne_state = Waiter_Linked, ne_waker = Some 20 \<rparr>],
     nt_woken = [] \<rparr>"

definition one_fired :: notifier where
  "one_fired = \<lparr> nt_waiters = [2], nt_count = 1,
     nt_entries = [1 \<mapsto> \<lparr> ne_state = Waiter_Fired, ne_waker = None \<rparr>, 2 \<mapsto> \<lparr> ne_state = Waiter_Linked, ne_waker = Some 20 \<rparr>],
     nt_woken = [10] \<rparr>"

lemma waiters_inv: "notify_inv two_waiters" "notify_inv one_fired"
  by (auto simp: notify_inv_def two_waiters_def one_fired_def)

text \<open>
  Notifying \<open>n\<close> waiters ends, and fires exactly the first \<open>n\<close> waiters in the order they registered, or
  all there are: their wakers are called in that order, the others stay, the count is exact.
\<close>

theorem notify_fifo:
  assumes "linked_list C" and "notify_inv s" and "k = min (unat n) (length (nt_waiters s))"
  shows "\<exists>r s'. notify_n C n s = Some (Inr (r, s')) \<and> unat r = k \<and> notify_inv s' \<and>
    nt_waiters s' = drop k (nt_waiters s) \<and>
    nt_entries s' = fired_entries (take k (nt_waiters s)) (nt_entries s) \<and>
    nt_woken s' = nt_woken s @ map (waker_at (nt_entries s)) (take k (nt_waiters s))"
  by (rule notify_n_spec [OF assms])

theorem notify_fifo_witness:
  "\<exists>r s'. notify_n (seq_env True) 1 two_waiters = Some (Inr (r, s')) \<and> nt_waiters s' = [2] \<and> nt_woken s' = [10]"
proof -
  have "min (unat (1 :: usize)) (length (nt_waiters two_waiters)) = 1" by (simp add: two_waiters_def)
  from notify_fifo [OF linked_list_seq_env waiters_inv(1) this [symmetric]] show ?thesis
    by (fastforce simp: two_waiters_def waker_at_def)
qed

text \<open>
  C17: no notification is lost when a waiter goes away: the drop of a fired waiter that was not polled fires
  the next one in line, the drop of a linked waiter unlinks it, and the invariant is kept.
\<close>

theorem dropped_waiter_passes_on:
  assumes "linked_list C" and "notify_inv s" and "nt_entries s a = Some e"
  shows "\<exists>s'. notified_drop C a s = Some (Inr s') \<and> notify_inv s' \<and> nt_entries s' a = None \<and>
    (if ne_state e = Waiter_Fired \<and> nt_waiters s \<noteq> []
     then nt_woken s' = nt_woken s @ [waker_at (nt_entries s) (hd (nt_waiters s))] \<and>
       nt_waiters s' = tl (nt_waiters s)
     else nt_woken s' = nt_woken s \<and> nt_waiters s' = remove1 a (nt_waiters s))"
  by (rule notified_drop_spec [OF assms])

theorem dropped_waiter_passes_on_witness:
  "\<exists>s'. notified_drop (seq_env True) 1 one_fired = Some (Inr s') \<and> nt_woken s' = [10, 20] \<and> nt_waiters s' = []"
  using dropped_waiter_passes_on [OF linked_list_seq_env waiters_inv(2), of 1 "\<lparr> ne_state = Waiter_Fired, ne_waker = None \<rparr>"]
  by (fastforce simp: one_fired_def waker_at_def)

section \<open>Waking a parked reactor\<close>

fun wake_script :: "wake_step list \<Rightarrow> wake_state \<Rightarrow> wake_state option" where
  "wake_script [] s = Some s"
| "wake_script (c # cs) s = (case wake_do c s of None \<Rightarrow> None | Some s' \<Rightarrow> wake_script cs s')"

lemma wake_script_reach:
  "wake_reach fails s0 s \<Longrightarrow> wake_script cs s = Some s' \<Longrightarrow> fails \<or> Reactor_Prepare False \<notin> set cs \<Longrightarrow> wake_reach fails s0 s'"
  by (induction cs arbitrary: s) (auto split: option.splits, (metis wake_reach.wake_next)+)

text \<open>
  C5: if the submission queue takes the read of the eventfd whenever the reactor parks, no interleaving of
  the reactor, remote threads and the kernel loses a wake: a reactor that sleeps after a wake has its
  completion, or a read is outstanding and the eventfd is written or about to be.
\<close>

theorem wake_reaches_sleeper:
  assumes "wake_reach False wake_init s" and "wk_asleep s" and "up_woken (wk_flag s)"
  shows "wk_cqe s \<or> (wk_armed s \<and> (0 < wk_event s \<or> 0 < wk_writers s))"
  using wake_reach_inv [OF assms(1)] assms(2,3) by (auto simp: wake_inv_def)

lemma flag_values:
  "park_decision True 0 = (True, True, 1)" "park_decision False 0 = (False, False, 1)"
  "park_decision True 1 = (True, False, 1)" "park_decision True 2 = (False, True, 3)"
  "unparker_wake 1 = (True, 3)" "unparker_wake 0 = (False, 2)"
  by (simp_all add: park_decision_def unparker_park_def unparker_wake_def up_woken_def up_is_parked_def
      REACTOR_PARK_BIT_def REMOTE_THREAD_BIT_def)

theorem wake_reaches_sleeper_witness:
  "let s = \<lparr> wk_flag = 3, wk_event = 0, wk_armed = True, wk_cqe = False, wk_writers = 1, wk_asleep = True \<rparr> in
   wk_cqe s \<or> (wk_armed s \<and> (0 < wk_event s \<or> 0 < wk_writers s))"
proof -
  let ?s = "\<lparr> wk_flag = 3, wk_event = 0, wk_armed = True, wk_cqe = False, wk_writers = 1, wk_asleep = True \<rparr>"
  have "wake_script [Reactor_Prepare True, Remote_Wake] wake_init = Some ?s"
    by (simp add: wake_init_def flag_values)
  from wake_script_reach [OF wake_reach.wake_refl this, of False] have "wake_reach False wake_init ?s" by simp
  from wake_reaches_sleeper [OF this] show ?thesis by (simp add: up_woken_def REMOTE_THREAD_BIT_def)
qed


text \<open>
  A wake that comes before the reactor has parked is remembered forever: from then on, whatever happens,
  the reactor never sleeps again.
\<close>

theorem early_wake_spins:
  assumes "wake_do Remote_Wake wake_init = Some s" and "wake_reach fails s s'"
  shows "\<not> wk_asleep s' \<and> up_woken (wk_flag s')"
proof -
  have "wake_stuck s" using assms(1) by (auto simp: wake_stuck_def wake_init_def flag_values up_woken_def REMOTE_THREAD_BIT_def)
  from wake_stuck_reach [OF assms(2) this] show ?thesis by (simp add: wake_stuck_def)
qed

theorem early_wake_spins_witness:
  "case wake_script [Remote_Wake, Reactor_Prepare True] wake_init of None \<Rightarrow> False | Some s \<Rightarrow> \<not> wk_asleep s \<and> up_woken (wk_flag s)"
proof -
  obtain s s' where s: "wake_do Remote_Wake wake_init = Some s" "wake_do (Reactor_Prepare True) s = Some s'"
    by (simp add: wake_init_def flag_values)
  have "wake_reach False s s'" using wake_reach.wake_next [OF wake_reach.wake_refl _ s(2), of False] by simp
  from early_wake_spins [OF s(1) this] s show ?thesis by simp
qed

text \<open>
  \<open>prepare_park\<close> of a running driver takes the decision of the wake-up protocol with the flag it has read
  and the outcome of the push, and arms the read exactly as the protocol does.
\<close>

theorem prepare_park_refines:
  assumes "dr_status s = Status_Running"
  shows "prepare_park U s =
    (let push = ur_sq_push U event_read (dr_ring s); (sleeps, arms, flag) = park_decision (push \<noteq> None) (dr_unparker s) in
     (sleeps, s\<lparr>dr_unparker := flag, dr_ring := (if arms then the push else dr_ring s)\<rparr>))"
  by (rule prepare_park_decision [OF assms])

definition empty_driver :: "(sim_ring, nat) driver" where
  "empty_driver = driver_new (seq_env True) \<lparr> sim_sq = [], sim_cq = [] \<rparr>"

theorem prepare_park_refines_witness:
  "case prepare_park (sim_uring 4) empty_driver of (sleeps, s) \<Rightarrow> sleeps \<and> dr_unparker s = 1 \<and> sim_sq (dr_ring s) = [event_read]"
proof -
  have "dr_status empty_driver = Status_Running" by (simp add: empty_driver_def driver_new_def)
  from prepare_park_refines [OF this, of "sim_uring 4"] show ?thesis
    by (simp add: empty_driver_def driver_new_def sim_uring_def flag_values)
qed

section \<open>Operations in flight\<close>

text \<open>
  In every reachable state everything the callers and the kernel may do succeeds: no reference count
  over- or underflows, no freed operation is completed or polled, no completion is missing.
\<close>

theorem ops_safe:
  assumes "class_ok T" and "life_reach T multi m" and "life_allowed multi c m"
  shows "\<exists>m'. life_exec T c m = Inr m' \<and> life_reach T multi m'"
proof -
  obtain m' where m': "life_exec T c m = Inr m'"
    using life_step_safe [OF assms(1) life_reach_inv [OF assms(1,2)] assms(3)] by blast
  then show ?thesis using life_reach.life_step [OF assms(2,3)] by blast
qed

text \<open>An operation at address 2000 that is submitted, and one that has two completions of which the last is final.\<close>

definition submitted_op :: "bool \<Rightarrow> nat life" where
  "submitted_op multi = life_demo count_class multi
     [Op_New 2000 0, if multi then Op_Next 2000 7 Push_Done else Op_Poll 2000 7 Push_Done]"

definition answered_op :: "bool \<Rightarrow> nat life" where
  "answered_op multi = life_demo count_class multi
     [Op_New 2000 0, if multi then Op_Next 2000 7 Push_Done else Op_Poll 2000 7 Push_Done,
      Kernel_Cqe \<lparr> cq_user_data = 2000, cq_result = 1, cq_flags = 2 \<rparr>, Kernel_Cqe \<lparr> cq_user_data = 2000, cq_result = 5, cq_flags = 0 \<rparr>]"

lemma demo_ops_reach: "life_reach count_class multi (submitted_op multi)" "life_reach count_class multi (answered_op multi)"
  by (simp_all only: submitted_op_def answered_op_def life_demo_reach)

theorem ops_safe_witness:
  "\<exists>m'. life_exec count_class (Kernel_Cqe \<lparr> cq_user_data = 2000, cq_result = 5, cq_flags = 0 \<rparr>) (submitted_op False) = Inr m' \<and>
    life_reach count_class False m'"
proof -
  have "life_allowed False (Kernel_Cqe \<lparr> cq_user_data = 2000, cq_result = 5, cq_flags = 0 \<rparr>) (submitted_op False)" by code_simp
  from ops_safe [OF class_ok_count demo_ops_reach(1) this] show ?thesis .
qed

text \<open>
  C3: a dropped operation that the kernel still holds is kept until the kernel has answered it: the drop
  keeps its data, and its completions clean the data up, the ones that had arrived before and the ones that
  arrive later, each once and in order, and the last one frees it.
\<close>

theorem dropped_op_cleans_up:
  assumes "class_ok T" and "life_reach T multi m" and "lf_place m a = In_Ring" and "lf_futs m a = Some f"
    and "oh_ops (lf_heap m) a = Some r" and "ro_data r = Some d" and "final_cqes T a es rs"
  shows "\<exists>m'. life_run T (Op_Drop a # map Kernel_Cqe es) m = Inr m' \<and> oh_ops (lf_heap m') a = None \<and>
    oh_dropped (lf_heap m') = oh_dropped (lf_heap m) @ [(a, foldl (cl_cleanup T) d (ro_completions r @ rs))]"
  by (rule drop_cleans_up [OF assms])

theorem dropped_op_cleans_up_witness:
  "\<exists>m'. life_run count_class (Op_Drop 2000 # map Kernel_Cqe [\<lparr> cq_user_data = 2000, cq_result = 5, cq_flags = 0 \<rparr>]) (submitted_op False)
     = Inr m' \<and> oh_ops (lf_heap m') 2000 = None \<and> oh_dropped (lf_heap m') = [(2000, 1)]"
proof -
  let ?rs = "[\<lparr> cr_result = Inr 5, cr_flags = 0 \<rparr>]"
  have fin: "final_cqes count_class 2000 [\<lparr> cq_user_data = 2000, cq_result = 5, cq_flags = 0 \<rparr>] ?rs" by code_simp
  have "lf_place (submitted_op False) 2000 = In_Ring" and "oh_dropped (lf_heap (submitted_op False)) = []"
    and f: "lf_futs (submitted_op False) 2000 = Some \<lparr> of_addr = 2000, of_submitted = True, of_completed = False \<rparr>"
    and r: "oh_ops (lf_heap (submitted_op False)) 2000 =
      Some \<lparr> ro_refcount = 2, ro_waker = Some 7, ro_completions = [], ro_complete = False, ro_data = Some 0 \<rparr>"
    by code_simp+
  from dropped_op_cleans_up [OF class_ok_count demo_ops_reach(1) this(1) f r _ fin] this(2) show ?thesis
    by (simp add: count_class_def)
qed

text \<open>
  C13: a poll of a submitted one-shot operation is ready exactly when its final completion has arrived: the
  completions before it have updated the data in order and the final one gives the result; otherwise
  the waker of the task is registered.
\<close>

theorem op_result:
  assumes "class_ok T" and "life_reach T False m" and "lf_futs m a = Some f" and "of_submitted f" and "\<not> of_completed f"
  shows "\<exists>r d. oh_ops (lf_heap m) a = Some r \<and> ro_data r = Some d \<and> op_poll T Push_Done w f (lf_heap m) =
    (if ro_complete r
     then Inr (Ready (cl_complete T (fold_updates T d (butlast (ro_completions r))) (last (ro_completions r))),
       f\<lparr>of_completed := True\<rparr>, put_op a (r\<lparr>ro_completions := [], ro_data := None\<rparr>) (lf_heap m))
     else Inr (Pending, f, put_op a (r\<lparr>ro_waker := Some w\<rparr>) (lf_heap m)))"
proof -
  note inv = life_reach_inv [OF assms(1,2)]
  obtain r where r: "oh_ops (lf_heap m) a = Some r" "ro_refcount r \<in> {1, 2}" "of_addr f = a"
    using life_future [OF inv assms(3)] by blast
  note ok = life_inv_at [OF inv, of a, unfolded life_ok_def r(1) assms(3), simplified]
  obtain d where d: "ro_data r = Some d" using ok assms(5) by (cases "ro_data r") auto
  have c: "ro_complete r \<Longrightarrow> ro_data r = Some d \<and> comps_ok T True (ro_completions r)" using ok d by auto
  have sub: "f\<lparr>of_submitted := True\<rparr> = f" using assms(4) by (cases f) simp
  have "op_at (of_addr f) (lf_heap m) = Inr r" using r by (simp add: op_at_iff)
  from op_poll_eq [OF assms(1) this r(2) _ c, of Push_Done w] d r sub assms(4) show ?thesis by auto
qed

theorem op_result_witness:
  "\<exists>h. op_poll count_class Push_Done 9 \<lparr> of_addr = 2000, of_submitted = True, of_completed = False \<rparr> (lf_heap (answered_op False))
    = Inr (Ready 101, \<lparr> of_addr = 2000, of_submitted = True, of_completed = True \<rparr>, h)"
proof -
  have f: "lf_futs (answered_op False) 2000 = Some \<lparr> of_addr = 2000, of_submitted = True, of_completed = False \<rparr>" by code_simp
  have "oh_ops (lf_heap (answered_op False)) 2000 = Some \<lparr> ro_refcount = 1, ro_waker = None,
      ro_completions = [\<lparr> cr_result = Inr 1, cr_flags = 2 \<rparr>, \<lparr> cr_result = Inr 5, cr_flags = 0 \<rparr>], ro_complete = True, ro_data = Some 0 \<rparr>"
    by code_simp
  with op_result [OF class_ok_count demo_ops_reach(2) f, of 9] show ?thesis by (simp add: count_class_def)
qed

text \<open>
  C31: a stream of a multishot operation delivers the completion that arrived last first: of the completions
  that wait, \<open>poll_next\<close> takes the newest and leaves the older ones, so items that queued up come out in
  reverse order.
\<close>

theorem multishot_reversed:
  assumes "class_ok T" and "life_reach T True m" and "lf_futs m a = Some f" and "of_submitted f"
    and "oh_ops (lf_heap m) a = Some r" and "ro_completions r = cs @ [c]"
  shows "\<exists>d v d'. ro_data r = Some d \<and> cl_item T d c = Inr (v, d') \<and> op_poll_next T Push_Done w f (lf_heap m) =
    Inr (Ready (Some v), f, put_op a (r\<lparr>ro_completions := cs, ro_data := Some d'\<rparr>) (lf_heap m))"
proof -
  note inv = life_reach_inv [OF assms(1,2)]
  have r: "ro_refcount r \<in> {1, 2}" "of_addr f = a" using life_future [OF inv assms(3)] assms(5) by auto
  note ok = life_inv_at [OF inv, of a, unfolded life_ok_def assms(3,5), simplified]
  obtain d where d: "ro_data r = Some d" using ok by (cases "ro_data r") auto
  obtain v d' where v: "cl_item T d c = Inr (v, d')" using assms(1) unfolding class_ok_def by blast
  have sub: "f\<lparr>of_submitted := True\<rparr> = f" using assms(4) by (cases f) simp
  have "op_at (of_addr f) (lf_heap m) = Inr r" using r assms(5) by (simp add: op_at_iff)
  from op_next_eq [OF assms(1) this r(1) _ d, of Push_Done v d' w] v r(2) sub assms(4,6) d show ?thesis by simp
qed

theorem multishot_reversed_witness:
  "\<exists>h. op_poll_next count_class Push_Done 9 \<lparr> of_addr = 2000, of_submitted = True, of_completed = False \<rparr> (lf_heap (answered_op True))
    = Inr (Ready (Some 5), \<lparr> of_addr = 2000, of_submitted = True, of_completed = False \<rparr>, h)"
proof -
  let ?r = "\<lparr> ro_refcount = 1, ro_waker = None,
      ro_completions = [\<lparr> cr_result = Inr 1, cr_flags = 2 \<rparr>, \<lparr> cr_result = Inr 5, cr_flags = 0 \<rparr>], ro_complete = True, ro_data = Some 0 \<rparr>"
  have f: "lf_futs (answered_op True) 2000 = Some \<lparr> of_addr = 2000, of_submitted = True, of_completed = False \<rparr>" by code_simp
  have r: "oh_ops (lf_heap (answered_op True)) 2000 = Some ?r" by code_simp
  have "ro_completions ?r = [\<lparr> cr_result = Inr 1, cr_flags = 2 \<rparr>] @ [\<lparr> cr_result = Inr 5, cr_flags = 0 \<rparr>]" by simp
  from multishot_reversed [OF class_ok_count demo_ops_reach(2) f _ r this, of 9] show ?thesis
    by (auto simp: count_class_def)
qed

section \<open>The rings\<close>



text \<open>
  C16: backpressure: a push on a running driver is pending while its waiter is linked; otherwise, and after a
  notification, it puts its entry last in the submission queue if there is room, and waits at the end of the
  list of waiters, with its entry kept, if there is none.
\<close>

theorem push_backpressure:
  assumes "io_ring U capacity sq cq" and "linked_list C" and "dr_status s = Status_Running" and "pf_entry f = Some e"
    and "nt_count (dr_backpressure s) \<noteq> - 1"
    and "if pf_waiting f then nt_entries (dr_backpressure s) (pf_slot f) = Some n \<and> ne_state n \<in> {Waiter_Linked, Waiter_Fired} else True"
  shows "\<exists>p f' s'. push_poll C U w f s = Some (Inr (p, f', s')) \<and>
    (if pf_waiting f \<and> ne_state n = Waiter_Linked
     then p = Push_Pending \<and> f' = f \<and> dr_ring s' = dr_ring s
     else if capacity \<le> length (sq (dr_ring s))
     then p = Push_Pending \<and> pf_entry f' = Some e \<and> pf_waiting f' \<and> dr_ring s' = dr_ring s \<and>
       nt_waiters (dr_backpressure s') = nt_waiters (dr_backpressure s) @ [pf_slot f]
     else p = Push_Done \<and> pf_entry f' = None \<and> sq (dr_ring s') = sq (dr_ring s) @ [into_entry e])"
  by (rule io_ring.push_poll_spec [OF assms(1-5)]) (use assms(6) in simp)

theorem push_backpressure_witness:
  "\<exists>f' s'. push_poll (seq_env True) (sim_uring 0) 9 (push_future_new 1 (2000, sqe_build Sqe_Nop)) empty_driver =
      Some (Inr (Push_Pending, f', s')) \<and> nt_waiters (dr_backpressure s') = [1]"
proof -
  let ?f = "push_future_new 1 (2000, sqe_build Sqe_Nop)"
  have "dr_status empty_driver = Status_Running" "pf_entry ?f = Some (2000, sqe_build Sqe_Nop)" "\<not> pf_waiting ?f"
    "nt_count (dr_backpressure empty_driver) \<noteq> - 1" "nt_waiters (dr_backpressure empty_driver) = []" "pf_slot ?f = 1"
    by (simp_all add: empty_driver_def driver_new_def notifier_new_def push_future_new_def)
  with push_backpressure [OF io_ring_sim [of 0] linked_list_seq_env this(1,2,4), where w = 9]
  show ?thesis by fastforce
qed

text \<open>
  The first poll of an operation on a ring with room puts exactly one entry in the queue, the configured one
  with the address of the operation, and registers the waker; the completion that brings this address back
  completes this operation.
\<close>

theorem op_submits_entry:
  assumes "io_ring U capacity sq cq" and "dr_status s = Status_Running" and "length (sq (dr_ring s)) < capacity"
    and "\<not> of_submitted f" and "pf_entry pf = Some (of_addr f, e)" and "\<not> pf_waiting pf"
    and "oh_ops (dr_ops s) (of_addr f) = Some r" and "\<not> ro_complete r"
  shows "\<exists>s'. driver_poll_op C U T w f pf s =
      Some (Inr (Pending, f\<lparr>of_submitted := True\<rparr>, pf\<lparr>pf_waiting := False, pf_entry := None\<rparr>, s')) \<and>
    sq (dr_ring s') = sq (dr_ring s) @ [e\<lparr>sq_user_data := of_addr f\<rparr>] \<and>
    dr_ops s' = put_op (of_addr f) (r\<lparr>ro_waker := Some w\<rparr>) (dr_ops s)"
proof -
  obtain k where k: "push_poll C U w pf s = Some (Inr (Push_Done, pf\<lparr>pf_waiting := False, pf_entry := None\<rparr>, s\<lparr>dr_ring := k\<rparr>))"
    "sq k = sq (dr_ring s) @ [into_entry (of_addr f, e)]"
    using io_ring.push_poll_room [OF assms(1,2,5,6,3)] by blast
  have "op_at (of_addr f) (dr_ops s) = Inr r" using assms(7) by (simp add: op_at_iff)
  then have "op_poll T Push_Done w f (dr_ops s) =
      Inr (Pending, f\<lparr>of_submitted := True\<rparr>, put_op (of_addr f) (r\<lparr>ro_waker := Some w\<rparr>) (dr_ops s))"
    using assms(4,8) by (simp add: op_poll_def op_stage_poll_def poll_submit_def try_complete_def register_waker_def del: and_then_eq_Inr)
  then show ?thesis using k assms(4) by (simp add: driver_poll_op_def poll_push_def into_entry_def)
qed

theorem op_submits_entry_witness:
  "\<exists>f pf s s'. handle_submit count_class (\<lambda>_. sqe_build Sqe_Nop) 2000 1 0 empty_driver = Inr (f, pf, s) \<and>
    (\<exists>f' pf'. driver_poll_op (seq_env True) (sim_uring 4) count_class 9 f pf s = Some (Inr (Pending, f', pf', s'))) \<and>
    sim_sq (dr_ring s') = [(sqe_build Sqe_Nop)\<lparr>sq_user_data := 2000\<rparr>]"
proof -
  let ?f = "\<lparr> of_addr = 2000, of_submitted = False, of_completed = False \<rparr>" and ?pf = "push_future_new 1 (2000, sqe_build Sqe_Nop)"
  let ?r = "(raw_op_new (0 :: nat))\<lparr>ro_refcount := 2\<rparr>"
  let ?s = "empty_driver\<lparr>dr_ops := put_op 2000 ?r (dr_ops empty_driver)\<rparr>"
  have h: "handle_submit count_class (\<lambda>_. sqe_build Sqe_Nop) 2000 1 0 empty_driver = Inr (?f, ?pf, ?s)"
    by (simp add: handle_submit_def op_new_def clone_op_eq raw_allocate_def raw_op_new_def handle_push_def del: and_then_eq_Inr)
  have "dr_status ?s = Status_Running" "length (sim_sq (dr_ring ?s)) < 4" "\<not> of_submitted ?f" "pf_entry ?pf = Some (of_addr ?f, sqe_build Sqe_Nop)"
    "\<not> pf_waiting ?pf" "oh_ops (dr_ops ?s) (of_addr ?f) = Some ?r" "\<not> ro_complete ?r"
    by (simp_all add: empty_driver_def driver_new_def push_future_new_def raw_op_new_def)
  from op_submits_entry [OF io_ring_sim [of 4] this, of "seq_env True" count_class 9] h show ?thesis
    by (fastforce simp: empty_driver_def driver_new_def)
qed

text \<open>
  \<open>Shared::close_fd\<close> on a queue with room for two entries pushes its close request twice, so that the
  descriptor is closed a second time, when its number may belong to another file.
\<close>

theorem close_fd_twice:
  assumes "io_ring U capacity sq cq" and "length (sq (dr_ring s)) + 2 \<le> capacity"
    and "e = (sqe_build (Sqe_Close fd))\<lparr>sq_skip_success := True, sq_user_data := CLOSE_FD_TOKEN\<rparr>"
  shows "\<exists>s'. driver_close_fd C U fd s = Some (Inr (Inr (), s')) \<and> sq (dr_ring s') = sq (dr_ring s) @ [e, e]"
  using io_ring.push_raw_submit_twice [OF assms(1,2), of C e] by (simp add: driver_close_fd_def assms(3))

theorem close_fd_twice_witness:
  "\<exists>s'. driver_close_fd (seq_env True) (sim_uring 4) (Fd_Regular 5) empty_driver = Some (Inr (Inr (), s')) \<and>
    map sq_op (sim_sq (dr_ring s')) = [Sqe_Close (Fd_Regular 5), Sqe_Close (Fd_Regular 5)]"
proof -
  have "length (sim_sq (dr_ring empty_driver)) + 2 \<le> 4" by (simp add: empty_driver_def driver_new_def)
  from close_fd_twice [OF io_ring_sim this refl, of "seq_env True" "Fd_Regular 5"] show ?thesis
    by (auto simp: empty_driver_def driver_new_def sqe_build_def)
qed

end
