(* ===== verification/Executor.thy ===== *)
theory Executor
  imports Park Task_Machine
begin

text \<open>
  The single-threaded executor of \<open>norn-executor/src/lib.rs\<close> and the harness of its root future
  (\<open>wakerfn.rs\<close>). The state of the program is a record with the task system, the root future's cell and
  the thread-local context, which the layer that parks and the user's code extend with their own. That
  layer is the record \<open>park_ops\<close>; the user's code is a record of two functions: the poll of the root
  future, and the rest of a poll, a cancellation or a destructor of a task that the task system has begun.
  Both may call the executor and the wakers.
\<close>

section \<open>The root future\<close>

text \<open>The cell \<open>Rc<Cell<bool>>\<close> with its strong count; it is freed when the count is 0.\<close>

record root_cell =
  rt_notified :: bool
  rt_refs :: nat

definition root_at :: "root_cell \<Rightarrow> fault + root_cell" where
  "root_at c = (if rt_refs c = 0 then Inl Dangling else Inr c)"

text \<open>\<open>FutureHarness::new\<close>: notified, with the reference of the harness and that of its waker.\<close>

definition harness_new :: root_cell where
  "harness_new = \<lparr> rt_notified = True, rt_refs = 2 \<rparr>"

definition root_clone :: "root_cell \<Rightarrow> fault + root_cell" where
  "root_clone c = and_then (root_at c) (\<lambda>c. Inr (c\<lparr>rt_refs := rt_refs c + 1\<rparr>))"

definition root_wake_ref :: "root_cell \<Rightarrow> fault + root_cell" where
  "root_wake_ref c = and_then (root_at c) (\<lambda>c. Inr (c\<lparr>rt_notified := True\<rparr>))"

definition root_drop :: "root_cell \<Rightarrow> fault + root_cell" where
  "root_drop c = and_then (root_at c) (\<lambda>c. Inr (c\<lparr>rt_refs := rt_refs c - 1\<rparr>))"

definition root_wake :: "root_cell \<Rightarrow> fault + root_cell" where
  "root_wake c = and_then (root_at c) (\<lambda>c. root_drop (c\<lparr>rt_notified := True\<rparr>))"

section \<open>The state\<close>

record executor =
  ex_machine :: machine
  ex_root :: root_cell
  ex_ctx :: "unit option"

record 'w user_code =
  us_root :: "'w \<Rightarrow> (fault + (nat option \<times> 'w)) option"
  us_task :: "'w \<Rightarrow> (fault + 'w) option"

definition ex_sys :: "'b executor_scheme \<Rightarrow> tsys" where
  "ex_sys w = mc_sys (ex_machine w)"

definition put_sys :: "tsys \<Rightarrow> 'b executor_scheme \<Rightarrow> 'b executor_scheme" where
  "put_sys s w = w\<lparr>ex_machine := (ex_machine w)\<lparr>mc_sys := s\<rparr>\<rparr>"

definition is_notified :: "'b executor_scheme \<Rightarrow> bool" where
  "is_notified w \<longleftrightarrow> rt_notified (ex_root w)"

section \<open>The loop\<close>

definition try_poll ::
  "'b executor_scheme user_code \<Rightarrow> 'b executor_scheme \<Rightarrow> (fault + (nat option \<times> 'b executor_scheme)) option"
where
  "try_poll U w =
     (if \<not> is_notified w then Some (Inr (None, w))
      else us_root U (w\<lparr>ex_root := (ex_root w)\<lparr>rt_notified := False\<rparr>\<rparr>))"

text \<open>\<open>Runnable::run\<close>; a task that is already complete has nothing to call.\<close>

definition run_runnable ::
  "env \<Rightarrow> nat \<Rightarrow> 'b executor_scheme user_code \<Rightarrow> nat \<Rightarrow> 'b executor_scheme \<Rightarrow> (fault + 'b executor_scheme) option"
where
  "run_runnable C th U t w =
     run_then (Some (task_poll C th t (ex_sys w))) (\<lambda>s.
       if stack s = stack (ex_sys w) then Some (Inr (put_sys s w)) else us_task U (put_sys s w))"

partial_function (option) run_tasks ::
  "env \<Rightarrow> nat \<Rightarrow> 'b executor_scheme user_code \<Rightarrow> 'b executor_scheme park_ops \<Rightarrow> 'b executor_scheme
   \<Rightarrow> (fault + 'b executor_scheme) option"
where
  "run_tasks C th U P w = (case queue_next (ex_sys w) of
     (None, s) \<Rightarrow> Some (Inr (put_sys s w))
   | (Some t, s) \<Rightarrow>
       run_then (run_runnable C th U t (put_sys s w)) (\<lambda>w.
         if pk_needs_park P w then Some (Inr w) else run_tasks C th U P w))"

declare run_tasks.simps [code]

definition executor_park ::
  "'b executor_scheme park_ops \<Rightarrow> 'b executor_scheme \<Rightarrow> (fault + 'b executor_scheme) option"
where
  "executor_park P w =
     (let mode = (if is_notified w then NoPark else NextCompletion) in
      run_then (pk_park P mode w) (\<lambda>(r, w). case r of Inl _ \<Rightarrow> Some (Inl Panic) | Inr _ \<Rightarrow> Some (Inr w)))"

partial_function (option) block_loop ::
  "env \<Rightarrow> nat \<Rightarrow> 'b executor_scheme user_code \<Rightarrow> 'b executor_scheme park_ops \<Rightarrow> 'b executor_scheme
   \<Rightarrow> (fault + (nat \<times> 'b executor_scheme)) option"
where
  "block_loop C th U P w =
     run_then (try_poll U w) (\<lambda>(r, w). case r of
         Some v \<Rightarrow> Some (Inr (v, w))
       | None \<Rightarrow>
           run_then (run_tasks C th U P w) (\<lambda>w.
           run_then (executor_park P w) (\<lambda>w. block_loop C th U P w)))"

declare block_loop.simps [code]

section \<open>Entering and leaving\<close>

definition executor_enter ::
  "'b executor_scheme park_ops \<Rightarrow> 'b executor_scheme \<Rightarrow> fault + 'b executor_scheme"
where
  "executor_enter P w =
     and_then (pk_enter P w) (\<lambda>w.
     and_then (ctx_enter () (ex_ctx w)) (\<lambda>c. Inr (w\<lparr>ex_ctx := c\<rparr>)))"

text \<open>The drop of the two guards, in the order of the tuple.\<close>

definition executor_leave ::
  "'b executor_scheme park_ops \<Rightarrow> 'b executor_scheme \<Rightarrow> fault + 'b executor_scheme"
where
  "executor_leave P w =
     and_then (pk_leave P w) (\<lambda>w.
     and_then (ctx_guard_drop (ex_ctx w)) (\<lambda>c. Inr (w\<lparr>ex_ctx := c\<rparr>)))"

text \<open>The drop of the harness gives up its reference and that of its waker.\<close>

definition harness_drop :: "root_cell \<Rightarrow> fault + root_cell" where
  "harness_drop c = and_then (root_drop c) root_drop"

definition block_on ::
  "env \<Rightarrow> nat \<Rightarrow> 'b executor_scheme user_code \<Rightarrow> 'b executor_scheme park_ops \<Rightarrow> 'b executor_scheme
   \<Rightarrow> (fault + (nat \<times> 'b executor_scheme)) option"
where
  "block_on C th U P w =
     run_then (Some (executor_enter P w)) (\<lambda>w.
     run_then (block_loop C th U P (w\<lparr>ex_root := harness_new\<rparr>)) (\<lambda>(v, w).
     run_then (Some (harness_drop (ex_root w))) (\<lambda>c.
     run_then (Some (executor_leave P (w\<lparr>ex_root := c\<rparr>))) (\<lambda>w. Some (Inr (v, w))))))"

text \<open>\<open>Handle::current().spawn\<close>, and the drop of the executor, where destructors of tasks may run.\<close>

definition executor_spawn :: "env \<Rightarrow> nat \<Rightarrow> 'b executor_scheme \<Rightarrow> fault + (nat \<times> 'b executor_scheme)" where
  "executor_spawn C th w = (case ctx_handle (ex_ctx w) of
     None \<Rightarrow> Inl Panic
   | Some _ \<Rightarrow> and_then (queue_spawn C th (ex_sys w)) (\<lambda>(t, s). Inr (t, put_sys s w)))"

definition executor_drop ::
  "env \<Rightarrow> nat \<Rightarrow> 'b executor_scheme user_code \<Rightarrow> 'b executor_scheme park_ops \<Rightarrow> 'b executor_scheme
   \<Rightarrow> (fault + 'b executor_scheme) option"
where
  "executor_drop C th U P w =
     run_then (Some (executor_enter P w)) (\<lambda>w.
     run_then (queue_shutdown C th (ex_sys w)) (\<lambda>s.
     run_then (if stack s = [] then Some (Inr (put_sys s w)) else us_task U (put_sys s w)) (\<lambda>w.
     run_then (pk_shutdown P w) (\<lambda>w. Some (executor_leave P w)))))"

end
