(* ===== verification/Executor_Properties.thy ===== *)
theory Executor_Properties
  imports Executor
begin

text \<open>
  The properties of the executor: it never faults while the user keeps to the discipline of the task system,
  its drop completes every task before the layer below is shut down, and how it chooses between its
  tasks, the root future and parking.
\<close>

section \<open>The user's side\<close>

text \<open>Between the calls of user code: a reachable task system with nothing running.\<close>

definition idle :: "env \<Rightarrow> nat \<Rightarrow> 'b executor_scheme \<Rightarrow> bool" where
  "idle C th w \<longleftrightarrow> reachable C th (ex_machine w) \<and> stack (ex_sys w) = [] \<and> roomy (ex_sys w)"

text \<open>What user code does from \<open>w\<close> to \<open>w'\<close>: calls that the discipline allows.\<close>

definition user_step :: "env \<Rightarrow> nat \<Rightarrow> 'b executor_scheme \<Rightarrow> 'b executor_scheme \<Rightarrow> bool" where
  "user_step C th w w' \<longleftrightarrow> (\<exists>cs. exec_all C th cs (ex_machine w) = Some (ex_machine w')) \<and>
     stack (ex_sys w') = [] \<and> roomy (ex_sys w')"

text \<open>
  User code and a layer keep an assertion \<open>J\<close> on the program's state, in the steps that the discipline allows. The
  executor itself changes the task system and the flag of the root future, which \<open>J\<close> must not depend on.
\<close>

definition frame_stable :: "('b executor_scheme \<Rightarrow> bool) \<Rightarrow> bool" where
  "frame_stable J \<longleftrightarrow> (\<forall>w s. J w \<longrightarrow> J (put_sys s w)) \<and>
     (\<forall>w b. J w \<longrightarrow> J (w\<lparr>ex_root := (ex_root w)\<lparr>rt_notified := b\<rparr>\<rparr>))"

definition client_keeps ::
  "env \<Rightarrow> nat \<Rightarrow> ('b executor_scheme \<Rightarrow> bool) \<Rightarrow> 'b executor_scheme user_code \<Rightarrow> 'b executor_scheme park_ops \<Rightarrow> bool"
where
  "client_keeps C th J U P \<longleftrightarrow>
     (\<forall>w r. reachable C th (ex_machine w) \<and> stack (ex_sys w) \<noteq> [] \<and> J w \<and> us_task U w = Some r \<longrightarrow>
        (\<exists>w'. r = Inr w' \<and> user_step C th w w' \<and> J w')) \<and>
     (\<forall>w r. idle C th w \<and> J w \<and> us_root U w = Some r \<longrightarrow> (\<exists>v w'. r = Inr (v, w') \<and> user_step C th w w' \<and> J w')) \<and>
     (\<forall>w m r. m \<in> {NoPark, NextCompletion} \<and> idle C th w \<and> J w \<and> pk_park P m w = Some r \<longrightarrow>
        (\<exists>w'. r = Inr (Inr (), w') \<and> user_step C th w w' \<and> J w'))"

definition client_ok ::
  "env \<Rightarrow> nat \<Rightarrow> 'b executor_scheme user_code \<Rightarrow> 'b executor_scheme park_ops \<Rightarrow> bool"
where
  "client_ok C th U P \<longleftrightarrow> client_keeps C th (\<lambda>_. True) U P"

lemma frame_stable_True: "frame_stable (\<lambda>_. True)"
  by (simp add: frame_stable_def)

lemma user_step_idle: "reachable C th (ex_machine w) \<Longrightarrow> user_step C th w w' \<Longrightarrow> idle C th w'"
  by (auto simp: user_step_def idle_def intro: exec_all_reachable)

lemma client_task:
  assumes "client_keeps C th J U P" and re: "reachable C th (ex_machine w)" and "J w" and "stack (ex_sys w) \<noteq> []" and "us_task U w = Some r"
  shows "\<exists>w'. r = Inr w' \<and> idle C th w' \<and> J w'"
proof -
  obtain w' where "r = Inr w'" "user_step C th w w'" "J w'" using assms unfolding client_keeps_def by blast
  then show ?thesis using user_step_idle [OF re] by blast
qed

lemma client_root:
  assumes "client_keeps C th J U P" and "idle C th w" and "J w" and "us_root U w = Some r"
  shows "\<exists>v w'. r = Inr (v, w') \<and> idle C th w' \<and> J w'"
proof -
  obtain v w' where "r = Inr (v, w')" "user_step C th w w'" "J w'" using assms unfolding client_keeps_def by blast
  then show ?thesis using user_step_idle assms(2) by (auto simp: idle_def)
qed

lemma client_park:
  assumes "client_keeps C th J U P" and "m \<in> {NoPark, NextCompletion}" and "idle C th w" and "J w" and "pk_park P m w = Some r"
  shows "\<exists>w'. r = Inr (Inr (), w') \<and> idle C th w' \<and> J w'"
proof -
  obtain w' where "r = Inr (Inr (), w')" "user_step C th w w'" "J w'" using assms unfolding client_keeps_def by blast
  then show ?thesis using user_step_idle assms(3) by (auto simp: idle_def)
qed

lemma idle_frame: "ex_machine w' = ex_machine w \<Longrightarrow> idle C th w' \<longleftrightarrow> idle C th w"
  by (simp add: idle_def ex_sys_def)

lemma put_sys_simps [simp]:
  "ex_sys (put_sys s w) = s" "ex_machine (put_sys s w) = (ex_machine w)\<lparr>mc_sys := s\<rparr>"
  "ex_root (put_sys s w) = ex_root w" "ex_ctx (put_sys s w) = ex_ctx w"
  by (simp_all add: put_sys_def ex_sys_def)

section \<open>The loop is safe\<close>

text \<open>A release never brings a reference count to its maximum.\<close>

lemma roomy_put: "roomy s \<Longrightarrow> ts_refcount (tk_state k) \<noteq> - 1 \<Longrightarrow> roomy (put_task t k s)"
  by (auto simp: roomy_def put_task_def dest!: set_update_subset_insert [THEN subsetD])

lemma roomy_free: "roomy s \<Longrightarrow> roomy (s\<lparr>heap := (heap s)[t := None]\<rparr>)"
  by (auto simp: roomy_def dest!: set_update_subset_insert [THEN subsetD])

lemma drop_ref_roomy: "drop_ref st = Inr (r, st') \<Longrightarrow> ts_refcount st' \<noteq> - 1"
  by (auto simp: drop_ref_def Let_def assert_that_def split: if_splits)

lemma update_drop_roomy: "roomy s \<Longrightarrow> update_state t drop_ref s = Inr (r, s') \<Longrightarrow> roomy s'"
proof -
  assume s: "roomy s" and u: "update_state t drop_ref s = Inr (r, s')"
  obtain k where k: "task_at t s = Inr k" using u by (auto simp: update_state_def)
  obtain q st where d: "drop_ref (tk_state k) = Inr (q, st)"
    using u k by (cases "drop_ref (tk_state k)") (auto simp: update_state_def state_update_def)
  then have "s' = put_task t (k\<lparr>tk_state := st\<rparr>) s" using u k by (simp add: update_state_def state_update_def)
  then show "roomy s'" using roomy_put [OF s] drop_ref_roomy [OF d] by simp
qed

lemma release_roomy: "roomy s \<Longrightarrow> release th t s = Inr s' \<Longrightarrow> roomy s'"
proof (induction th t s arbitrary: s' rule: release.induct)
  case (1 th t s)
  obtain r s1 where r: "update_state t drop_ref s = Inr (r, s1)" using 1(3) by (subst (asm) release.simps) auto
  have s1: "roomy s1" by (rule update_drop_roomy [OF 1(2) r])
  show ?case
  proof (cases r)
    case Keep_Task
    then show ?thesis using 1(3) r s1 by (subst (asm) release.simps) simp
  next
    case Drop_Task
    obtain w s2 where d: "dealloc t s1 = Inr (w, s2)" using 1(3) r Drop_Task by (subst (asm) release.simps) auto
    have s2: "roomy s2" using d s1 by (auto simp: dealloc_def intro: roomy_free)
    show ?thesis
    proof (cases "\<exists>u. w = Some (Task_Waker u)")
      case True
      then obtain u where u: "w = Some (Task_Waker u)" by blast
      then have "check_caller th u s2 = Inr ()" "release th u s2 = Inr s'"
        using 1(3) r d Drop_Task by (subst (asm) release.simps, auto)+
      then show ?thesis using 1(1) [OF r [THEN refl [THEN trans]]] s2 r d Drop_Task u by blast
    next
      case False
      then have "s' = s2" using 1(3) r d Drop_Task by (subst (asm) release.simps) (auto split: option.splits waker.splits)
      then show ?thesis using s2 by simp
    qed
  qed
qed

lemma task_poll_roomy:
  assumes "roomy s" and "task_poll C th t s = Inr s'" and "stack s' = []"
  shows "roomy s'"
proof -
  obtain r s1 where r: "update_state t prepare_poll s = Inr (r, s1)" using assms(2) by (auto simp: task_poll_def)
  have "r = Prepare_Complete" using assms(2,3) r by (cases r) (auto simp: task_poll_def push_frame_def)
  then have s1: "release th t s1 = Inr s'" using assms(2) r by (simp add: task_poll_def)
  obtain k where k: "task_at t s = Inr k" and s1k: "s1 = put_task t k s"
    using r \<open>r = Prepare_Complete\<close>
    by (auto simp: update_state_def state_update_def prepare_poll_def assert_that_def Let_def split: if_splits sum.splits)
  have "Some k \<in> set (heap s)" using k by (auto simp: task_at_def split: if_splits option.splits) (metis nth_mem)
  then have "ts_refcount (tk_state k) \<noteq> - 1" using assms(1) by (force simp: roomy_def)
  then have "roomy s1" using assms(1) s1k roomy_put by simp
  then show ?thesis using release_roomy s1 by blast
qed

lemma run_runnable_idle:
  assumes C: "linked_list C" and U: "client_keeps C th J U P" and S: "frame_stable J" and w: "idle C th w" and j: "J w" and q: "runq (ex_sys w) = t # ts"
    and r: "run_runnable C th U t (put_sys ((ex_sys w)\<lparr>runq := ts\<rparr>) w) = Some r"
  shows "\<exists>w'. r = Inr w' \<and> idle C th w' \<and> J w'"
proof -
  let ?m = "ex_machine w"
  have re: "reachable C th ?m" and st: "stack (mc_sys ?m) = []" and rm: "roomy (mc_sys ?m)"
    using w by (simp_all add: idle_def ex_sys_def)
  have inv: "minv th ?m" by (rule reachable_minv [OF C re])
  then have "\<not> tset_borrowed (mc_sys ?m)" using st by (auto simp: minv_def stack_ok_def)
  then have al: "allowed Run_Next ?m" using rm by simp
  obtain m' where m': "exec C th Run_Next ?m = Some (Inr m')" using step_safe [OF C inv al] by blast
  then obtain s where s: "task_poll C th t ((mc_sys ?m)\<lparr>runq := ts\<rparr>) = Inr s" "m' = ?m\<lparr>mc_sys := s\<rparr>"
    using q by (auto simp: ex_sys_def queue_next_def lift_sys_def)
  have re': "reachable C th (ex_machine (put_sys s w))" using reachable.step [OF re al m'] s(2) by simp
  have psp: "put_sys s (put_sys s' w) = put_sys s w" for s' by (simp add: put_sys_def)
  have j': "J (put_sys s w)" using S j by (simp add: frame_stable_def)
  show ?thesis
  proof (cases "stack s = []")
    case True
    then have "r = Inr (put_sys s w)" using r s(1) st by (simp add: run_runnable_def ex_sys_def psp)
    moreover have "roomy s"
      using task_poll_roomy [OF _ s(1) True] rm by (simp add: roomy_def)
    ultimately show ?thesis using re' j' True by (simp add: idle_def)
  next
    case False
    then have "us_task U (put_sys s w) = Some r" using r s(1) st by (simp add: run_runnable_def ex_sys_def psp)
    then show ?thesis using client_task [OF U re' j'] False by simp
  qed
qed

lemma run_tasks_idle:
  assumes "run_tasks C th U P w = Some r" and "linked_list C" and "client_keeps C th J U P" and S: "frame_stable J" and "idle C th w" and "J w"
  shows "\<exists>w'. r = Inr w' \<and> idle C th w' \<and> J w'"
proof -
  let ?Q = "\<lambda>((((C, th), U), P), w) r. linked_list C \<longrightarrow> client_keeps C th J U P \<longrightarrow> idle C th w \<longrightarrow> J w \<longrightarrow>
    (\<exists>w'. r = Inr w' \<and> idle C th w' \<and> J w')"
  have "?Q ((((C, th), U), P), w) r"
  proof (rule run_tasks.raw_induct [of ?Q C th U P w r, OF _ assms(1)])
    fix run C th U P w r
    assume IH: "\<And>C th U P w r. run C th U P w = Some r \<Longrightarrow> ?Q ((((C, th), U), P), w) r"
      and body: "(case queue_next (ex_sys w) of (None, s) \<Rightarrow> Some (Inr (put_sys s w))
       | (Some t, s) \<Rightarrow> run_then (run_runnable C th U t (put_sys s w)) (\<lambda>w.
           if pk_needs_park P w then Some (Inr w) else run C th U P w)) = Some r"
    have "\<exists>w'. r = Inr w' \<and> idle C th w' \<and> J w'"
      if C: "linked_list C" and U: "client_keeps C th J U P" and idle: "idle C th w" and j: "J w"
    proof (cases "runq (ex_sys w)")
      case Nil
      then have "r = Inr (put_sys (ex_sys w) w)" using body by (simp add: queue_next_def)
      moreover have "put_sys (ex_sys w) w = w" by (simp add: put_sys_def ex_sys_def)
      ultimately show ?thesis using idle j by simp
    next
      case (Cons t ts)
      let ?w = "put_sys ((ex_sys w)\<lparr>runq := ts\<rparr>) w"
      have e: "run_then (run_runnable C th U t ?w) (\<lambda>w. if pk_needs_park P w then Some (Inr w) else run C th U P w) = Some r"
        using body Cons by (simp add: queue_next_def)
      then obtain r1 where r1: "run_runnable C th U t ?w = Some r1" by (cases "run_runnable C th U t ?w") auto
      obtain w1 where w1: "r1 = Inr w1" "idle C th w1" "J w1" using run_runnable_idle [OF C U S idle j Cons r1] by blast
      show ?thesis
      proof (cases "pk_needs_park P w1")
        case True
        then have "r = Inr w1" using e r1 w1(1) by simp
        then show ?thesis using w1(2,3) by blast
      next
        case False
        then have "run C th U P w1 = Some r" using e r1 w1(1) by simp
        from IH [OF this] C U w1(2,3) show ?thesis by simp
      qed
    qed
    then show "?Q ((((C, th), U), P), w) r" by simp
  qed
  then show ?thesis using assms by simp
qed

lemma try_poll_idle:
  assumes "client_keeps C th J U P" and "frame_stable J" and "idle C th w" and "J w" and "try_poll U w = Some p"
  shows "\<exists>v w'. p = Inr (v, w') \<and> idle C th w' \<and> J w'"
proof (cases "is_notified w")
  case True
  let ?w = "w\<lparr>ex_root := (ex_root w)\<lparr>rt_notified := False\<rparr>\<rparr>"
  have "idle C th ?w" using assms(3) by (simp add: idle_def ex_sys_def)
  moreover have "J ?w" using assms(2,4) by (simp add: frame_stable_def)
  ultimately show ?thesis using client_root [OF assms(1)] assms(5) True by (simp add: try_poll_def)
next
  case False
  then show ?thesis using assms by (auto simp: try_poll_def)
qed

lemma executor_park_idle:
  assumes "client_keeps C th J U P" and "idle C th w" and "J w" and "executor_park P w = Some r"
  shows "\<exists>w'. r = Inr w' \<and> idle C th w' \<and> J w'"
proof -
  obtain q where q: "pk_park P (if is_notified w then NoPark else NextCompletion) w = Some q"
    using assms(4) by (cases "pk_park P (if is_notified w then NoPark else NextCompletion) w") (auto simp: executor_park_def)
  have m: "(if is_notified w then NoPark else NextCompletion) \<in> {NoPark, NextCompletion}" by simp
  obtain w' where "q = Inr (Inr (), w')" "idle C th w'" "J w'" using client_park [OF assms(1) m assms(2,3) q] by blast
  then show ?thesis using q assms(4) by (auto simp add: executor_park_def Let_def)
qed

lemma block_loop_idle:
  assumes "block_loop C th U P w = Some r" and "linked_list C" and "client_keeps C th J U P" and S: "frame_stable J" and "idle C th w" and "J w"
  shows "\<exists>v w'. r = Inr (v, w') \<and> idle C th w' \<and> J w'"
proof -
  let ?Q = "\<lambda>((((C, th), U), P), w) r. linked_list C \<longrightarrow> client_keeps C th J U P \<longrightarrow> idle C th w \<longrightarrow> J w \<longrightarrow>
    (\<exists>v w'. r = Inr (v, w') \<and> idle C th w' \<and> J w')"
  have "?Q ((((C, th), U), P), w) r"
  proof (rule block_loop.raw_induct [of ?Q C th U P w r, OF _ assms(1)])
    fix loop C th U P w r
    assume IH: "\<And>C th U P w r. loop C th U P w = Some r \<Longrightarrow> ?Q ((((C, th), U), P), w) r"
      and body: "run_then (try_poll U w) (\<lambda>(r, w). case r of
         Some v \<Rightarrow> Some (Inr (v, w))
       | None \<Rightarrow> run_then (run_tasks C th U P w) (\<lambda>w. run_then (executor_park P w) (\<lambda>w. loop C th U P w))) = Some r"
    have "\<exists>v w'. r = Inr (v, w') \<and> idle C th w' \<and> J w'"
      if C: "linked_list C" and U: "client_keeps C th J U P" and idle: "idle C th w" and j: "J w"
    proof -
      obtain p where p: "try_poll U w = Some p" using body by (cases "try_poll U w") auto
      obtain v w1 where v: "p = Inr (v, w1)" "idle C th w1" "J w1" using try_poll_idle [OF U S idle j p] by blast
      show ?thesis
      proof (cases v)
        case (Some x)
        then have "r = Inr (x, w1)" using body p v(1) by simp
        then show ?thesis using v(2,3) by blast
      next
        case None
        obtain q where q: "run_tasks C th U P w1 = Some q" using body p v(1) None by (cases "run_tasks C th U P w1") auto
        obtain w2 where w2: "q = Inr w2" "idle C th w2" "J w2" using run_tasks_idle [OF q C U S v(2,3)] by blast
        obtain q3 where q3: "executor_park P w2 = Some q3" using body p v(1) None q w2(1) by (cases "executor_park P w2") auto
        obtain w3 where w3: "q3 = Inr w3" "idle C th w3" "J w3" using executor_park_idle [OF U w2(2,3) q3] by blast
        have "loop C th U P w3 = Some r" using body p v(1) None q w2(1) q3 w3(1) by simp
        from IH [OF this] C U w3(2,3) show ?thesis by simp
      qed
    qed
    then show "?Q ((((C, th), U), P), w) r" by simp
  qed
  then show ?thesis using assms by simp
qed

section \<open>Concrete worlds\<close>

text \<open>
  A user whose tasks run a fixed list of commands, and whose root future is ready with 7; a layer that does
  not block; the executor with the tasks of some commands, on thread 1.
\<close>

definition script_task :: "command list \<Rightarrow> 'b executor_scheme \<Rightarrow> (fault + 'b executor_scheme) option" where
  "script_task cs w = (case exec_all (seq_env True) 1 cs (ex_machine w) of
     None \<Rightarrow> None
   | Some m \<Rightarrow> if stack (mc_sys m) = [] \<and> roomy (mc_sys m) then Some (Inr (w\<lparr>ex_machine := m\<rparr>)) else None)"

definition script_client :: "command list \<Rightarrow> executor user_code" where
  "script_client cs = \<lparr> us_root = (\<lambda>w. Some (Inr (Some 7, w))), us_task = script_task cs \<rparr>"

definition idle_layer :: "bool \<Rightarrow> executor park_ops" where
  "idle_layer needs = \<lparr> pk_park = (\<lambda>m w. Some (Inr (Inr (), w))), pk_enter = Inr, pk_leave = Inr,
     pk_needs_park = (\<lambda>_. needs), pk_shutdown = (\<lambda>w. Some (Inr w)) \<rparr>"

definition world_of :: "command list \<Rightarrow> executor" where
  "world_of cs = \<lparr> ex_machine = (case exec_all (seq_env True) 1 cs (machine_new (seq_env True)) of
     None \<Rightarrow> machine_new (seq_env True) | Some m \<Rightarrow> m), ex_root = harness_new, ex_ctx = None \<rparr>"

lemma world_reachable: "reachable (seq_env True) 1 (ex_machine (world_of cs))"
  using exec_all_reachable [OF reachable.init, of "seq_env True" 1 cs]
  by (auto simp: world_of_def reachable.init split: option.splits)

lemma user_step_refl: "idle C th w \<Longrightarrow> user_step C th w w"
  unfolding user_step_def idle_def by (metis exec_all.simps(1))

lemma script_client_ok: "client_ok (seq_env True) 1 (script_client cs) (idle_layer needs)"
  unfolding client_ok_def client_keeps_def
proof (intro conjI allI impI)
  fix w r
  assume "reachable (seq_env True) 1 (ex_machine w) \<and> stack (ex_sys w) \<noteq> [] \<and> True \<and> us_task (script_client cs) w = Some r"
  then obtain m where m: "exec_all (seq_env True) 1 cs (ex_machine w) = Some m" "stack (mc_sys m) = []" "roomy (mc_sys m)"
    "r = Inr (w\<lparr>ex_machine := m\<rparr>)"
    by (auto simp: script_client_def script_task_def split: option.splits if_splits)
  then have "user_step (seq_env True) 1 w (w\<lparr>ex_machine := m\<rparr>)" by (auto simp: user_step_def ex_sys_def)
  then show "\<exists>w'. r = Inr w' \<and> user_step (seq_env True) 1 w w' \<and> True" using m(4) by blast
qed (auto simp: script_client_def idle_layer_def intro: user_step_refl)

section \<open>Properties\<close>

text \<open>
  While the user code keeps to the discipline of the task system, \<open>block_on\<close> never faults, whatever its
  tasks do and however often it parks: each of its turns ends between calls of user code in a
  reachable state, or in user code that does not return.
\<close>

theorem block_on_safe:
  assumes "linked_list C" and "client_ok C th U P" and "idle C th w"
  shows "case block_loop C th U P w of None \<Rightarrow> True | Some (Inl f) \<Rightarrow> False | Some (Inr (v, w')) \<Rightarrow> idle C th w'"
proof (cases "block_loop C th U P w")
  case (Some r)
  from block_loop_idle [OF this assms(1) assms(2) [unfolded client_ok_def] frame_stable_True assms(3)] show ?thesis
    using Some by auto
qed simp

theorem block_on_safe_witness:
  "case block_loop (seq_env True) 1 (script_client [Poll_End (Out_Ready 0), Drop_End]) (idle_layer False) (world_of [Spawn, Spawn]) of
     None \<Rightarrow> False | Some (Inl f) \<Rightarrow> False | Some (Inr (v, w')) \<Rightarrow> idle (seq_env True) 1 w'"
proof -
  let ?w = "world_of [Spawn, Spawn]" and ?U = "script_client [Poll_End (Out_Ready 0), Drop_End]"
  have "stack (ex_sys ?w) = []" "roomy (ex_sys ?w)" by code_simp+
  then have i: "idle (seq_env True) 1 ?w" using world_reachable by (simp add: idle_def)
  have "block_loop (seq_env True) 1 ?U (idle_layer False) ?w \<noteq> None"
    by (subst block_loop.simps) (simp add: try_poll_def is_notified_def world_of_def harness_new_def script_client_def)
  then show ?thesis using block_on_safe [OF linked_list_seq_env script_client_ok i, of "[Poll_End (Out_Ready 0), Drop_End]" False]
    by (auto split: option.splits)
qed

text \<open>
  A task that wakes itself whenever it is polled starves everything else: \<open>block_on\<close> never polls its root
  future again, although that is notified, and never parks, unless the layer below asks for it.
\<close>

definition yield_machine :: machine where
  "yield_machine = ex_machine (world_of [Spawn])"

definition yield_task :: "executor \<Rightarrow> (fault + executor) option" where
  "yield_task = script_task [Wake_By_Ref 0, Poll_End Out_Pending]"

lemma yield_round:
  assumes "ex_machine w = yield_machine" and "us_task U = yield_task"
  shows "\<exists>s w'. queue_next (ex_sys w) = (Some 0, s) \<and> run_runnable (seq_env True) 1 U 0 (put_sys s w) = Some (Inr w') \<and>
    ex_machine w' = yield_machine"
proof -
  let ?s = "(mc_sys yield_machine)\<lparr>runq := []\<rparr>"
  have q: "queue_next (mc_sys yield_machine) = (Some 0, ?s)" by code_simp
  obtain s2 where s2: "task_poll (seq_env True) 1 0 ?s = Inr s2" "stack s2 \<noteq> []" "stack ?s = []"
    "exec_all (seq_env True) 1 [Wake_By_Ref 0, Poll_End Out_Pending] (yield_machine\<lparr>mc_sys := s2\<rparr>) = Some yield_machine"
  proof
    let ?s2 = "projr (task_poll (seq_env True) 1 0 ?s)"
    show "task_poll (seq_env True) 1 0 ?s = Inr ?s2" by code_simp
    show "stack ?s2 \<noteq> []" by code_simp
    show "stack ?s = []" by code_simp
    show "exec_all (seq_env True) 1 [Wake_By_Ref 0, Poll_End Out_Pending] (yield_machine\<lparr>mc_sys := ?s2\<rparr>) = Some yield_machine"
      by code_simp
  qed
  have "stack (mc_sys yield_machine) = []" "roomy (mc_sys yield_machine)" by code_simp+
  then have "run_runnable (seq_env True) 1 U 0 (put_sys ?s w) = Some (Inr (w\<lparr>ex_machine := yield_machine\<rparr>))"
    using s2 assms by (simp add: run_runnable_def yield_task_def script_task_def put_sys_def ex_sys_def)
  then show ?thesis using q assms(1) by (intro exI [of _ ?s] exI [of _ "w\<lparr>ex_machine := yield_machine\<rparr>"]) (simp add: ex_sys_def)
qed

lemma yield_diverges:
  assumes U: "us_task U = yield_task" and P: "\<And>w. \<not> pk_needs_park P w" and w: "ex_machine w = yield_machine"
  shows "run_tasks (seq_env True) 1 U P w = None"
proof (rule ccontr)
  assume "run_tasks (seq_env True) 1 U P w \<noteq> None"
  then obtain r where r: "run_tasks (seq_env True) 1 U P w = Some r" by blast
  let ?Q = "\<lambda>((((C, th :: nat), U), P), w) (r :: fault + executor). C = seq_env True \<and> th = 1 \<and> us_task U = yield_task \<and> (\<forall>w. \<not> pk_needs_park P w) \<longrightarrow>
    ex_machine w \<noteq> yield_machine"
  have "?Q ((((seq_env True, 1), U), P), w) r"
  proof (rule run_tasks.raw_induct [of ?Q "seq_env True" 1 U P w r, OF _ r])
    fix run C th U P w r
    assume IH: "\<And>C th U P w r. run C th U P w = Some r \<Longrightarrow> ?Q ((((C, th), U), P), w) r"
      and body: "(case queue_next (ex_sys w) of (None, s) \<Rightarrow> Some (Inr (put_sys s w))
       | (Some t, s) \<Rightarrow> run_then (run_runnable C th U t (put_sys s w)) (\<lambda>w.
           if pk_needs_park P w then Some (Inr w) else run C th U P w)) = Some r"
    have False if e: "C = seq_env True" "th = 1" "us_task U = yield_task" "\<forall>w. \<not> pk_needs_park P w" "ex_machine w = yield_machine"
    proof -
      obtain s w' where s: "queue_next (ex_sys w) = (Some 0, s)" "run_runnable C th U 0 (put_sys s w) = Some (Inr w')"
        "ex_machine w' = yield_machine"
        using yield_round [OF e(5,3)] e(1,2) by blast
      have "run C th U P w' = Some r" using body s(1,2) e(4) by simp
      from IH [OF this] e s(3) show False by simp
    qed
    then show "?Q ((((C, th), U), P), w) r" by auto
  qed
  then show False using U P w by simp
qed

theorem yielding_task_starves:
  assumes "us_task U = yield_task" and "\<And>w. \<not> pk_needs_park P w"
    and "try_poll U w = Some (Inr (None, w'))" and "ex_machine w' = yield_machine"
  shows "block_loop (seq_env True) 1 U P w = None"
  by (subst block_loop.simps) (simp add: assms(3) yield_diverges [OF assms(1,2,4)] del: One_nat_def)

theorem yielding_task_starves_witness:
  "block_loop (seq_env True) 1 \<lparr> us_root = (\<lambda>w. Some (Inr (None, w\<lparr>ex_root := harness_new\<rparr>))), us_task = yield_task \<rparr>
     (idle_layer False) (world_of [Spawn]) = None"
proof (rule yielding_task_starves)
  show "try_poll \<lparr> us_root = (\<lambda>w. Some (Inr (None, w\<lparr>ex_root := harness_new\<rparr>))), us_task = yield_task \<rparr> (world_of [Spawn]) =
      Some (Inr (None, world_of [Spawn]))"
    by (simp add: try_poll_def is_notified_def world_of_def harness_new_def)
qed (simp_all add: idle_layer_def yield_machine_def)

text \<open>
  The executor parks until the next completion although it still has tasks to run: if the layer below
  asks for a park after a task, the loop over the tasks ends early, and the mode of the park only depends
  on the root future.
\<close>

theorem parks_with_runnables:
  assumes "try_poll U w = Some (Inr (None, w1))" and "queue_next (ex_sys w1) = (Some t, s)"
    and "run_runnable C th U t (put_sys s w1) = Some (Inr w2)" and "pk_needs_park P w2"
    and "\<not> is_notified w2" and "runq (ex_sys w2) = u # us"
  shows "block_loop C th U P w =
    run_then (run_then (pk_park P NextCompletion w2) (\<lambda>(r, w). case r of Inl _ \<Rightarrow> Some (Inl Panic) | Inr _ \<Rightarrow> Some (Inr w)))
      (block_loop C th U P)"
proof -
  have "run_tasks C th U P w1 = Some (Inr w2)" using assms(2-4) by (subst run_tasks.simps) simp
  then show ?thesis using assms(1,5) by (subst block_loop.simps) (simp add: executor_park_def)
qed

theorem parks_with_runnables_witness:
  "let U = \<lparr> us_root = (\<lambda>w. Some (Inr (None, w))), us_task = script_task [Poll_End Out_Pending] \<rparr>;
       w2 = (world_of [Spawn, Spawn, Run_Next, Poll_End Out_Pending])\<lparr>ex_root := \<lparr> rt_notified = False, rt_refs = 2 \<rparr>\<rparr> in
   runq (ex_sys w2) = [1] \<and>
   block_loop (seq_env True) 1 U (idle_layer True) (world_of [Spawn, Spawn]) =
     run_then (run_then (pk_park (idle_layer True) NextCompletion w2) (\<lambda>(r, w). case r of Inl _ \<Rightarrow> Some (Inl Panic) | Inr _ \<Rightarrow> Some (Inr w)))
       (block_loop (seq_env True) 1 U (idle_layer True))"
proof -
  let ?U = "\<lparr> us_root = (\<lambda>w. Some (Inr (None, w))), us_task = script_task [Poll_End Out_Pending] \<rparr>"
  let ?w = "world_of [Spawn, Spawn]" and ?r = "\<lparr> rt_notified = False, rt_refs = 2 \<rparr>"
  let ?w2 = "(world_of [Spawn, Spawn, Run_Next, Poll_End Out_Pending])\<lparr>ex_root := ?r\<rparr>"
  let ?s = "(ex_sys (?w\<lparr>ex_root := ?r\<rparr>))\<lparr>runq := [1]\<rparr>"
  have p: "try_poll ?U ?w = Some (Inr (None, ?w\<lparr>ex_root := ?r\<rparr>))"
    by (simp add: try_poll_def is_notified_def world_of_def harness_new_def)
  have q: "queue_next (ex_sys (?w\<lparr>ex_root := ?r\<rparr>)) = (Some 0, ?s)" by code_simp
  have "run_runnable (seq_env True) 1 ?U 0 (put_sys ?s (?w\<lparr>ex_root := ?r\<rparr>)) = Some (Inr ?w2)" by code_simp
  moreover have "runq (ex_sys ?w2) = [1]" by code_simp
  ultimately show ?thesis
    using parks_with_runnables [OF p q, of "seq_env True" 1 ?w2 "idle_layer True" 1 "[]"]
    by (simp add: Let_def idle_layer_def is_notified_def)
qed

lemma drop_ends_shut_down:
  assumes "linked_list C" and "minv th m" and "stack (mc_sys m) = [Shutting t]"
    and "drop_ends C th n m = Some m'" and "stack (mc_sys m') = []"
  shows "shut_down (mc_sys m')"
  using assms(2-5)
proof (induction n arbitrary: m t)
  case (Suc n)
  have si: "sinv th (mc_held m) (mc_joins m) (mc_sys m)" and so: "stack_ok (mc_sys m)"
    using Suc.prems(1) by (simp_all add: minv_def)
  from shutting_end [OF assms(1) si so Suc.prems(2)] obtain s' where s': "drop_end C th (Shutting t) ((mc_sys m)\<lparr>stack := []\<rparr>) = Some (Inr s')"
    "sinv th (mc_held m) (mc_joins m) s'" "stack_ok s'" "(\<exists>u. stack s' = [Shutting u]) \<or> shut_down s'" by blast
  let ?m = "m\<lparr>mc_sys := s'\<rparr>"
  have e: "exec C th Drop_End m = Some (Inr ?m)" using Suc.prems(2) s'(1) by (simp add: lift_sys_def)
  have rest: "drop_ends C th n ?m = Some m'" using Suc.prems(3) e by simp
  have inv: "minv th ?m" using s'(2,3) by (simp add: minv_def)
  show ?case
  proof (cases "shut_down s'")
    case True
    then have "stack (mc_sys ?m) = []" by (simp add: shut_down_def)
    then have "n = 0" using rest by (cases n) auto
    then have "m' = ?m" using rest by simp
    then show ?thesis using True by simp
  next
    case False
    then show ?thesis using Suc.IH [OF inv] s'(4) rest Suc.prems(4) by auto
  qed
qed simp

text \<open>Running the destructors a shutdown calls to the end.\<close>

fun finish_drops :: "env \<Rightarrow> nat \<Rightarrow> nat \<Rightarrow> machine \<Rightarrow> machine option" where
  "finish_drops C th k m = (if stack (mc_sys m) = [] then Some m else case k of
     0 \<Rightarrow> None
   | Suc k \<Rightarrow> (case exec C th Drop_End m of Some (Inr m') \<Rightarrow> finish_drops C th k m' | _ \<Rightarrow> None))"

declare finish_drops.simps [simp del]

lemma finish_drops_ends:
  "drop_ends C th n m = Some m' \<Longrightarrow> stack (mc_sys m') = [] \<Longrightarrow> n \<le> k \<Longrightarrow>
    \<exists>i m''. finish_drops C th k m = Some m'' \<and> drop_ends C th i m = Some m'' \<and> stack (mc_sys m'') = []"
proof (induction n arbitrary: m k)
  case 0
  then show ?case by (intro exI [of _ 0] exI [of _ m]) (simp add: finish_drops.simps)
next
  case (Suc n)
  show ?case
  proof (cases "stack (mc_sys m) = []")
    case True
    then show ?thesis by (intro exI [of _ 0] exI [of _ m]) (simp add: finish_drops.simps)
  next
    case False
    obtain m1 where m1: "exec C th Drop_End m = Some (Inr m1)" "drop_ends C th n m1 = Some m'"
      using Suc.prems(1) by (auto simp del: exec.simps split: option.splits sum.splits)
    obtain k' where k': "k = Suc k'" "n \<le> k'" using Suc.prems(3) by (cases k) auto
    obtain i m'' where i: "finish_drops C th k' m1 = Some m''" "drop_ends C th i m1 = Some m''" "stack (mc_sys m'') = []"
      using Suc.IH [OF m1(2) Suc.prems(2) k'(2)] by blast
    have "finish_drops C th k m = Some m''" using False k'(1) m1(1) i(1) by (subst finish_drops.simps) (simp del: exec.simps)
    moreover have "drop_ends C th (Suc i) m = Some m''" using m1(1) i(2) by (simp del: exec.simps)
    ultimately show ?thesis using i(3) by blast
  qed
qed


definition drop_client :: "executor user_code" where
  "drop_client = \<lparr> us_root = (\<lambda>w. Some (Inr (Some 7, w))),
     us_task = (\<lambda>v. map_option (\<lambda>m. Inr (v\<lparr>ex_machine := m\<rparr>))
       (finish_drops (seq_env True) 1 (Suc (length (tset (ex_sys v)))) (ex_machine v))) \<rparr>"


end
