(* ===== verification/PollSet.thy ===== *)
theory PollSet
  imports Task_System Prelude
begin

text \<open>
  The queues of runnable tasks behind the trait \<open>Schedule\<close>: the interface both schedulers of the
  repository provide, the task queue of the executor (\<open>norn-task/src/taskqueue.rs\<close>) and the set of futures
  \<open>PollSet\<close> (\<open>norn-util/src/pollset.rs\<close>), which is itself a future: it keeps the waker of the task that
  polled it and wakes it when one of its tasks is scheduled. A runnable is the address of its task, a waker is
  a number, and the wakers that were called are logged.
\<close>

section \<open>The interface\<close>

locale run_queue =
  fixes sched :: "nat \<Rightarrow> 's \<Rightarrow> 's" and take_next :: "'s \<Rightarrow> nat option \<times> 's" and queue :: "'s \<Rightarrow> nat list"
  assumes sched_law: "queue (sched t s) = queue s @ [t]"
    and take_empty: "queue s = [] \<Longrightarrow> take_next s = (None, s)"
    and take_first: "queue s = t # ts \<Longrightarrow> \<exists>s'. take_next s = (Some t, s') \<and> queue s' = ts"

fun take_many :: "('s \<Rightarrow> nat option \<times> 's) \<Rightarrow> nat \<Rightarrow> 's \<Rightarrow> nat list" where
  "take_many nx 0 s = []"
| "take_many nx (Suc n) s = (case nx s of (None, s) \<Rightarrow> [] | (Some t, s) \<Rightarrow> t # take_many nx n s)"

context run_queue
begin

lemma sched_all: "queue (fold sched ts s) = queue s @ ts"
  by (induction ts arbitrary: s) (simp_all add: sched_law)

lemma take_in_order: "take_many take_next n s = take n (queue s)"
proof (induction n arbitrary: s)
  case (Suc n)
  show ?case
  proof (cases "queue s")
    case Nil
    then show ?thesis using take_empty by simp
  next
    case (Cons t ts)
    then obtain s' where "take_next s = (Some t, s')" "queue s' = ts" using take_first by blast
    then show ?thesis using Suc.IH [of s'] Cons by simp
  qed
qed simp

text \<open>What is scheduled comes out in order, after what was there.\<close>

lemma fifo: "take_many take_next n (fold sched ts s) = take n (queue s @ ts)"
  by (simp add: take_in_order sched_all)

end

interpretation task_queue: run_queue schedule queue_next runq
  by unfold_locales (auto simp: schedule_def queue_next_def)

section \<open>PollSet\<close>

record pollset =
  ps_runq :: "nat list"
  ps_waker :: "nat option"
  ps_woken :: "nat list"

definition pollset_new :: pollset where
  "pollset_new = \<lparr> ps_runq = [], ps_waker = None, ps_woken = [] \<rparr>"

text \<open>\<open>Schedule::schedule\<close>: the waker is taken, so it is called once.\<close>

definition pollset_schedule :: "nat \<Rightarrow> pollset \<Rightarrow> pollset" where
  "pollset_schedule t s =
     (let s = s\<lparr>ps_runq := ps_runq s @ [t]\<rparr> in
      case ps_waker s of
        None \<Rightarrow> s
      | Some w \<Rightarrow> s\<lparr>ps_waker := None, ps_woken := ps_woken s @ [w]\<rparr>)"

definition pollset_next :: "pollset \<Rightarrow> nat option \<times> pollset" where
  "pollset_next s = (case ps_runq s of [] \<Rightarrow> (None, s) | t # ts \<Rightarrow> (Some t, s\<lparr>ps_runq := ts\<rparr>))"

text \<open>\<open>spawn\<close>, with what \<open>TaskSet::bind\<close> returned: the task, and whether there is a runnable of it.\<close>

definition pollset_spawn :: "nat \<Rightarrow> bool \<Rightarrow> pollset \<Rightarrow> pollset" where
  "pollset_spawn t runnable s = (if runnable then s\<lparr>ps_runq := ps_runq s @ [t]\<rparr> else s)"

definition pollset_clear :: "pollset \<Rightarrow> pollset" where
  "pollset_clear s = s\<lparr>ps_runq := []\<rparr>"

text \<open>\<open>poll_tasks\<close>, where \<open>run\<close> is \<open>Runnable::run\<close>, which may schedule tasks of this set.\<close>

partial_function (option) poll_tasks ::
  "(nat \<Rightarrow> pollset \<Rightarrow> (fault + pollset) option) \<Rightarrow> nat \<Rightarrow> pollset \<Rightarrow> (fault + (unit poll \<times> pollset)) option"
where
  "poll_tasks run w s = (case pollset_next s of
     (Some t, s) \<Rightarrow> run_then (run t s) (\<lambda>s. poll_tasks run w s)
   | (None, s) \<Rightarrow> Some (Inr (Pending, s\<lparr>ps_waker := Some w\<rparr>)))"

declare poll_tasks.simps [code]

interpretation poll_set: run_queue pollset_schedule pollset_next ps_runq
  by unfold_locales (auto simp: pollset_schedule_def pollset_next_def Let_def split: option.splits)

text \<open>A poll that returns has run every task that was scheduled and registered its waker.\<close>

lemma poll_tasks_end:
  assumes "poll_tasks run w s = Some (Inr (r, s'))"
  shows "r = Pending \<and> ps_runq s' = [] \<and> ps_waker s' = Some w"
proof -
  let ?Q = "\<lambda>(run :: nat \<Rightarrow> pollset \<Rightarrow> (fault + pollset) option) (w :: nat) (s :: pollset) (r :: fault + (unit poll \<times> pollset)). \<forall>p s'. r = Inr (p, s') \<longrightarrow> p = Pending \<and> ps_runq s' = [] \<and> ps_waker s' = Some w"
  have "?Q run w s (Inr (r, s'))"
  proof (rule poll_tasks.raw_induct [of ?Q run w s "Inr (r, s')", OF _ assms])
    fix loop :: "(nat \<Rightarrow> pollset \<Rightarrow> (fault + pollset) option) \<Rightarrow> nat \<Rightarrow> pollset \<Rightarrow> (fault + (unit poll \<times> pollset)) option"
      and run w s r
    assume IH: "\<And>run w s r. loop run w s = Some r \<Longrightarrow> ?Q run w s r"
      and body: "(case pollset_next s of
         (None, s) \<Rightarrow> Some (Inr (Pending, s\<lparr>ps_waker := Some w\<rparr>))
       | (Some t, s) \<Rightarrow> run_then (run t s) (\<lambda>s. loop run w s)) = Some r"
    show "?Q run w s r"
    proof (cases "ps_runq s")
      case Nil
      then show ?thesis using body by (auto simp: pollset_next_def)
    next
      case (Cons t ts)
      then have e: "run_then (run t (s\<lparr>ps_runq := ts\<rparr>)) (\<lambda>s. loop run w s) = Some r" using body by (simp add: pollset_next_def)
      show ?thesis
      proof (cases "run t (s\<lparr>ps_runq := ts\<rparr>)")
        case None
        then show ?thesis using e by simp
      next
        case (Some q)
        then show ?thesis using e IH [of run w _ r] by (cases q) auto
      qed
    qed
  qed
  then show ?thesis by simp
qed

lemma schedule_asleep: "ps_waker s = None \<Longrightarrow> pollset_schedule t s = s\<lparr>ps_runq := ps_runq s @ [t]\<rparr>"
  by (simp add: pollset_schedule_def Let_def)

lemma schedule_waking:
  "ps_waker s = Some w \<Longrightarrow>
   pollset_schedule t s = s\<lparr>ps_runq := ps_runq s @ [t], ps_waker := None, ps_woken := ps_woken s @ [w]\<rparr>"
  by (simp add: pollset_schedule_def Let_def)

lemma schedule_more:
  "ps_waker s = None \<Longrightarrow>
   ps_waker (fold pollset_schedule ts s) = None \<and> ps_woken (fold pollset_schedule ts s) = ps_woken s"
  by (induction ts arbitrary: s) (simp_all add: schedule_asleep)

lemma schedule_many:
  "ps_waker s = Some w \<Longrightarrow> ts \<noteq> [] \<Longrightarrow> ps_woken (fold pollset_schedule ts s) = ps_woken s @ [w]"
  by (cases ts) (simp_all add: schedule_waking schedule_more)



end
