(* ===== verification/Fd.thy ===== *)
theory Fd
  imports Ring_Driver
begin

text \<open>
  The reference-counted file descriptor of \<open>norn-uring/src/fd.rs\<close>: its clones, the asynchronous \<open>close\<close>, which waits
  until its caller holds the last one, and the drop of the last clone, which closes the descriptor if
  nobody has. The close requests that go to the driver are logged, in order.
\<close>

section \<open>The descriptor\<close>

record norn_fd =
  nf_kind :: fd_kind
  nf_strong :: nat
  nf_closed :: bool
  nf_notify :: notifier
  nf_requests :: "fd_kind list"

definition fd_new :: "env \<Rightarrow> fd_kind \<Rightarrow> norn_fd" where
  "fd_new C k = \<lparr> nf_kind = k, nf_strong = 1, nf_closed = False, nf_notify = notifier_new C, nf_requests = [] \<rparr>"

definition fd_from_raw :: "env \<Rightarrow> i32 \<Rightarrow> norn_fd" where
  "fd_from_raw C n = fd_new C (Fd_Regular n)"

definition fd_from_fixed :: "env \<Rightarrow> u32 \<Rightarrow> norn_fd" where
  "fd_from_fixed C n = fd_new C (Fd_Fixed n)"

definition fd_clone :: "norn_fd \<Rightarrow> norn_fd" where
  "fd_clone s = s\<lparr>nf_strong := nf_strong s + 1\<rparr>"

text \<open>The drop of \<open>Inner\<close>, which asks the driver to close the descriptor and ignores an error.\<close>

definition fd_inner_drop :: "norn_fd \<Rightarrow> norn_fd" where
  "fd_inner_drop s = (if nf_closed s then s else s\<lparr>nf_requests := nf_requests s @ [nf_kind s]\<rparr>)"

text \<open>The drop of a clone notifies everyone who waits to close, then gives its reference up.\<close>

definition fd_drop :: "env \<Rightarrow> norn_fd \<Rightarrow> (fault + norn_fd) option" where
  "fd_drop C s =
     run_then (notify_n C (- 1) (nf_notify s)) (\<lambda>(_, n).
       let s = s\<lparr>nf_notify := n, nf_strong := nf_strong s - 1\<rparr> in
       Some (Inr (if nf_strong s = 0 then fd_inner_drop s else s)))"

section \<open>Closing\<close>

text \<open>
  The future of \<open>close\<close>: at the head of its loop, awaiting the close request, awaiting the notification, or
  done. A poll gets the result of the request, if it has arrived.
\<close>

datatype close_phase = Close_Loop | Close_Submitting | Close_Waiting | Close_Done "io_error + unit"

text \<open>\<open>CloseFd\<close>: the entry, and the result of the operation.\<close>

definition close_fd_configure :: "fd_kind \<Rightarrow> sqe" where
  "close_fd_configure k = sqe_build (Sqe_Close k)"

definition close_fd_complete :: "cqe_result \<Rightarrow> io_error + unit" where
  "close_fd_complete r = (case cr_result r of Inl e \<Rightarrow> Inl (Os_Error e) | Inr _ \<Rightarrow> Inr ())"

partial_function (option) close_poll ::
  "env \<Rightarrow> nat \<Rightarrow> nat \<Rightarrow> cqe_result option \<Rightarrow> close_phase \<Rightarrow> norn_fd \<Rightarrow> (fault + (close_phase \<times> norn_fd)) option"
where
  "close_poll C a w res p s = (case p of
     Close_Loop \<Rightarrow>
       if nf_closed s then Some (Inr (Close_Done (Inr ()), s))
       else if nf_strong s = 1
       then Some (Inr (Close_Submitting, s\<lparr>nf_requests := nf_requests s @ [nf_kind s]\<rparr>))
       else close_poll C a w res Close_Waiting (s\<lparr>nf_notify := notify_wait a (nf_notify s)\<rparr>)
   | Close_Submitting \<Rightarrow> (case res of
         None \<Rightarrow> Some (Inr (Close_Submitting, s))
       | Some r \<Rightarrow> (case close_fd_complete r of
             Inl e \<Rightarrow> Some (Inr (Close_Done (Inl e), s))
           | Inr _ \<Rightarrow> close_poll C a w None Close_Loop (s\<lparr>nf_closed := True\<rparr>)))
   | Close_Waiting \<Rightarrow>
       run_then (Some (notified_poll C a w (nf_notify s))) (\<lambda>(r, n).
         if r = Pending then Some (Inr (Close_Waiting, s\<lparr>nf_notify := n\<rparr>))
         else run_then (notified_drop C a n) (\<lambda>n. close_poll C a w res Close_Loop (s\<lparr>nf_notify := n\<rparr>)))
   | Close_Done _ \<Rightarrow> Some (Inl Panic))"

declare close_poll.simps [code]

section \<open>The life of a descriptor\<close>

text \<open>
  One of the holders may close the descriptor: its clone is then owned by the future of \<open>close\<close>, whose \<open>Notified\<close>
  is at address 0. The others clone and drop theirs.
\<close>

record fd_life =
  fl_fd :: norn_fd
  fl_close :: "close_phase option"

datatype fd_cmd = Fd_Clone | Fd_Drop | Close_Start | Close_Poll nat "cqe_result option" | Close_Drop

definition fd_others :: "fd_life \<Rightarrow> nat" where
  "fd_others m = nf_strong (fl_fd m) - (if fl_close m = None then 0 else 1)"

fun fd_exec :: "env \<Rightarrow> fd_cmd \<Rightarrow> fd_life \<Rightarrow> (fault + fd_life) option" where
  "fd_exec C Fd_Clone m = Some (Inr (m\<lparr>fl_fd := fd_clone (fl_fd m)\<rparr>))"
| "fd_exec C Fd_Drop m = run_then (fd_drop C (fl_fd m)) (\<lambda>s. Some (Inr (m\<lparr>fl_fd := s\<rparr>)))"
| "fd_exec C Close_Start m = Some (Inr (m\<lparr>fl_close := Some Close_Loop\<rparr>))"
| "fd_exec C (Close_Poll w res) m = (case fl_close m of
     None \<Rightarrow> Some (Inl Dangling)
   | Some p \<Rightarrow> run_then (close_poll C 0 w res p (fl_fd m)) (\<lambda>(p, s). Some (Inr (m\<lparr>fl_fd := s, fl_close := Some p\<rparr>))))"
| "fd_exec C Close_Drop m =
     run_then (if fl_close m = Some Close_Waiting then notified_drop C 0 (nf_notify (fl_fd m)) else Some (Inr (nf_notify (fl_fd m)))) (\<lambda>n.
     run_then (fd_drop C ((fl_fd m)\<lparr>nf_notify := n\<rparr>)) (\<lambda>s. Some (Inr (m\<lparr>fl_fd := s, fl_close := None\<rparr>))))"

text \<open>
  \<open>fails\<close> says whether a close request may fail. Only a holder clones, drops or starts to close; the result of the
  request arrives after it was made; the future is not dropped while the kernel holds the request.
\<close>

fun fd_allowed :: "bool \<Rightarrow> fd_cmd \<Rightarrow> fd_life \<Rightarrow> bool" where
  "fd_allowed fails Fd_Clone m = (0 < fd_others m)"
| "fd_allowed fails Fd_Drop m = (0 < fd_others m)"
| "fd_allowed fails Close_Start m = (0 < fd_others m \<and> fl_close m = None)"
| "fd_allowed fails (Close_Poll w res) m = (case fl_close m of
     None \<Rightarrow> False
   | Some p \<Rightarrow> (case p of Close_Done _ \<Rightarrow> False | Close_Submitting \<Rightarrow> True | _ \<Rightarrow> res = None) \<and>
       (case res of None \<Rightarrow> True | Some r \<Rightarrow> fails \<or> (case cr_result r of Inl _ \<Rightarrow> False | Inr _ \<Rightarrow> True)))"
| "fd_allowed fails Close_Drop m = (case fl_close m of None \<Rightarrow> False | Some p \<Rightarrow> p \<noteq> Close_Submitting)"

inductive fd_reach :: "env \<Rightarrow> bool \<Rightarrow> fd_kind \<Rightarrow> fd_life \<Rightarrow> bool" for C fails k where
  fd_init: "fd_reach C fails k \<lparr> fl_fd = fd_new C k, fl_close = None \<rparr>"
| fd_step: "fd_reach C fails k m \<Longrightarrow> fd_allowed fails c m \<Longrightarrow> fd_exec C c m = Some (Inr m') \<Longrightarrow> fd_reach C fails k m'"

inductive_cases fd_reachE: "fd_reach C fails k m"

text \<open>
  The invariant without failures: the descriptor has been asked to close exactly once if the closing future has
  made its request or the last clone is gone, and not at all otherwise; only the closing future waits.
\<close>

definition fd_asked :: "fd_life \<Rightarrow> bool" where
  "fd_asked m \<longleftrightarrow> nf_closed (fl_fd m) \<or> fl_close m = Some Close_Submitting \<or> nf_strong (fl_fd m) = 0"

definition fd_waiter :: "fd_life \<Rightarrow> bool" where
  "fd_waiter m \<longleftrightarrow> (if fl_close m = Some Close_Waiting
     then \<exists>e. nt_entries (nf_notify (fl_fd m)) = [0 \<mapsto> e] \<and> ne_state e \<in> {Waiter_Linked, Waiter_Fired}
     else nt_entries (nf_notify (fl_fd m)) = (\<lambda>_. None))"

definition fd_inv :: "fd_kind \<Rightarrow> fd_life \<Rightarrow> bool" where
  "fd_inv k m \<longleftrightarrow> notify_inv (nf_notify (fl_fd m)) \<and> fd_waiter m \<and> nf_kind (fl_fd m) = k \<and>
     nf_requests (fl_fd m) = (if fd_asked m then [k] else []) \<and>
     (case fl_close m of
        None \<Rightarrow> True
      | Some p \<Rightarrow> 0 < nf_strong (fl_fd m) \<and>
          (case p of
             Close_Done r \<Rightarrow> nf_closed (fl_fd m) \<and> r = Inr ()
           | Close_Submitting \<Rightarrow> \<not> nf_closed (fl_fd m) \<and> nf_strong (fl_fd m) = 1
           | _ \<Rightarrow> True)) \<and>
     (nf_closed (fl_fd m) \<longrightarrow> nf_strong (fl_fd m) \<le> 1 \<and> (nf_strong (fl_fd m) = 1 \<longrightarrow> fl_close m \<noteq> None))"

section \<open>Every step keeps the invariant\<close>

lemma notify_all:
  assumes C: "linked_list C" and inv: "notify_inv s"
  shows "\<exists>r s'. notify_n C (- 1) s = Some (Inr (r, s')) \<and> notify_inv s' \<and>
    nt_entries s' = fired_entries (nt_waiters s) (nt_entries s)"
proof -
  have "nt_count s \<le> - 1" by simp
  then have "length (nt_waiters s) \<le> unat (- 1 :: usize)"
    using inv by (metis notify_inv_def word_le_nat_alt)
  then have "min (unat (- 1 :: usize)) (length (nt_waiters s)) = length (nt_waiters s)" by simp
  from notify_n_spec [OF C inv this [symmetric]] show ?thesis by auto
qed

lemma fired_one: "\<exists>e'. fired_entries xs [0 \<mapsto> e] = [0 \<mapsto> e'] \<and> ne_state e' \<in> {ne_state e, Waiter_Fired}"
  by (rule exI [of _ "if 0 \<in> set xs then e\<lparr>ne_waker := None, ne_state := Waiter_Fired\<rparr> else e"])
    (auto simp: fired_entries_def fun_eq_iff)

lemma fired_none: "fired_entries xs (\<lambda>_. None) = (\<lambda>_. None)"
  by (simp add: fired_entries_def fun_eq_iff)

lemma fd_waiter_fired:
  assumes "fd_waiter m" and "fl_close m' = fl_close m"
    and "nt_entries (nf_notify (fl_fd m')) = fired_entries xs (nt_entries (nf_notify (fl_fd m)))"
  shows "fd_waiter m'"
proof (cases "fl_close m = Some Close_Waiting")
  case True
  then obtain e where e: "nt_entries (nf_notify (fl_fd m)) = [0 \<mapsto> e]" "ne_state e \<in> {Waiter_Linked, Waiter_Fired}"
    using assms(1) by (auto simp: fd_waiter_def)
  obtain e' where "fired_entries xs [0 \<mapsto> e] = [0 \<mapsto> e']" "ne_state e' \<in> {ne_state e, Waiter_Fired}"
    using fired_one by blast
  then show ?thesis using True assms(2,3) e by (auto simp: fd_waiter_def)
qed (use assms in \<open>simp add: fd_waiter_def fired_none\<close>)

lemma fd_drop_spec:
  assumes C: "linked_list C" and inv: "notify_inv (nf_notify s)"
  shows "\<exists>n. fd_drop C s = Some (Inr (s\<lparr>nf_notify := n, nf_strong := nf_strong s - 1,
      nf_requests := (if nf_strong s \<le> 1 \<and> \<not> nf_closed s then nf_requests s @ [nf_kind s] else nf_requests s)\<rparr>)) \<and>
    notify_inv n \<and> nt_entries n = fired_entries (nt_waiters (nf_notify s)) (nt_entries (nf_notify s))"
proof -
  obtain r n where n: "notify_n C (- 1) (nf_notify s) = Some (Inr (r, n))" "notify_inv n"
    "nt_entries n = fired_entries (nt_waiters (nf_notify s)) (nt_entries (nf_notify s))"
    using notify_all [OF C inv] by blast
  have "fd_drop C s = Some (Inr (s\<lparr>nf_notify := n, nf_strong := nf_strong s - 1,
      nf_requests := (if nf_strong s \<le> 1 \<and> \<not> nf_closed s then nf_requests s @ [nf_kind s] else nf_requests s)\<rparr>))"
    using n(1) by (cases s) (auto simp: fd_drop_def fd_inner_drop_def Let_def)
  then show ?thesis using n(2,3) by blast
qed

text \<open>The polls of the closing future.\<close>

lemma close_poll_closed: "nf_closed s \<Longrightarrow> close_poll C a w res Close_Loop s = Some (Inr (Close_Done (Inr ()), s))"
  by (subst close_poll.simps) simp

lemma close_poll_last:
  "\<not> nf_closed s \<Longrightarrow> nf_strong s = 1 \<Longrightarrow>
   close_poll C a w res Close_Loop s = Some (Inr (Close_Submitting, s\<lparr>nf_requests := nf_requests s @ [nf_kind s]\<rparr>))"
  by (subst close_poll.simps) simp

lemma close_poll_wait:
  assumes C: "linked_list C" and inv: "notify_inv (nf_notify s)" and e: "nt_entries (nf_notify s) = (\<lambda>_. None)"
    and s: "\<not> nf_closed s" "nf_strong s \<noteq> 1"
  shows "\<exists>n e. close_poll C 0 w res Close_Loop s = Some (Inr (Close_Waiting, s\<lparr>nf_notify := n\<rparr>)) \<and> notify_inv n \<and>
    nt_entries n = [0 \<mapsto> e] \<and> ne_state e = Waiter_Linked"
proof -
  have nil: "nt_waiters (nf_notify s) = []"
    using inv e by (cases "nt_waiters (nf_notify s)") (auto simp: notify_inv_def)
  then have c: "nt_count (nf_notify s) = 0" using inv by (simp add: notify_inv_def unat_eq_0)
  let ?b = "notify_wait 0 (nf_notify s)" and ?e = "\<lparr> ne_state = Waiter_Linked, ne_waker = Some w \<rparr>"
  let ?n = "?b\<lparr>nt_entries := [0 \<mapsto> ?e], nt_waiters := [0], nt_count := 1\<rparr>"
  have add: "add_word (debug_assertions C) (0 :: usize) 1 = Inr 1" by (simp add: add_word_def)
  have "notified_poll C 0 w ?b = Inr (Pending, ?n)"
    by (simp add: notified_poll_def notify_wait_def notified_new_def linked_list.push_back_law [OF C] e nil c add fun_eq_iff)
  then have "close_poll C 0 w res Close_Waiting (s\<lparr>nf_notify := ?b\<rparr>) = Some (Inr (Close_Waiting, s\<lparr>nf_notify := ?n\<rparr>))"
    by (subst close_poll.simps) simp
  then have "close_poll C 0 w res Close_Loop s = Some (Inr (Close_Waiting, s\<lparr>nf_notify := ?n\<rparr>))"
    using s by (subst close_poll.simps) simp
  moreover have "notify_inv ?n" by (auto simp: notify_inv_def notify_wait_def)
  ultimately show ?thesis by (intro exI [of _ ?n] exI [of _ ?e]) simp
qed

lemma close_poll_linked:
  assumes "nt_entries (nf_notify s) a = Some e" and "ne_state e = Waiter_Linked"
  shows "close_poll C a w res Close_Waiting s = Some (Inr (Close_Waiting, s\<lparr>nf_notify := (nf_notify s)\<lparr>nt_entries :=
    (nt_entries (nf_notify s))(a \<mapsto> e\<lparr>ne_waker := Some w\<rparr>)\<rparr>\<rparr>))"
  using assms by (subst close_poll.simps) (simp add: notified_poll_def)

lemma close_poll_fired:
  assumes "nt_entries (nf_notify s) a = Some e" and "ne_state e = Waiter_Fired"
  shows "close_poll C a w res Close_Waiting s = close_poll C a w res Close_Loop (s\<lparr>nf_notify := (nf_notify s)\<lparr>nt_entries :=
    (nt_entries (nf_notify s))(a := None)\<rparr>\<rparr>)"
  using assms by (subst close_poll.simps) (simp add: notified_poll_def notified_drop_def)

lemma close_poll_answer:
  "close_fd_complete r = Inr () \<Longrightarrow>
   close_poll C a w (Some r) Close_Submitting s = Some (Inr (Close_Done (Inr ()), s\<lparr>nf_closed := True\<rparr>))"
  by (subst close_poll.simps) (simp add: close_poll_closed)

lemma close_poll_none: "close_poll C a w None Close_Submitting s = Some (Inr (Close_Submitting, s))"
  by (subst close_poll.simps) simp

text \<open>The head of the loop, whatever led there: every outcome keeps the invariant.\<close>

lemma loop_keeps:
  assumes C: "linked_list C" and inv: "notify_inv (nf_notify s)" and e: "nt_entries (nf_notify s) = (\<lambda>_. None)"
    and k: "nf_kind s = k" "\<not> nf_closed s" "nf_requests s = []" "0 < nf_strong s"
  shows "\<exists>p s'. close_poll C 0 w res Close_Loop s = Some (Inr (p, s')) \<and> fd_inv k (m\<lparr>fl_fd := s', fl_close := Some p\<rparr>)"
proof (cases "nf_strong s = 1")
  case True
  then show ?thesis using close_poll_last [of s C 0 w res] inv e k by (auto simp: fd_inv_def fd_waiter_def fd_asked_def)
next
  case False
  obtain n e where "close_poll C 0 w res Close_Loop s = Some (Inr (Close_Waiting, s\<lparr>nf_notify := n\<rparr>))" "notify_inv n"
    "nt_entries n = [0 \<mapsto> e]" "ne_state e = Waiter_Linked"
    using close_poll_wait [OF C inv e k(2) False] by blast
  then show ?thesis using k by (auto simp: fd_inv_def fd_waiter_def fd_asked_def)
qed

lemma poll_keeps:
  assumes C: "linked_list C" and inv: "fd_inv k m" and al: "fd_allowed False (Close_Poll w res) m"
  shows "\<exists>m'. fd_exec C (Close_Poll w res) m = Some (Inr m') \<and> fd_inv k m'"
proof -
  obtain p where p: "fl_close m = Some p" using al by (auto split: option.splits)
  let ?s = "fl_fd m"
  have ni: "notify_inv (nf_notify ?s)" and wt: "fd_waiter m" and kd: "nf_kind ?s = k" and st: "0 < nf_strong ?s"
    using inv p by (auto simp: fd_inv_def)
  have go: ?thesis if "close_poll C 0 w res p ?s = Some (Inr (q, s'))" "fd_inv k (m\<lparr>fl_fd := s', fl_close := Some q\<rparr>)" for q s'
    using that p by simp
  have open_: "\<not> nf_closed ?s \<and> nf_requests ?s = []" if "p = Close_Loop \<or> p = Close_Waiting" "\<not> nf_closed ?s"
    using inv p st that by (auto simp: fd_inv_def fd_asked_def)
  show ?thesis
  proof (cases p)
    case Close_Loop
    have e: "nt_entries (nf_notify ?s) = (\<lambda>_. None)" using wt p Close_Loop by (simp add: fd_waiter_def)
    show ?thesis
    proof (cases "nf_closed ?s")
      case True
      then show ?thesis using go close_poll_closed [OF True, of C 0 w res] Close_Loop inv p e
        by (simp add: fd_inv_def fd_waiter_def fd_asked_def)
    next
      case False
      from loop_keeps [OF C ni e kd, of w res m] show ?thesis using go open_ False Close_Loop st by blast
    qed
  next
    case Close_Waiting
    obtain e where e: "nt_entries (nf_notify ?s) = [0 \<mapsto> e]" "ne_state e \<in> {Waiter_Linked, Waiter_Fired}"
      using wt p Close_Waiting by (auto simp: fd_waiter_def)
    show ?thesis
    proof (cases "ne_state e")
      case Waiter_Linked
      let ?n = "(nf_notify ?s)\<lparr>nt_entries := (nt_entries (nf_notify ?s))(0 \<mapsto> e\<lparr>ne_waker := Some w\<rparr>)\<rparr>"
      have "notify_inv ?n" using ni e Waiter_Linked by (auto simp: notify_inv_def)
      moreover have "close_poll C 0 w res p ?s = Some (Inr (Close_Waiting, ?s\<lparr>nf_notify := ?n\<rparr>))"
        using close_poll_linked [of ?s 0 e C w res] e Waiter_Linked Close_Waiting by simp
      ultimately show ?thesis using go inv p Close_Waiting e Waiter_Linked
        by (auto simp: fd_inv_def fd_waiter_def fd_asked_def)
    next
      case Waiter_Fired
      let ?n = "(nf_notify ?s)\<lparr>nt_entries := (nt_entries (nf_notify ?s))(0 := None)\<rparr>"
      let ?t = "?s\<lparr>nf_notify := ?n\<rparr>"
      have step: "close_poll C 0 w res p ?s = close_poll C 0 w res Close_Loop ?t"
        using close_poll_fired [of ?s 0 e C w res] e Waiter_Fired Close_Waiting by simp
      have "0 \<notin> set (nt_waiters (nf_notify ?s))" using ni e Waiter_Fired by (auto simp: notify_inv_def)
      then have ni': "notify_inv ?n" using ni by (auto simp: notify_inv_def)
      have e': "nt_entries ?n = (\<lambda>_. None)" using e by (simp add: fun_eq_iff)
      show ?thesis
      proof (cases "nf_closed ?s")
        case True
        then show ?thesis using go step close_poll_closed [of ?t C 0 w res] Close_Waiting inv p ni' e'
          by (simp add: fd_inv_def fd_waiter_def fd_asked_def)
      next
        case False
        have "\<exists>q s'. close_poll C 0 w res Close_Loop ?t = Some (Inr (q, s')) \<and> fd_inv k (m\<lparr>fl_fd := s', fl_close := Some q\<rparr>)"
          using loop_keeps [OF C, of ?t k w res m] ni' e' kd open_ False Close_Waiting st by simp
        then show ?thesis using go step by auto
      qed
    qed (use e in auto)
  next
    case Close_Submitting
    show ?thesis
    proof (cases res)
      case None
      then show ?thesis using go close_poll_none inv p Close_Submitting
        by (cases m) (simp add: fd_inv_def fd_waiter_def fd_asked_def)
    next
      case (Some r)
      then have "close_fd_complete r = Inr ()"
        using al p Close_Submitting by (auto simp: close_fd_complete_def split: sum.splits)
      then show ?thesis using go close_poll_answer Some inv p Close_Submitting
        by (simp add: fd_inv_def fd_waiter_def fd_asked_def)
    qed
  next
    case (Close_Done r)
    then show ?thesis using al p by simp
  qed
qed

lemma drop_keeps:
  assumes C: "linked_list C" and inv: "fd_inv k m" and al: "fd_allowed False Fd_Drop m"
  shows "\<exists>m'. fd_exec C Fd_Drop m = Some (Inr m') \<and> fd_inv k m'"
proof -
  have ni: "notify_inv (nf_notify (fl_fd m))" using inv by (simp add: fd_inv_def)
  obtain n where n: "fd_drop C (fl_fd m) = Some (Inr ((fl_fd m)\<lparr>nf_notify := n, nf_strong := nf_strong (fl_fd m) - 1,
      nf_requests := (if nf_strong (fl_fd m) \<le> 1 \<and> \<not> nf_closed (fl_fd m) then nf_requests (fl_fd m) @ [nf_kind (fl_fd m)]
        else nf_requests (fl_fd m))\<rparr>))" (is "_ = Some (Inr ?s)")
    "notify_inv n" "nt_entries n = fired_entries (nt_waiters (nf_notify (fl_fd m))) (nt_entries (nf_notify (fl_fd m)))"
    using fd_drop_spec [OF C ni] by (elim exE conjE) (rule that; assumption)
  have wt: "fd_waiter m" using inv by (simp add: fd_inv_def)
  have "fd_waiter (m\<lparr>fl_fd := ?s\<rparr>)"
    by (rule fd_waiter_fired [OF wt, of _ "nt_waiters (nf_notify (fl_fd m))"]) (simp, simp add: n(3))
  moreover have o: "0 < fd_others m" using al by simp
  have "\<not> nf_closed (fl_fd m)" using inv o by (auto simp: fd_inv_def fd_others_def split: if_splits)
  moreover have "fl_close m \<noteq> Some Close_Submitting" using inv o by (auto simp: fd_inv_def fd_others_def)
  moreover have "nf_requests (fl_fd m) = []" "nf_kind (fl_fd m) = k"
    using inv o calculation(2,3) by (auto simp: fd_inv_def fd_asked_def fd_others_def)
  moreover have "fl_close m \<noteq> None \<Longrightarrow> 1 < nf_strong (fl_fd m)" "0 < nf_strong (fl_fd m)"
    using o by (auto simp: fd_others_def split: if_splits)
  moreover have "fl_close m \<noteq> Some (Close_Done r)" for r using inv calculation(2) by (auto simp: fd_inv_def)
  ultimately have "fd_inv k (m\<lparr>fl_fd := ?s\<rparr>)"
    using n(2) by (cases "fl_close m") (auto simp: fd_inv_def fd_asked_def split: close_phase.splits)
  then show ?thesis using n(1) by simp
qed

lemma close_drop_keeps:
  assumes C: "linked_list C" and inv: "fd_inv k m" and al: "fd_allowed False Close_Drop m"
  shows "\<exists>m'. fd_exec C Close_Drop m = Some (Inr m') \<and> fd_inv k m'"
proof -
  let ?s = "fl_fd m"
  obtain p where p: "fl_close m = Some p" "p \<noteq> Close_Submitting" using al by (auto split: option.splits)
  have ni: "notify_inv (nf_notify ?s)" using inv by (simp add: fd_inv_def)
  have "\<exists>n. (if fl_close m = Some Close_Waiting then notified_drop C 0 (nf_notify ?s) else Some (Inr (nf_notify ?s))) = Some (Inr n) \<and>
    notify_inv n \<and> nt_entries n = (\<lambda>_. None)"
  proof (cases "p = Close_Waiting")
    case True
    then obtain e where e: "nt_entries (nf_notify ?s) = [0 \<mapsto> e]" using inv p by (auto simp: fd_inv_def fd_waiter_def)
    obtain n where n: "notified_drop C 0 (nf_notify ?s) = Some (Inr n)" "notify_inv n" "nt_entries n 0 = None"
      using notified_drop_spec [OF C ni, of 0 e] e by auto
    have "nt_entries n b = None" for b using notified_drop_dom [OF C ni n(1), of b] n(3) e by (cases "b = 0") simp_all
    then have "nt_entries n = (\<lambda>_. None)" by blast
    then show ?thesis using n True p by auto
  next
    case False
    then show ?thesis using inv p ni by (auto simp: fd_inv_def fd_waiter_def)
  qed
  then obtain n where n: "(if fl_close m = Some Close_Waiting then notified_drop C 0 (nf_notify ?s) else Some (Inr (nf_notify ?s))) = Some (Inr n)"
    "notify_inv n" "nt_entries n = (\<lambda>_. None)" by blast
  let ?t = "?s\<lparr>nf_notify := n\<rparr>"
  obtain n' where n': "fd_drop C ?t = Some (Inr (?t\<lparr>nf_notify := n', nf_strong := nf_strong ?t - 1,
      nf_requests := (if nf_strong ?t \<le> 1 \<and> \<not> nf_closed ?t then nf_requests ?t @ [nf_kind ?t] else nf_requests ?t)\<rparr>))"
    "notify_inv n'" "nt_entries n' = (\<lambda>_. None)"
    using fd_drop_spec [OF C, of ?t] n(2,3) by (auto simp: fired_none)
  have "fd_inv k (m\<lparr>fl_fd := ?t\<lparr>nf_notify := n', nf_strong := nf_strong ?t - 1,
      nf_requests := (if nf_strong ?t \<le> 1 \<and> \<not> nf_closed ?t then nf_requests ?t @ [nf_kind ?t] else nf_requests ?t)\<rparr>, fl_close := None\<rparr>)"
    using inv p n'(2,3) by (auto simp: fd_inv_def fd_asked_def fd_waiter_def)
  then show ?thesis using n(1) n'(1) by simp
qed

lemma fd_step_safe:
  assumes C: "linked_list C" and inv: "fd_inv k m" and al: "fd_allowed False c m"
  shows "\<exists>m'. fd_exec C c m = Some (Inr m') \<and> fd_inv k m'"
proof (cases c)
  case Fd_Clone
  then show ?thesis using inv al
    by (auto simp: fd_inv_def fd_asked_def fd_waiter_def fd_others_def fd_clone_def split: option.splits close_phase.splits if_splits)
next
  case Close_Start
  then show ?thesis using inv al
    by (auto simp: fd_inv_def fd_asked_def fd_waiter_def fd_others_def)
qed (use drop_keeps poll_keeps close_drop_keeps assms in blast)+

lemma fd_inv_new: "linked_list C \<Longrightarrow> fd_inv k \<lparr> fl_fd = fd_new C k, fl_close = None \<rparr>"
  by (simp add: fd_inv_def fd_new_def fd_waiter_def fd_asked_def notify_inv_new) (simp add: notifier_new_def)

lemma fd_reach_inv: "fd_reach C False k m \<Longrightarrow> linked_list C \<Longrightarrow> fd_inv k m"
proof (induction rule: fd_reach.induct)
  case fd_init
  then show ?case by (rule fd_inv_new)
next
  case (fd_step m c m')
  then show ?case using fd_step_safe [of C k m c] by auto
qed

section \<open>Properties\<close>

fun fd_script :: "env \<Rightarrow> bool \<Rightarrow> fd_cmd list \<Rightarrow> fd_life \<Rightarrow> fd_life option" where
  "fd_script C fails [] m = Some m"
| "fd_script C fails (c # cs) m = (if fd_allowed fails c m
     then (case fd_exec C c m of Some (Inr m') \<Rightarrow> fd_script C fails cs m' | _ \<Rightarrow> None) else None)"

lemma fd_script_reach: "fd_reach C fails k m \<Longrightarrow> fd_script C fails cs m = Some m' \<Longrightarrow> fd_reach C fails k m'"
  by (induction cs arbitrary: m) (auto split: if_splits option.splits sum.splits intro: fd_reach.fd_step)

definition fd_demo :: "bool \<Rightarrow> fd_cmd list \<Rightarrow> fd_life" where
  "fd_demo fails cs = (case fd_script (seq_env True) fails cs \<lparr> fl_fd = fd_new (seq_env True) (Fd_Regular 5), fl_close = None \<rparr> of
     None \<Rightarrow> \<lparr> fl_fd = fd_new (seq_env True) (Fd_Regular 5), fl_close = None \<rparr> | Some m \<Rightarrow> m)"

lemma fd_demo_reach: "fd_reach (seq_env True) fails (Fd_Regular 5) (fd_demo fails cs)"
  using fd_script_reach [OF fd_reach.fd_init [of "seq_env True" fails "Fd_Regular 5"], of cs]
  by (auto simp: fd_demo_def fd_reach.fd_init split: option.splits)



text \<open>
  A \<open>close\<close> that fails leaves the descriptor open for the drop of the last clone, which asks to close it
  a second time, although the kernel has released the number whatever the error.
\<close>

theorem failed_close_repeats:
  "let m = fd_demo True [Close_Start, Close_Poll 9 None, Close_Poll 9 (Some \<lparr> cr_result = Inl 5, cr_flags = 0 \<rparr>), Close_Drop] in
   fd_reach (seq_env True) True (Fd_Regular 5) m \<and> nf_strong (fl_fd m) = 0 \<and>
   nf_requests (fl_fd m) = [Fd_Regular 5, Fd_Regular 5]"
proof -
  let ?m = "fd_demo True [Close_Start, Close_Poll 9 None, Close_Poll 9 (Some \<lparr> cr_result = Inl 5, cr_flags = 0 \<rparr>), Close_Drop]"
  have "nf_strong (fl_fd ?m) = 0" "nf_requests (fl_fd ?m) = [Fd_Regular 5, Fd_Regular 5]" by code_simp+
  then show ?thesis using fd_demo_reach by simp
qed

end
