(* ===== verification/Buffers.thy ===== *)
theory Buffers
  imports Rust_Int
begin

text \<open>
  The buffers of \<open>norn-uring/src/buf.rs\<close>: the traits \<open>StableBuf\<close> and \<open>StableBufMut\<close> as records of their
  functions, their implementations for the types of the standard library and of \<open>bytes\<close>, and the wrappers
  \<open>BufCursor\<close> and \<open>BufLimit\<close>. A pointer is its address.
\<close>

section \<open>The traits\<close>

record 'b stable_buf =
  sb_ptr :: "'b \<Rightarrow> fault + usize"
  sb_init :: "'b \<Rightarrow> fault + usize"

record 'b stable_buf_mut =
  sm_ptr :: "'b \<Rightarrow> usize"
  sm_remaining :: "'b \<Rightarrow> usize"
  sm_set_init :: "usize \<Rightarrow> 'b \<Rightarrow> 'b"

text \<open>The region the default \<open>as_slice\<close> makes a slice of: its address and its length.\<close>

definition as_slice :: "'b stable_buf \<Rightarrow> 'b \<Rightarrow> fault + (usize \<times> usize)" where
  "as_slice B b = and_then (sb_ptr B b) (\<lambda>p. and_then (sb_init B b) (\<lambda>n. Inr (p, n)))"

section \<open>The implementations\<close>

text \<open>A vector: where its memory is, how much of it is filled, and how much there is.\<close>

record vec =
  vc_ptr :: usize
  vc_len :: usize
  vc_cap :: usize

definition vec_buf :: "vec stable_buf" where
  "vec_buf = \<lparr> sb_ptr = (\<lambda>v. Inr (vc_ptr v)), sb_init = (\<lambda>v. Inr (vc_len v)) \<rparr>"

definition vec_buf_mut :: "vec stable_buf_mut" where
  "vec_buf_mut = \<lparr> sm_ptr = vc_ptr, sm_remaining = vc_cap, sm_set_init = (\<lambda>n v. v\<lparr>vc_len := n\<rparr>) \<rparr>"

definition bytes_mut_buf :: "vec stable_buf" where
  "bytes_mut_buf = \<lparr> sb_ptr = (\<lambda>v. Inr (vc_ptr v)), sb_init = (\<lambda>v. Inr (vc_len v)) \<rparr>"

definition bytes_mut_buf_mut :: "vec stable_buf_mut" where
  "bytes_mut_buf_mut = \<lparr> sm_ptr = vc_ptr, sm_remaining = vc_cap,
     sm_set_init = (\<lambda>n v. if vc_len v < n then v\<lparr>vc_len := n\<rparr> else v) \<rparr>"

text \<open>A slice in a box, and the slices that cannot be written.\<close>

record mem_slice =
  ms_ptr :: usize
  ms_len :: usize

definition box_buf :: "mem_slice stable_buf" where
  "box_buf = \<lparr> sb_ptr = (\<lambda>v. Inr (ms_ptr v)), sb_init = (\<lambda>v. Inr (ms_len v)) \<rparr>"

definition box_buf_mut :: "mem_slice stable_buf_mut" where
  "box_buf_mut = \<lparr> sm_ptr = ms_ptr, sm_remaining = ms_len, sm_set_init = (\<lambda>_ v. v) \<rparr>"

definition slice_buf :: "mem_slice stable_buf" where
  "slice_buf = \<lparr> sb_ptr = (\<lambda>v. Inr (ms_ptr v)), sb_init = (\<lambda>v. Inr (ms_len v)) \<rparr>"

definition str_buf :: "mem_slice stable_buf" where
  "str_buf = \<lparr> sb_ptr = (\<lambda>v. Inr (ms_ptr v)), sb_init = (\<lambda>v. Inr (ms_len v)) \<rparr>"

definition bytes_buf :: "mem_slice stable_buf" where
  "bytes_buf = \<lparr> sb_ptr = (\<lambda>v. Inr (ms_ptr v)), sb_init = (\<lambda>v. Inr (ms_len v)) \<rparr>"

section \<open>The wrappers\<close>

record 'b buf_cursor =
  cu_buf :: 'b
  cu_pos :: usize

definition into_cursor :: "'b \<Rightarrow> 'b buf_cursor" where
  "into_cursor b = \<lparr> cu_buf = b, cu_pos = 0 \<rparr>"

definition cursor_consume :: "bool \<Rightarrow> usize \<Rightarrow> 'b buf_cursor \<Rightarrow> fault + 'b buf_cursor" where
  "cursor_consume dbg n c = and_then (add_word dbg (cu_pos c) n) (\<lambda>p. Inr (c\<lparr>cu_pos := p\<rparr>))"

definition cursor_into_inner :: "'b buf_cursor \<Rightarrow> 'b" where
  "cursor_into_inner c = cu_buf c"

definition cursor_ptr :: "'b stable_buf \<Rightarrow> 'b buf_cursor \<Rightarrow> fault + usize" where
  "cursor_ptr B c =
     and_then (sb_init B (cu_buf c)) (\<lambda>n.
     and_then (sb_ptr B (cu_buf c)) (\<lambda>p. Inr (p + min n (cu_pos c))))"

definition cursor_init :: "bool \<Rightarrow> 'b stable_buf \<Rightarrow> 'b buf_cursor \<Rightarrow> fault + usize" where
  "cursor_init dbg B c = and_then (sb_init B (cu_buf c)) (\<lambda>n. sub_word dbg n (cu_pos c))"

definition cursor_buf :: "bool \<Rightarrow> 'b stable_buf \<Rightarrow> 'b buf_cursor stable_buf" where
  "cursor_buf dbg B = \<lparr> sb_ptr = cursor_ptr B, sb_init = cursor_init dbg B \<rparr>"

record 'b buf_limit =
  li_buf :: 'b
  li_limit :: usize

definition limit_new :: "'b \<Rightarrow> usize \<Rightarrow> 'b buf_limit" where
  "limit_new b n = \<lparr> li_buf = b, li_limit = n \<rparr>"

definition limit_buf :: "'b stable_buf \<Rightarrow> 'b buf_limit stable_buf" where
  "limit_buf B = \<lparr> sb_ptr = (\<lambda>c. sb_ptr B (li_buf c)),
     sb_init = (\<lambda>c. and_then (sb_init B (li_buf c)) (\<lambda>n. Inr (min n (li_limit c)))) \<rparr>"

section \<open>The contract\<close>

text \<open>
  What the safety comments of the traits ask: the region a buffer exposes is inside its memory. A buffer is
  well formed by \<open>ok\<close>, and \<open>memory\<close> is the address and the size of what it owns.
\<close>

locale stable =
  fixes B :: "'b stable_buf" and ok :: "'b \<Rightarrow> bool" and memory :: "'b \<Rightarrow> usize \<times> usize"
  assumes exposes: "ok b \<Longrightarrow> \<exists>p n. sb_ptr B b = Inr p \<and> sb_init B b = Inr n \<and>
      unat (fst (memory b)) \<le> unat p \<and> unat p + unat n \<le> unat (fst (memory b)) + unat (snd (memory b))"
    and bounded: "ok b \<Longrightarrow> unat (fst (memory b)) + unat (snd (memory b)) < 2 ^ 64"
begin

text \<open>A limit keeps the contract, and a cursor does up to the end of the buffer.\<close>

lemma limit_stable: "stable (limit_buf B) (\<lambda>c. ok (li_buf c)) (\<lambda>c. memory (li_buf c))"
proof
  fix c :: "'b buf_limit"
  assume ok: "ok (li_buf c)"
  then obtain p n where p: "sb_ptr B (li_buf c) = Inr p" "sb_init B (li_buf c) = Inr n"
    "unat (fst (memory (li_buf c))) \<le> unat p" "unat p + unat n \<le> unat (fst (memory (li_buf c))) + unat (snd (memory (li_buf c)))"
    using exposes by blast
  have "unat (min n (li_limit c)) \<le> unat n" by (simp add: word_le_nat_alt [symmetric])
  then show "\<exists>p n. sb_ptr (limit_buf B) c = Inr p \<and> sb_init (limit_buf B) c = Inr n \<and>
      unat (fst (memory (li_buf c))) \<le> unat p \<and> unat p + unat n \<le> unat (fst (memory (li_buf c))) + unat (snd (memory (li_buf c)))"
    using p by (auto simp: limit_buf_def)
  show "unat (fst (memory (li_buf c))) + unat (snd (memory (li_buf c))) < 2 ^ 64" by (rule bounded [OF ok])
qed

lemma cursor_stable:
  "stable (cursor_buf dbg B) (\<lambda>c. ok (cu_buf c) \<and> (\<exists>n. sb_init B (cu_buf c) = Inr n \<and> cu_pos c \<le> n)) (\<lambda>c. memory (cu_buf c))"
proof
  fix c :: "'b buf_cursor"
  assume a: "ok (cu_buf c) \<and> (\<exists>n. sb_init B (cu_buf c) = Inr n \<and> cu_pos c \<le> n)"
  let ?m = "memory (cu_buf c)"
  obtain n where n: "sb_init B (cu_buf c) = Inr n" and pos: "cu_pos c \<le> n" using a by blast
  obtain p where p: "sb_ptr B (cu_buf c) = Inr p" "sb_init B (cu_buf c) = Inr n"
    "unat (fst ?m) \<le> unat p" "unat p + unat n \<le> unat (fst ?m) + unat (snd ?m)"
    using exposes [of "cu_buf c"] a n by auto
  have le: "unat (cu_pos c) \<le> unat n" using pos by (simp add: word_le_nat_alt)
  have b: "unat (fst ?m) + unat (snd ?m) < 2 ^ 64" using bounded a by blast
  then have "unat (p + cu_pos c) = unat p + unat (cu_pos c)" using p(4) le by (intro unat_add_no_overflow) simp
  moreover have "unat (n - cu_pos c) = unat n - unat (cu_pos c)" by (rule unat_sub_le [OF pos])
  ultimately show "\<exists>p n. sb_ptr (cursor_buf dbg B) c = Inr p \<and> sb_init (cursor_buf dbg B) c = Inr n \<and>
      unat (fst ?m) \<le> unat p \<and> unat p + unat n \<le> unat (fst ?m) + unat (snd ?m)"
    using p le pos sub_word_Inr [OF pos, of dbg]
    by (auto simp: cursor_buf_def cursor_ptr_def cursor_init_def min_def)
  show "unat (fst ?m) + unat (snd ?m) < 2 ^ 64" by (rule b)
qed

end

definition vec_ok :: "vec \<Rightarrow> bool" where
  "vec_ok v \<longleftrightarrow> vc_len v \<le> vc_cap v \<and> unat (vc_ptr v) + unat (vc_cap v) < 2 ^ 64"

definition slice_ok :: "mem_slice \<Rightarrow> bool" where
  "slice_ok v \<longleftrightarrow> unat (ms_ptr v) + unat (ms_len v) < 2 ^ 64"

interpretation vec_stable: stable vec_buf vec_ok "\<lambda>v. (vc_ptr v, vc_cap v)"
  by unfold_locales (auto simp: vec_buf_def vec_ok_def word_le_nat_alt)

interpretation bytes_mut_stable: stable bytes_mut_buf vec_ok "\<lambda>v. (vc_ptr v, vc_cap v)"
  by unfold_locales (auto simp: bytes_mut_buf_def vec_ok_def word_le_nat_alt)

interpretation box_stable: stable box_buf slice_ok "\<lambda>v. (ms_ptr v, ms_len v)"
  by unfold_locales (auto simp: box_buf_def slice_ok_def)

interpretation slice_stable: stable slice_buf slice_ok "\<lambda>v. (ms_ptr v, ms_len v)"
  by unfold_locales (auto simp: slice_buf_def slice_ok_def)

interpretation str_stable: stable str_buf slice_ok "\<lambda>v. (ms_ptr v, ms_len v)"
  by unfold_locales (auto simp: str_buf_def slice_ok_def)

interpretation bytes_stable: stable bytes_buf slice_ok "\<lambda>v. (ms_ptr v, ms_len v)"
  by unfold_locales (auto simp: bytes_buf_def slice_ok_def)

section \<open>Properties\<close>

text \<open>
  A cursor over a limit of a vector exposes exactly the filled bytes from its position up to the limit, which
  are inside the memory of the vector.
\<close>

theorem cursor_view:
  assumes "vec_ok v" and "pos \<le> min (vc_len v) l"
  shows "as_slice (cursor_buf dbg (limit_buf vec_buf)) \<lparr> cu_buf = limit_new v l, cu_pos = pos \<rparr> =
      Inr (vc_ptr v + pos, min (vc_len v) l - pos) \<and>
    unat (vc_ptr v) \<le> unat (vc_ptr v + pos) \<and>
    unat (vc_ptr v + pos) + unat (min (vc_len v) l - pos) \<le> unat (vc_ptr v) + unat (vc_cap v)"
proof -
  let ?c = "\<lparr> cu_buf = limit_new v l, cu_pos = pos \<rparr>"
  have i: "sb_init (limit_buf vec_buf) (limit_new v l) = Inr (min (vc_len v) l)"
    by (simp add: limit_buf_def vec_buf_def limit_new_def)
  have s: "sb_ptr (cursor_buf dbg (limit_buf vec_buf)) ?c = Inr (vc_ptr v + pos)"
    "sb_init (cursor_buf dbg (limit_buf vec_buf)) ?c = Inr (min (vc_len v) l - pos)"
    using i assms(2) sub_word_Inr [OF assms(2), of dbg]
    by (auto simp: cursor_buf_def cursor_ptr_def cursor_init_def limit_buf_def vec_buf_def limit_new_def min_def)
  have st: "stable (cursor_buf dbg (limit_buf vec_buf))
      (\<lambda>c. vec_ok (li_buf (cu_buf c)) \<and> (\<exists>n. sb_init (limit_buf vec_buf) (cu_buf c) = Inr n \<and> cu_pos c \<le> n))
      (\<lambda>c. (vc_ptr (li_buf (cu_buf c)), vc_cap (li_buf (cu_buf c))))"
    by (rule stable.cursor_stable [OF vec_stable.limit_stable])
  then show ?thesis using stable.exposes [OF st, of ?c] assms i s
    by (auto simp: as_slice_def limit_new_def)
qed

theorem cursor_view_witness:
  "as_slice (cursor_buf True (limit_buf vec_buf)) \<lparr> cu_buf = limit_new \<lparr> vc_ptr = 4096, vc_len = 10, vc_cap = 16 \<rparr> 6, cu_pos = 2 \<rparr> =
    Inr (4098, 4)"
  using cursor_view [of "\<lparr> vc_ptr = 4096, vc_len = 10, vc_cap = 16 \<rparr>" 2 6 True] by (simp add: vec_ok_def)

text \<open>
  A cursor that was advanced past the end of its buffer panics in a debug build when its length is asked for;
  in a release build it exposes a region that begins at the end of the buffer and wraps around.
\<close>

theorem cursor_past_end:
  assumes "vc_len v < pos"
  shows "as_slice (cursor_buf True vec_buf) \<lparr> cu_buf = v, cu_pos = pos \<rparr> = Inl Panic \<and>
    as_slice (cursor_buf False vec_buf) \<lparr> cu_buf = v, cu_pos = pos \<rparr> = Inr (vc_ptr v + vc_len v, vc_len v - pos) \<and>
    unat (vc_len v - pos) = 2 ^ 64 - (unat pos - unat (vc_len v))"
proof -
  have "min (vc_len v) pos = vc_len v" using assms by (simp add: min_def less_imp_le)
  moreover have "unat (vc_len v - pos) = 2 ^ 64 - (unat pos - unat (vc_len v))"
    using assms unat_sub_if' [of "vc_len v" pos] by (simp add: word_less_nat_alt word_le_nat_alt)
  ultimately show ?thesis using assms
    by (simp add: as_slice_def cursor_buf_def cursor_ptr_def cursor_init_def vec_buf_def sub_word_def)
qed

theorem cursor_past_end_witness:
  "as_slice (cursor_buf False vec_buf) \<lparr> cu_buf = \<lparr> vc_ptr = 4096, vc_len = 10, vc_cap = 16 \<rparr>, cu_pos = 11 \<rparr> = Inr (4106, - 1)"
  using cursor_past_end [of "\<lparr> vc_ptr = 4096, vc_len = 10, vc_cap = 16 \<rparr>" 11] by simp

end
