(* ===== verification/Requests.thy ===== *)
theory Requests
  imports Fd Buffers
begin

text \<open>
  What the requests of \<open>norn-uring/src/fs\<close> and \<open>norn-uring/src/net\<close> share: the constants of the crate
  \<open>libc\<close>, the paths as C strings, the results without a value, and the requests that make a descriptor, which
  close it if nobody waits for it any more. With the request of \<open>util::noop\<close>.
\<close>

section \<open>The constants\<close>

text \<open>The crate \<open>libc\<close> is a record of its constants; \<open>linux_libc\<close> has their values on Linux for x86-64.\<close>

type_synonym i16 = "16 word"

record libc =
  O_RDONLY :: i32
  O_WRONLY :: i32
  O_RDWR :: i32
  O_APPEND :: i32
  O_CREAT :: i32
  O_EXCL :: i32
  O_TRUNC :: i32
  O_DIRECT :: i32
  O_SYNC :: i32
  O_DSYNC :: i32
  O_CLOEXEC :: i32
  O_NONBLOCK :: i32
  EINVAL :: i32
  AT_FDCWD :: i32
  FALLOC_FL_KEEP_SIZE :: i32
  FALLOC_FL_PUNCH_HOLE :: i32
  FALLOC_FL_ZERO_RANGE :: i32
  SOCK_NONBLOCK :: i32
  SOCK_CLOEXEC :: i32
  SHUT_RD :: i32
  SHUT_WR :: i32
  SHUT_RDWR :: i32
  POLLIN :: i16
  POLLPRI :: i16
  POLLOUT :: i16
  POLLERR :: i16
  POLLHUP :: i16
  POLLNVAL :: i16
  POLLRDHUP :: i16

definition linux_libc :: libc where
  "linux_libc = \<lparr> O_RDONLY = 0, O_WRONLY = 1, O_RDWR = 2, O_APPEND = 0x400, O_CREAT = 0x40, O_EXCL = 0x80,
     O_TRUNC = 0x200, O_DIRECT = 0x4000, O_SYNC = 0x101000, O_DSYNC = 0x1000, O_CLOEXEC = 0x80000, O_NONBLOCK = 0x800,
     EINVAL = 22, AT_FDCWD = - 100, FALLOC_FL_KEEP_SIZE = 1, FALLOC_FL_PUNCH_HOLE = 2, FALLOC_FL_ZERO_RANGE = 0x10,
     SOCK_NONBLOCK = 0x800, SOCK_CLOEXEC = 0x80000, SHUT_RD = 0, SHUT_WR = 1, SHUT_RDWR = 2, POLLIN = 1, POLLPRI = 2,
     POLLOUT = 4, POLLERR = 8, POLLHUP = 0x10, POLLNVAL = 0x20, POLLRDHUP = 0x2000 \<rparr>"

section \<open>Paths\<close>

text \<open>\<open>OsStr::to_str\<close>: the bytes of a path are a string if they are UTF-8.\<close>

definition between :: "u8 \<Rightarrow> u8 \<Rightarrow> u8 \<Rightarrow> bool" where
  "between a b c \<longleftrightarrow> a \<le> c \<and> c \<le> b"

definition continuation :: "u8 \<Rightarrow> bool" where
  "continuation c = between 0x80 0xBF c"

definition second_of_three :: "u8 \<Rightarrow> u8 \<Rightarrow> bool" where
  "second_of_three b c = (if b = 0xE0 then between 0xA0 0xBF c else if b = 0xED then between 0x80 0x9F c else continuation c)"

definition second_of_four :: "u8 \<Rightarrow> u8 \<Rightarrow> bool" where
  "second_of_four b c = (if b = 0xF0 then between 0x90 0xBF c else if b = 0xF4 then between 0x80 0x8F c else continuation c)"

fun valid_utf8 :: "u8 list \<Rightarrow> bool" where
  "valid_utf8 [] = True"
| "valid_utf8 [b] = (b < 0x80)"
| "valid_utf8 [b, c] = (if b < 0x80 then valid_utf8 [c] else between 0xC2 0xDF b \<and> continuation c)"
| "valid_utf8 [b, c, d] =
     (if b < 0x80 then valid_utf8 [c, d]
      else if between 0xC2 0xDF b then continuation c \<and> valid_utf8 [d]
      else between 0xE0 0xEF b \<and> second_of_three b c \<and> continuation d)"
| "valid_utf8 (b # c # d # e # r) =
     (if b < 0x80 then valid_utf8 (c # d # e # r)
      else if between 0xC2 0xDF b then continuation c \<and> valid_utf8 (d # e # r)
      else if between 0xE0 0xEF b then second_of_three b c \<and> continuation d \<and> valid_utf8 (e # r)
      else between 0xF0 0xF4 b \<and> second_of_four b c \<and> continuation d \<and> continuation e \<and> valid_utf8 r)"

text \<open>\<open>CString::new\<close> refuses a string with a zero byte inside, with an error that has no number.\<close>

definition cstring_new :: "u8 list \<Rightarrow> io_error + path_bytes" where
  "cstring_new s = (if 0 \<in> set s then Inl Other_Error else Inr s)"

definition path_cstring :: "libc \<Rightarrow> u8 list \<Rightarrow> io_error + path_bytes" where
  "path_cstring L p = (if valid_utf8 p then cstring_new p else Inl (Os_Error (EINVAL L)))"

section \<open>Results\<close>

definition unit_result :: "cqe_result \<Rightarrow> io_error + unit" where
  "unit_result r = (case cr_result r of Inl e \<Rightarrow> Inl (Os_Error e) | Inr _ \<Rightarrow> Inr ())"

text \<open>A number of bytes, as \<open>u32 as usize\<close>.\<close>

definition size_result :: "cqe_result \<Rightarrow> io_error + usize" where
  "size_result r = (case cr_result r of Inl e \<Rightarrow> Inl (Os_Error e) | Inr n \<Rightarrow> Inr (ucast n))"

definition noop_configure :: sqe where
  "noop_configure = sqe_build Sqe_Nop"

definition noop_complete :: "cqe_result \<Rightarrow> io_error + unit" where
  "noop_complete r = (case cr_result r of Inl e \<Rightarrow> Inl (Os_Error e) | Inr _ \<Rightarrow> Inr ())"

section \<open>Descriptors that arrive late\<close>

text \<open>
  The result of a request that makes a descriptor is its number. The cleanup makes a \<open>NornFd\<close> of it and
  drops it at once: \<open>drop_new_fd\<close> are the close requests of that drop. The data of such a request is
  kept with the close requests of its cleanups.
\<close>

definition fd_result :: "env \<Rightarrow> cqe_result \<Rightarrow> io_error + norn_fd" where
  "fd_result C r = (case cr_result r of Inl e \<Rightarrow> Inl (Os_Error e) | Inr n \<Rightarrow> Inr (fd_from_raw C n))"

definition drop_new_fd :: "env \<Rightarrow> i32 \<Rightarrow> fd_kind list" where
  "drop_new_fd C n = (case fd_drop C (fd_from_raw C n) of Some (Inr s) \<Rightarrow> nf_requests s | _ \<Rightarrow> [])"

record 'q late =
  lt_op :: 'q
  lt_closed :: "fd_kind list"

definition late_new :: "'q \<Rightarrow> 'q late" where
  "late_new q = \<lparr> lt_op = q, lt_closed = [] \<rparr>"

definition late_cleanup :: "('q \<Rightarrow> cqe_result \<Rightarrow> fd_kind list) \<Rightarrow> 'q late \<Rightarrow> cqe_result \<Rightarrow> 'q late" where
  "late_cleanup f d r = d\<lparr>lt_closed := lt_closed d @ f (lt_op d) r\<rparr>"

definition fd_cleanup :: "env \<Rightarrow> cqe_result \<Rightarrow> fd_kind list" where
  "fd_cleanup C r = (case cr_result r of Inl _ \<Rightarrow> [] | Inr n \<Rightarrow> drop_new_fd C n)"

text \<open>The descriptors among some results.\<close>

definition made_fds :: "cqe_result list \<Rightarrow> fd_kind list" where
  "made_fds rs = concat (map (\<lambda>r. case cr_result r of Inl _ \<Rightarrow> [] | Inr n \<Rightarrow> [Fd_Regular n]) rs)"

lemma fd_drop_fresh:
  assumes C: "linked_list C"
  shows "\<exists>n. fd_drop C (fd_from_raw C k) = Some (Inr ((fd_from_raw C k)\<lparr>nf_notify := n, nf_strong := 0, nf_requests := [Fd_Regular k]\<rparr>))"
proof -
  have "notify_inv (nf_notify (fd_from_raw C k))" by (simp add: fd_from_raw_def fd_new_def notify_inv_new [OF C])
  from fd_drop_spec [OF C this] show ?thesis by (elim exE) (auto simp: fd_from_raw_def fd_new_def)
qed

lemma drop_new_fd_eq: "linked_list C \<Longrightarrow> drop_new_fd C n = [Fd_Regular n]"
  using fd_drop_fresh [of C n] by (auto simp: drop_new_fd_def)

lemma late_cleanups:
  assumes C: "linked_list C"
  shows "foldl (late_cleanup (\<lambda>_. fd_cleanup C)) d rs = d\<lparr>lt_closed := lt_closed d @ made_fds rs\<rparr>"
proof (induction rs arbitrary: d)
  case (Cons r rs)
  then show ?case
    by (auto simp: late_cleanup_def fd_cleanup_def made_fds_def drop_new_fd_eq [OF C] split: sum.splits)
qed (simp add: made_fds_def)

end
