(* ===== verification/Buf_Ring.thy ===== *)
theory Buf_Ring
  imports Ring_Driver
begin

text \<open>
  The ring of provided buffers of \<open>norn-uring/src/bufring.rs\<close>: the builder, the ring whose tail the program
  advances when a buffer is given back, and the buffers the kernel picks from its head. A buffer is its id;
  the memory of the ring is the list of its entries. The results of \<open>mmap\<close> and of the registration with the
  kernel are arguments, and so is \<open>cqueue::buffer_select\<close> of the crate \<open>io_uring\<close>.
\<close>

section \<open>The builder\<close>

record buf_builder =
  bb_bgid :: u16
  bb_entries :: u16
  bb_cnt :: u16
  bb_len :: usize

definition builder_new :: "u16 \<Rightarrow> buf_builder" where
  "builder_new g = \<lparr> bb_bgid = g, bb_entries = 128, bb_cnt = 0, bb_len = 4096 \<rparr>"

definition builder_ring_entries :: "u16 \<Rightarrow> buf_builder \<Rightarrow> buf_builder" where
  "builder_ring_entries n b = b\<lparr>bb_entries := n\<rparr>"

definition builder_buf_cnt :: "u16 \<Rightarrow> buf_builder \<Rightarrow> buf_builder" where
  "builder_buf_cnt n b = b\<lparr>bb_cnt := n\<rparr>"

definition builder_buf_len :: "usize \<Rightarrow> buf_builder \<Rightarrow> buf_builder" where
  "builder_buf_len n b = b\<lparr>bb_len := n\<rparr>"

text \<open>\<open>u16::next_power_of_two\<close>, for numbers up to \<open>2 ^ 15\<close>.\<close>

definition next_power_of_two :: "u16 \<Rightarrow> u16" where
  "next_power_of_two n = (case filter (\<lambda>p. n \<le> p) (map (\<lambda>i. 2 ^ i) [0..<16]) of [] \<Rightarrow> 0 | p # _ \<Rightarrow> p)"

text \<open>The part of \<open>build\<close> before the ring is made: both sizes are the larger one, unless the ring is the larger.\<close>

definition builder_normal :: "buf_builder \<Rightarrow> buf_builder" where
  "builder_normal b = (if bb_cnt b = 0 \<or> bb_entries b < bb_cnt b
     then (let m = max (bb_entries b) (bb_cnt b) in b\<lparr>bb_cnt := m, bb_entries := m\<rparr>) else b)"

definition builder_params :: "buf_builder \<Rightarrow> io_error + buf_builder" where
  "builder_params b =
     (let b = builder_normal b in
      if push_bit 15 1 < bb_entries b then Inl Other_Error
      else Inr (b\<lparr>bb_entries := next_power_of_two (bb_entries b)\<rparr>))"

section \<open>The ring\<close>

record ring_entry =
  re_buf :: nat \<comment> \<open>the buffer whose address it holds\<close>
  re_len :: u32
  re_bid :: u16

record buf_ring =
  br_bgid :: u16
  br_mask :: u16
  br_cnt :: u16
  br_len :: usize
  br_entries :: "ring_entry list"
  br_tail :: u16
  br_shared :: u16

definition ring_new :: "bool \<Rightarrow> u16 \<Rightarrow> u16 \<Rightarrow> u16 \<Rightarrow> usize \<Rightarrow> fault + (io_error + buf_ring)" where
  "ring_new mmap_ok g entries cnt len =
     (if cnt = 0 \<or> entries < cnt \<or> len = 0 \<or> entries AND (entries - 1) \<noteq> 0 then Inr (Inl Other_Error)
      else and_then (assert_that mmap_ok) (\<lambda>_. Inr (Inr
        \<lparr> br_bgid = g, br_mask = entries - 1, br_cnt = cnt, br_len = len,
          br_entries = replicate (unat entries) \<lparr> re_buf = 0, re_len = 0, re_bid = 0 \<rparr>, br_tail = 0, br_shared = 0 \<rparr>)))"

definition ring_push :: "u16 \<Rightarrow> buf_ring \<Rightarrow> fault + buf_ring" where
  "ring_push bid r =
     and_then (assert_that (bid < br_cnt r)) (\<lambda>_.
       let i = br_tail r AND br_mask r in
       Inr (r\<lparr>br_tail := br_tail r + 1,
         br_entries := (br_entries r)[unat i := \<lparr> re_buf = unat bid, re_len = ucast (br_len r), re_bid = bid \<rparr>]\<rparr>))"

definition ring_sync :: "buf_ring \<Rightarrow> buf_ring" where
  "ring_sync r = r\<lparr>br_shared := br_tail r\<rparr>"

fun ring_push_all :: "u16 list \<Rightarrow> buf_ring \<Rightarrow> fault + buf_ring" where
  "ring_push_all [] r = Inr r"
| "ring_push_all (b # bs) r = and_then (ring_push b r) (ring_push_all bs)"

definition ring_bids :: "buf_ring \<Rightarrow> u16 list" where
  "ring_bids r = map of_nat [0..<unat (br_cnt r)]"

definition ring_register :: "i32 + unit \<Rightarrow> buf_ring \<Rightarrow> fault + (io_error + buf_ring)" where
  "ring_register reg r = (case reg of
     Inl _ \<Rightarrow> Inr (Inl Other_Error)
   | Inr _ \<Rightarrow> and_then (ring_push_all (ring_bids r) r) (\<lambda>r. Inr (Inr (ring_sync r))))"

text \<open>The drop of the ring unregisters it and unwraps the result.\<close>

definition ring_drop :: "i32 + unit \<Rightarrow> fault + unit" where
  "ring_drop unreg = (case unreg of Inl _ \<Rightarrow> Inl Panic | Inr _ \<Rightarrow> Inr ())"

definition builder_build ::
  "bool \<Rightarrow> i32 + unit \<Rightarrow> i32 + unit \<Rightarrow> buf_builder \<Rightarrow> fault + (io_error + buf_ring)"
where
  "builder_build mmap_ok reg unreg b = (case builder_params b of
     Inl e \<Rightarrow> Inr (Inl e)
   | Inr b \<Rightarrow>
       and_then (ring_new mmap_ok (bb_bgid b) (bb_entries b) (bb_cnt b) (bb_len b)) (\<lambda>r. case r of
           Inl e \<Rightarrow> Inr (Inl e)
         | Inr r \<Rightarrow>
             and_then (ring_register reg r) (\<lambda>q. case q of
                 Inl e \<Rightarrow> and_then (ring_drop unreg) (\<lambda>_. Inr (Inl e))
               | Inr r \<Rightarrow> Inr (Inr r))))"

text \<open>\<open>get_buf\<close>: the buffer and how much of it is filled.\<close>

definition ring_get_buf :: "(u32 \<Rightarrow> u16 option) \<Rightarrow> buf_ring \<Rightarrow> u32 \<Rightarrow> u32 \<Rightarrow> fault + (u16 \<times> usize)" where
  "ring_get_buf sel r res flags = (case sel flags of
     None \<Rightarrow> Inl Panic
   | Some bid \<Rightarrow> and_then (assert_that (ucast res \<le> br_len r)) (\<lambda>_. Inr (bid, ucast res)))"

text \<open>The drop of a buffer gives it back.\<close>

definition ring_give_back :: "u16 \<Rightarrow> buf_ring \<Rightarrow> fault + buf_ring" where
  "ring_give_back bid r = and_then (ring_push bid r) (\<lambda>r. Inr (ring_sync r))"

section \<open>The parameters\<close>

lemma next_power_of_two_spec:
  assumes "0 < n" and "n \<le> push_bit 15 1"
  shows "\<exists>k \<le> 15. next_power_of_two n = 2 ^ k \<and> n \<le> 2 ^ k"
proof -
  have "n \<le> 2 ^ 15" using assms(2) by simp
  then have "2 ^ 15 \<in> set (filter (\<lambda>p. n \<le> p) (map (\<lambda>i. 2 ^ i) [0..<16]))" by (auto intro!: image_eqI [of _ _ 15])
  then obtain p ps where p: "filter (\<lambda>p. n \<le> p) (map (\<lambda>i. 2 ^ i) [0..<16]) = p # ps"
    by (cases "filter (\<lambda>p. n \<le> p) (map (\<lambda>i. 2 ^ i) [0..<16])") auto
  then have "p \<in> set (filter (\<lambda>p. n \<le> p) (map (\<lambda>i. 2 ^ i) [0..<16]))" by simp
  then have "n \<le> p \<and> (\<exists>k < 16. p = 2 ^ k)" by auto
  then obtain k where "k < 16" "p = 2 ^ k" "n \<le> p" by blast
  then show ?thesis using p by (intro exI [of _ k]) (simp add: next_power_of_two_def)
qed

lemma builder_normal_le: "bb_cnt (builder_normal b) \<le> bb_entries (builder_normal b)"
  by (auto simp: builder_normal_def Let_def)

lemma builder_params_spec:
  assumes "builder_params b = Inr b'" and "0 < bb_cnt b'"
  shows "\<exists>k \<le> 15. bb_entries b' = 2 ^ k \<and> bb_cnt b' \<le> 2 ^ k"
proof -
  let ?c = "builder_normal b"
  have b': "bb_entries ?c \<le> push_bit 15 1" "b' = ?c\<lparr>bb_entries := next_power_of_two (bb_entries ?c)\<rparr>"
    using assms(1) unfolding builder_params_def Let_def by (auto simp: not_less split: if_splits)
  have "0 < bb_cnt ?c" using assms(2) b'(2) by simp
  then have pos: "0 < bb_entries ?c" using builder_normal_le [of b] by (rule order_less_le_trans)
  obtain k where "k \<le> 15" "next_power_of_two (bb_entries ?c) = 2 ^ k" "bb_entries ?c \<le> 2 ^ k"
    using next_power_of_two_spec [OF pos b'(1)] by blast
  then show ?thesis using b'(2) builder_normal_le [of b] by (intro exI [of _ k]) (simp add: order_trans)
qed

lemma ring_new_spec:
  assumes "k \<le> 15" and "0 < cnt" and "cnt \<le> 2 ^ k" and "0 < len"
  shows "ring_new True g (2 ^ k) cnt len = Inr (Inr \<lparr> br_bgid = g, br_mask = mask k, br_cnt = cnt, br_len = len,
    br_entries = replicate (2 ^ k) \<lparr> re_buf = 0, re_len = 0, re_bid = 0 \<rparr>, br_tail = 0, br_shared = 0 \<rparr>)"
proof -
  have m: "(2 :: u16) ^ k - 1 = mask k" by (simp add: mask_eq_exp_minus_1)
  have z: "(2 :: u16) ^ k AND mask k = 0"
    by (rule bit_eqI) (auto simp: bit_and_iff bit_exp_iff bit_mask_iff)
  have "(2 :: nat) ^ k < 2 ^ 16" using assms(1) by (intro power_strict_increasing) simp_all
  then have "unat ((2 :: u16) ^ k) = 2 ^ k" using unat_of_nat [where 'a = 16, of "2 ^ k"] by simp
  then show ?thesis using assms z by (auto simp: ring_new_def m)
qed

section \<open>Indices\<close>

lemma ring_index:
  assumes "k \<le> 15"
  shows "unat ((h + of_nat j :: u16) AND mask k) = (unat h + j) mod 2 ^ k"
proof -
  have d: "(2 :: nat) ^ k dvd 2 ^ 16" using assms by (intro le_imp_power_dvd) simp
  have "unat ((h + of_nat j) AND mask k) = unat (take_bit k (h + of_nat j))" by (simp add: take_bit_eq_mask)
  also have "\<dots> = take_bit k (unat (h + of_nat j))" by (rule unsigned_take_bit_eq)
  also have "\<dots> = unat (h + of_nat j) mod 2 ^ k" by (rule take_bit_eq_mod)
  also have "unat (h + of_nat j) = (unat h + j) mod 2 ^ 16" by (simp add: unat_word_ariths unat_of_nat mod_add_right_eq)
  also have "\<dots> mod 2 ^ k = (unat h + j) mod 2 ^ k" using d by (rule mod_mod_cancel)
  finally show ?thesis .
qed

lemma ring_index_inj:
  assumes "k \<le> 15" and "i < 2 ^ k" and "j < 2 ^ k"
    and "unat ((h + of_nat i :: u16) AND mask k) = unat ((h + of_nat j) AND mask k)"
  shows "i = j"
proof -
  have e: "(unat h + i) mod 2 ^ k = (unat h + j) mod 2 ^ k" using assms(4) by (simp add: ring_index [OF assms(1)])
  show ?thesis
  proof (cases "i \<le> j")
    case True
    then have "2 ^ k dvd j - i" using e mod_eq_dvd_iff_nat [of "unat h + i" "unat h + j" "2 ^ k"] by simp
    moreover have "j - i < 2 ^ k" using assms(3) by simp
    ultimately have "\<not> 0 < j - i" using nat_dvd_not_less by blast
    then show ?thesis using True by simp
  next
    case False
    then have "2 ^ k dvd i - j" using e mod_eq_dvd_iff_nat [of "unat h + j" "unat h + i" "2 ^ k"] by simp
    moreover have "i - j < 2 ^ k" using assms(2) by simp
    ultimately have "\<not> 0 < i - j" using nat_dvd_not_less by blast
    then show ?thesis using False by simp
  qed
qed

section \<open>The ring with its users\<close>

text \<open>The kernel's head, and the buffers that were picked and not given back.\<close>

record ring_world =
  rw_ring :: buf_ring
  rw_head :: u16
  rw_held :: "u16 list"

definition ring_window :: "nat \<Rightarrow> ring_world \<Rightarrow> u16 list" where
  "ring_window n w = map (\<lambda>i. re_bid (br_entries (rw_ring w) ! unat ((rw_head w + of_nat i) AND br_mask (rw_ring w)))) [0..<n]"

text \<open>\<open>n\<close> buffers are on offer: every buffer is, once, on offer or held.\<close>

definition ring_inv :: "nat \<Rightarrow> ring_world \<Rightarrow> bool" where
  "ring_inv n w \<longleftrightarrow> (\<exists>k \<le> 15. br_mask (rw_ring w) = mask k \<and> length (br_entries (rw_ring w)) = 2 ^ k \<and>
     unat (br_cnt (rw_ring w)) \<le> 2 ^ k) \<and> br_tail (rw_ring w) = rw_head w + of_nat n \<and>
     distinct (ring_window n w @ rw_held w) \<and>
     set (ring_window n w @ rw_held w) = {b. b < br_cnt (rw_ring w)}"

lemma card_bids: "card {b :: u16. b < c} = unat c"
proof -
  have "unat ` {b :: u16. b < c} = {..<unat c}"
  proof
    show "unat ` {b :: u16. b < c} \<subseteq> {..<unat c}" by (auto simp: word_less_nat_alt)
    show "{..<unat c} \<subseteq> unat ` {b :: u16. b < c}"
    proof
      fix n assume n: "n \<in> {..<unat c}"
      have "unat c < 2 ^ LENGTH(16)" by (rule unsigned_less)
      then have "unat (of_nat n :: u16) = n" using n by (simp add: unat_of_nat)
      then show "n \<in> unat ` {b :: u16. b < c}" using n by (auto simp: word_less_nat_alt intro!: image_eqI [of _ _ "of_nat n"])
    qed
  qed
  moreover have "inj_on unat {b :: u16. b < c}" by (rule inj_onI) (simp add: word_unat_eq_iff)
  ultimately show ?thesis by (metis card_image card_lessThan)
qed

lemma ring_inv_size: "ring_inv n w \<Longrightarrow> n + length (rw_held w) = unat (br_cnt (rw_ring w))"
proof -
  assume inv: "ring_inv n w"
  then have "card (set (ring_window n w @ rw_held w)) = length (ring_window n w @ rw_held w)"
    unfolding ring_inv_def by (metis distinct_card)
  then show ?thesis using inv by (simp add: ring_inv_def card_bids ring_window_def)
qed

lemma ring_push_keeps:
  assumes inv: "ring_inv n w" and b: "b \<in> set (rw_held w)"
  shows "\<exists>r. ring_push b (rw_ring w) = Inr r \<and> ring_inv (Suc n) (w\<lparr>rw_ring := r, rw_held := remove1 b (rw_held w)\<rparr>) \<and>
    ring_window (Suc n) (w\<lparr>rw_ring := r, rw_held := remove1 b (rw_held w)\<rparr>) = ring_window n w @ [b]"
proof -
  let ?r = "rw_ring w" and ?h = "rw_head w"
  obtain k where k: "k \<le> 15" "br_mask ?r = mask k" "length (br_entries ?r) = 2 ^ k" "unat (br_cnt ?r) \<le> 2 ^ k"
    using inv by (auto simp: ring_inv_def)
  have lt: "b < br_cnt ?r" using inv b by (auto simp: ring_inv_def)
  have "0 < length (rw_held w)" using b by (cases "rw_held w") auto
  then have n: "n < 2 ^ k" using ring_inv_size [OF inv] k(4) by linarith
  let ?i = "unat ((?h + of_nat n) AND mask k)"
  let ?e = "\<lparr> re_buf = unat b, re_len = ucast (br_len ?r), re_bid = b \<rparr>"
  define r where "r = ?r\<lparr>br_tail := br_tail ?r + 1, br_entries := (br_entries ?r)[?i := ?e]\<rparr>"
  have tail: "br_tail ?r = ?h + of_nat n" using inv by (simp add: ring_inv_def)
  have push: "ring_push b ?r = Inr r" using lt k(2) tail by (simp add: ring_push_def r_def Let_def)
  let ?w = "w\<lparr>rw_ring := r, rw_held := remove1 b (rw_held w)\<rparr>"
  have i: "?i < 2 ^ k" by (simp add: ring_index [OF k(1)])
  have old: "br_entries r ! unat ((?h + of_nat j) AND mask k) = br_entries ?r ! unat ((?h + of_nat j) AND mask k)" if "j < n" for j
  proof -
    have "?i \<noteq> unat ((?h + of_nat j) AND mask k)" using ring_index_inj [OF k(1) n, of j ?h] that n by auto
    then show ?thesis by (simp add: r_def)
  qed
  have win: "ring_window (Suc n) ?w = ring_window n w @ [b]"
    using old i k(2,3) by (simp add: ring_window_def r_def)
  then have "distinct (ring_window (Suc n) ?w @ rw_held ?w)" and
    "set (ring_window (Suc n) ?w @ rw_held ?w) = set (ring_window n w @ rw_held w)"
    using inv b by (auto simp: ring_inv_def)
  moreover have "br_mask r = mask k" "length (br_entries r) = 2 ^ k" "br_cnt r = br_cnt ?r" "br_tail r = ?h + of_nat (Suc n)"
    using k(2,3) tail by (simp_all add: r_def)
  ultimately have "ring_inv (Suc n) ?w" using inv k(1,4) unfolding ring_inv_def by auto
  then show ?thesis using push win by blast
qed

text \<open>The kernel picks the buffer at its head.\<close>

definition kernel_take :: "ring_world \<Rightarrow> (u16 \<times> ring_world) option" where
  "kernel_take w = (if rw_head w = br_shared (rw_ring w) then None
     else let b = re_bid (br_entries (rw_ring w) ! unat (rw_head w AND br_mask (rw_ring w))) in
       Some (b, w\<lparr>rw_head := rw_head w + 1, rw_held := b # rw_held w\<rparr>))"

lemma kernel_take_keeps:
  assumes inv: "ring_inv (Suc n) w" and sh: "br_shared (rw_ring w) = br_tail (rw_ring w)"
  shows "\<exists>b w'. kernel_take w = Some (b, w') \<and> ring_inv n w' \<and> rw_ring w' = rw_ring w \<and>
    ring_window (Suc n) w = b # ring_window n w' \<and> rw_held w' = b # rw_held w"
proof -
  let ?r = "rw_ring w"
  have "Suc n \<le> unat (br_cnt ?r)" using ring_inv_size [OF inv] by simp
  moreover have "unat (br_cnt ?r) < 2 ^ LENGTH(16)" by (rule unsigned_less)
  ultimately have "unat (of_nat (Suc n) :: u16) = Suc n" by (simp add: unat_of_nat del: of_nat_Suc)
  then have "of_nat (Suc n) \<noteq> (0 :: u16)" by (metis Suc_neq_Zero unat_0)
  then have ne: "rw_head w \<noteq> br_shared ?r" using inv sh by (simp add: ring_inv_def)
  let ?b = "re_bid (br_entries ?r ! unat (rw_head w AND br_mask ?r))"
  let ?w = "w\<lparr>rw_head := rw_head w + 1, rw_held := ?b # rw_held w\<rparr>"
  have win: "ring_window (Suc n) w = ?b # ring_window n ?w"
    by (simp add: ring_window_def upt_conv_Cons [of 0] map_Suc_upt [symmetric] add.assoc del: upt_Suc)
  have "ring_inv n ?w" using inv unfolding ring_inv_def win by auto
  then show ?thesis using ne win by (simp add: kernel_take_def Let_def)
qed

lemma kernel_take_empty: "ring_inv 0 w \<Longrightarrow> br_shared (rw_ring w) = br_tail (rw_ring w) \<Longrightarrow> kernel_take w = None"
  by (simp add: kernel_take_def ring_inv_def)

section \<open>Reachable rings\<close>

lemma push_all_keeps:
  "ring_inv n w \<Longrightarrow> \<exists>r. ring_push_all (rw_held w) (rw_ring w) = Inr r \<and>
     ring_inv (n + length (rw_held w)) (w\<lparr>rw_ring := r, rw_held := []\<rparr>)"
proof (induction "rw_held w" arbitrary: n w)
  case Nil
  then have "w\<lparr>rw_held := []\<rparr> = w" by (cases w) simp
  then show ?case using Nil by (cases w) simp
next
  case (Cons b bs)
  note h = Cons.hyps(2) [symmetric]
  obtain r where r: "ring_push b (rw_ring w) = Inr r" "ring_inv (Suc n) (w\<lparr>rw_ring := r, rw_held := bs\<rparr>)"
    using ring_push_keeps [OF Cons.prems, of b] h by auto
  let ?w = "w\<lparr>rw_ring := r, rw_held := bs\<rparr>"
  obtain r' where r': "ring_push_all bs r = Inr r'" "ring_inv (Suc n + length bs) (w\<lparr>rw_ring := r', rw_held := []\<rparr>)"
    using Cons.hyps(1) [of ?w "Suc n"] r(2) by auto
  then show ?case using h r(1) by simp
qed

lemma sync_keeps: "ring_inv n (w\<lparr>rw_ring := r\<rparr>) \<Longrightarrow> ring_inv n (w\<lparr>rw_ring := ring_sync r\<rparr>)"
  by (simp add: ring_inv_def ring_window_def ring_sync_def)

text \<open>A successful \<open>build\<close> offers every buffer to the kernel.\<close>

lemma build_offers_all:
  assumes "builder_build mmap_ok reg unreg b = Inr (Inr r)"
  shows "\<exists>n. ring_inv n \<lparr> rw_ring = r, rw_head = 0, rw_held = [] \<rparr> \<and> br_shared r = br_tail r"
proof -
  obtain b' where b': "builder_params b = Inr b'" using assms by (auto simp: builder_build_def split: sum.splits)
  obtain r0 where r0: "ring_new mmap_ok (bb_bgid b') (bb_entries b') (bb_cnt b') (bb_len b') = Inr (Inr r0)"
    "ring_register reg r0 = Inr (Inr r)"
    using assms b' by (auto simp: builder_build_def and_then_def simp del: and_then_eq_Inr split: sum.splits)
  have pos: "mmap_ok" "0 < bb_cnt b'" "0 < bb_len b'"
    using r0(1) by (auto simp: ring_new_def assert_that_def word_gt_0 split: if_splits)
  obtain k where k: "k \<le> 15" "bb_entries b' = 2 ^ k" "bb_cnt b' \<le> 2 ^ k" using builder_params_spec [OF b' pos(2)] by blast
  have r0': "r0 = \<lparr> br_bgid = bb_bgid b', br_mask = mask k, br_cnt = bb_cnt b', br_len = bb_len b',
      br_entries = replicate (2 ^ k) \<lparr> re_buf = 0, re_len = 0, re_bid = 0 \<rparr>, br_tail = 0, br_shared = 0 \<rparr>"
    using r0(1) ring_new_spec [OF k(1) pos(2) k(3) pos(3)] pos(1) k(2) by simp
  have "(2 :: nat) ^ k < 2 ^ 16" using k(1) by (intro power_strict_increasing) simp_all
  then have "unat ((2 :: u16) ^ k) = 2 ^ k" using unat_of_nat [where 'a = 16, of "2 ^ k"] by simp
  then have le: "unat (bb_cnt b') \<le> 2 ^ k" using k(3) by (metis word_le_nat_alt)
  let ?w = "\<lparr> rw_ring = r0, rw_head = 0, rw_held = ring_bids r0 \<rparr>"
  have u: "unat (of_nat i :: u16) = i" if "i < unat (bb_cnt b')" for i
  proof -
    have "unat (bb_cnt b') < 2 ^ LENGTH(16)" by (rule unsigned_less)
    then show ?thesis using that by (simp add: unat_of_nat)
  qed
  have "distinct (ring_bids r0)"
    using u by (auto simp: ring_bids_def r0' distinct_map inj_on_def) metis
  moreover have "set (ring_bids r0) = {x. x < bb_cnt b'}"
  proof
    show "set (ring_bids r0) \<subseteq> {x. x < bb_cnt b'}" using u by (auto simp: ring_bids_def r0' word_less_nat_alt)
    show "{x. x < bb_cnt b'} \<subseteq> set (ring_bids r0)"
      by (auto simp: ring_bids_def r0' word_less_nat_alt intro!: image_eqI [of _ _ "unat _"])
  qed
  ultimately have "ring_inv 0 ?w" using k(1) le by (auto simp: ring_inv_def r0' ring_window_def)
  from push_all_keeps [OF this] obtain r1 where r1: "ring_push_all (ring_bids r0) r0 = Inr r1"
    "ring_inv (length (ring_bids r0)) (?w\<lparr>rw_ring := r1, rw_held := []\<rparr>)" by auto
  have "r = ring_sync r1" using r0(2) r1(1) by (auto simp: ring_register_def split: sum.splits)
  then show ?thesis using r1(2) by (intro exI [of _ "length (ring_bids r0)"]) (simp add: ring_inv_def ring_window_def ring_sync_def)
qed

text \<open>The kernel picks buffers, and the users give back the ones they hold.\<close>

inductive ring_reach :: "buf_builder \<Rightarrow> ring_world \<Rightarrow> bool" for b where
  ring_built: "builder_build mmap_ok reg unreg b = Inr (Inr r) \<Longrightarrow> ring_reach b \<lparr> rw_ring = r, rw_head = 0, rw_held = [] \<rparr>"
| ring_picked: "ring_reach b w \<Longrightarrow> kernel_take w = Some (bid, w') \<Longrightarrow> ring_reach b w'"
| ring_given: "ring_reach b w \<Longrightarrow> bid \<in> set (rw_held w) \<Longrightarrow> ring_give_back bid (rw_ring w) = Inr r \<Longrightarrow>
    ring_reach b (w\<lparr>rw_ring := r, rw_held := remove1 bid (rw_held w)\<rparr>)"

lemma ring_reach_inv: "ring_reach b w \<Longrightarrow> \<exists>n. ring_inv n w \<and> br_shared (rw_ring w) = br_tail (rw_ring w)"
proof (induction rule: ring_reach.induct)
  case (ring_built mmap_ok reg unreg r)
  then show ?case using build_offers_all by auto
next
  case (ring_picked w bid w')
  then obtain n where n: "ring_inv n w" "br_shared (rw_ring w) = br_tail (rw_ring w)" by blast
  show ?case
  proof (cases n)
    case 0
    then show ?thesis using n ring_picked.hyps(2) kernel_take_empty by auto
  next
    case (Suc n')
    then show ?thesis using kernel_take_keeps [of n' w] n ring_picked.hyps(2) by auto
  qed
next
  case (ring_given w bid r)
  then obtain n where n: "ring_inv n w" by blast
  obtain r0 where r0: "ring_push bid (rw_ring w) = Inr r0" "ring_inv (Suc n) (w\<lparr>rw_ring := r0, rw_held := remove1 bid (rw_held w)\<rparr>)"
    using ring_push_keeps [OF n ring_given.hyps(2)] by blast
  have r: "r = ring_sync r0" using ring_given.hyps(3) r0(1) by (simp add: ring_give_back_def)
  have "ring_inv (Suc n) (w\<lparr>rw_ring := r, rw_held := remove1 bid (rw_held w)\<rparr>)"
    using r0(2) r by (simp add: ring_inv_def ring_window_def ring_sync_def)
  then show ?case using r by (auto simp: ring_sync_def)
qed

lemma held_can_be_given:
  assumes "ring_reach b w" and "bid \<in> set (rw_held w)"
  shows "\<exists>r. ring_give_back bid (rw_ring w) = Inr r \<and> br_shared r = br_tail r"
proof -
  obtain n where "ring_inv n w" using ring_reach_inv [OF assms(1)] by blast
  from ring_push_keeps [OF this assms(2)] show ?thesis by (auto simp: ring_give_back_def ring_sync_def)
qed

section \<open>Properties\<close>

text \<open>
  C10: in every reachable state each buffer of the ring is exactly once either on offer to the kernel or held by
  a user, across the wrap-around of the 16-bit tail: the kernel never picks a buffer that is held, and giving
  a held buffer back succeeds and offers it last.
\<close>

theorem buffers_exact:
  assumes "ring_reach b w" and "bid \<in> set (rw_held w)"
  shows "\<exists>n r. distinct (ring_window n w @ rw_held w) \<and> set (ring_window n w @ rw_held w) = {x. x < br_cnt (rw_ring w)} \<and>
    (case kernel_take w of None \<Rightarrow> n = 0 | Some (x, w') \<Rightarrow> x \<notin> set (rw_held w) \<and> ring_window n w = x # ring_window (n - 1) w') \<and>
    ring_give_back bid (rw_ring w) = Inr r \<and>
    ring_window (Suc n) (w\<lparr>rw_ring := r, rw_held := remove1 bid (rw_held w)\<rparr>) = ring_window n w @ [bid]"
proof -
  obtain n where n: "ring_inv n w" "br_shared (rw_ring w) = br_tail (rw_ring w)" using ring_reach_inv [OF assms(1)] by blast
  obtain r where r: "ring_push bid (rw_ring w) = Inr r"
    "ring_window (Suc n) (w\<lparr>rw_ring := r, rw_held := remove1 bid (rw_held w)\<rparr>) = ring_window n w @ [bid]"
    using ring_push_keeps [OF n(1) assms(2)] by blast
  have give: "ring_give_back bid (rw_ring w) = Inr (ring_sync r)" using r(1) by (simp add: ring_give_back_def)
  have win: "ring_window (Suc n) (w\<lparr>rw_ring := ring_sync r, rw_held := remove1 bid (rw_held w)\<rparr>) = ring_window n w @ [bid]"
    using r(2) by (simp add: ring_window_def ring_sync_def)
  have tk: "case kernel_take w of None \<Rightarrow> n = 0
    | Some (x, w') \<Rightarrow> x \<notin> set (rw_held w) \<and> ring_window n w = x # ring_window (n - 1) w'"
  proof (cases n)
    case 0
    then show ?thesis using kernel_take_empty n by simp
  next
    case (Suc n')
    then obtain x w' where "kernel_take w = Some (x, w')" "ring_window (Suc n') w = x # ring_window n' w'"
      using kernel_take_keeps [of n' w] n by blast
    then show ?thesis using n(1) Suc by (auto simp: ring_inv_def)
  qed
  show ?thesis using n(1) give win tk unfolding ring_inv_def by blast
qed

definition small_ring :: buf_ring where
  "small_ring = (case builder_build True (Inr ()) (Inr ()) (builder_buf_cnt 3 (builder_ring_entries 4 (builder_new 1))) of
     Inr (Inr r) \<Rightarrow> r | _ \<Rightarrow> \<lparr> br_bgid = 0, br_mask = 0, br_cnt = 0, br_len = 0, br_entries = [], br_tail = 0, br_shared = 0 \<rparr>)"

theorem buffers_exact_witness:
  "\<exists>w r. kernel_take \<lparr> rw_ring = small_ring, rw_head = 0, rw_held = [] \<rparr> = Some (0, w) \<and> rw_held w = [0] \<and>
    ring_give_back 0 (rw_ring w) = Inr r \<and>
    ring_window 3 (w\<lparr>rw_ring := r, rw_held := remove1 0 (rw_held w)\<rparr>) = [1, 2, 0]"
proof -
  let ?b = "builder_buf_cnt 3 (builder_ring_entries 4 (builder_new 1))"
  let ?w = "\<lparr> rw_ring = small_ring, rw_head = 1, rw_held = [0] \<rparr>"
  have "builder_build True (Inr ()) (Inr ()) ?b = Inr (Inr small_ring)" by code_simp
  from ring_built [OF this] have i: "ring_reach ?b \<lparr> rw_ring = small_ring, rw_head = 0, rw_held = [] \<rparr>" .
  have t: "kernel_take \<lparr> rw_ring = small_ring, rw_head = 0, rw_held = [] \<rparr> = Some (0, ?w)" by code_simp
  have h: "0 \<in> set (rw_held ?w)" by simp
  obtain n r where n: "set (ring_window n ?w @ rw_held ?w) = {x. x < br_cnt (rw_ring ?w)}" "distinct (ring_window n ?w @ rw_held ?w)"
    "ring_give_back 0 (rw_ring ?w) = Inr r"
    "ring_window (Suc n) (?w\<lparr>rw_ring := r, rw_held := remove1 0 (rw_held ?w)\<rparr>) = ring_window n ?w @ [0]"
    using buffers_exact [OF ring_picked [OF i t] h] by blast
  have c: "br_cnt (rw_ring ?w) = 3" by code_simp
  have "card (set (ring_window n ?w @ rw_held ?w)) = n + 1" using distinct_card [OF n(2)] by (simp add: ring_window_def)
  then have "n + 1 = unat (3 :: u16)" using n(1) card_bids [of 3] c by simp
  then have "n = 2" by simp
  moreover have "ring_window 2 ?w = [1, 2]" by code_simp
  ultimately show ?thesis using t n(3,4) by (simp add: numeral_3_eq_3)
qed

text \<open>
  A ring that cannot be registered makes \<open>build\<close> panic instead of returning the error: the ring that was
  not registered is dropped, and its drop unwraps the error of unregistering it.
\<close>

theorem failed_registration_panics:
  assumes "builder_params b = Inr b'" and "0 < bb_cnt b'" and "0 < bb_len b'"
  shows "builder_build True (Inl e) (Inl e') b = Inl Panic"
proof -
  obtain k where k: "k \<le> 15" "bb_entries b' = 2 ^ k" "bb_cnt b' \<le> 2 ^ k" using builder_params_spec [OF assms(1,2)] by blast
  show ?thesis
    using assms(1) k(2) ring_new_spec [OF k(1) assms(2) k(3) assms(3)]
    by (simp add: builder_build_def ring_register_def ring_drop_def)
qed

theorem failed_registration_panics_witness: "builder_build True (Inl 22) (Inl 2) (builder_new 1) = Inl Panic"
proof -
  have "builder_params (builder_new 1) = Inr \<lparr> bb_bgid = 1, bb_entries = 128, bb_cnt = 128, bb_len = 4096 \<rparr>" by code_simp
  from failed_registration_panics [OF this, of 22 2] show ?thesis by simp
qed

end
