(* ===== verification/Net_Requests.thy ===== *)
theory Net_Requests
  imports Requests Operation_Life Buf_Ring
begin

text \<open>
  The sockets of \<open>norn-uring/src/net\<close>: the requests of \<open>socket.rs\<close>, each with its data, the entry it
  is configured to and what it makes of its completion, and the operations of \<open>tcp.rs\<close> and \<open>udp.rs\<close> that are made
  of them. A socket is read through the kind of its descriptor. The crate \<open>socket2\<close> and the calls of the
  system that are made through it are arguments.
\<close>

section \<open>Addresses\<close>

text \<open>\<open>SockAddr\<close>: made from an address, read as one (\<open>as_socket\<close>), and the storage \<open>try_init\<close> gives.\<close>

record 'a socket_addrs =
  sa_from :: "'a \<Rightarrow> sock_addr"
  sa_as :: "sock_addr \<Rightarrow> 'a option"
  sa_init :: sock_addr

definition sock_len :: "sock_addr \<Rightarrow> u32" where
  "sock_len a = of_nat (length a)"

text \<open>\<open>as_socket().unwrap()\<close>.\<close>

definition addr_of :: "'a socket_addrs \<Rightarrow> sock_addr \<Rightarrow> fault + 'a" where
  "addr_of A a = (case sa_as A a of None \<Rightarrow> Inl Panic | Some x \<Rightarrow> Inr x)"

section \<open>Opening a socket\<close>

record open_socket_op =
  os_domain :: i32
  os_type :: i32
  os_protocol :: "i32 option"

definition open_socket_configure :: "libc \<Rightarrow> open_socket_op \<Rightarrow> sqe" where
  "open_socket_configure L q = sqe_build (Sqe_Socket (os_domain q)
     (or (or (os_type q) (SOCK_NONBLOCK L)) (SOCK_CLOEXEC L)) (case os_protocol q of None \<Rightarrow> 0 | Some p \<Rightarrow> p))"

definition open_socket_cleanup :: "env \<Rightarrow> cqe_result \<Rightarrow> fd_kind list" where
  "open_socket_cleanup C r = fd_cleanup C r"

definition open_socket_complete :: "env \<Rightarrow> cqe_result \<Rightarrow> io_error + norn_fd" where
  "open_socket_complete C r = fd_result C r"

text \<open>
  \<open>as_socket\<close> is not implemented for fixed descriptors. A socket that was opened for an operation that then fails is
  dropped: the close requests of its drop.
\<close>

definition as_socket :: "norn_fd \<Rightarrow> fault + i32" where
  "as_socket s = (case nf_kind s of Fd_Regular n \<Rightarrow> Inr n | Fd_Fixed _ \<Rightarrow> Inl Panic)"

definition drop_socket :: "env \<Rightarrow> norn_fd \<Rightarrow> fd_kind list" where
  "drop_socket C s = (case fd_drop C s of Some (Inr s) \<Rightarrow> nf_requests s | _ \<Rightarrow> [])"

definition keep_or_drop :: "env \<Rightarrow> i32 + unit \<Rightarrow> norn_fd \<Rightarrow> (io_error + norn_fd) \<times> fd_kind list" where
  "keep_or_drop C r s = (case r of Inl e \<Rightarrow> (Inl (Os_Error e), drop_socket C s) | Inr _ \<Rightarrow> (Inr s, []))"

text \<open>
  \<open>Socket::bind\<close>, \<open>TcpListener::bind\<close> and \<open>TcpSocket::connect\<close> after their socket was opened with the
  result \<open>r\<close>: the results of \<open>bind\<close>, \<open>listen\<close> and of the request to connect are the arguments.
\<close>

definition socket_bind :: "env \<Rightarrow> cqe_result \<Rightarrow> i32 + unit \<Rightarrow> fault + ((io_error + norn_fd) \<times> fd_kind list)" where
  "socket_bind C r bound = (case open_socket_complete C r of
     Inl e \<Rightarrow> Inr (Inl e, [])
   | Inr s \<Rightarrow> and_then (as_socket s) (\<lambda>_. Inr (keep_or_drop C bound s)))"

definition listener_bind ::
  "env \<Rightarrow> cqe_result \<Rightarrow> i32 + unit \<Rightarrow> i32 + unit \<Rightarrow> fault + ((io_error + norn_fd) \<times> fd_kind list)"
where
  "listener_bind C r bound listening =
     and_then (socket_bind C r bound) (\<lambda>(q, closes). case q of
         Inl e \<Rightarrow> Inr (Inl e, closes)
       | Inr s \<Rightarrow> and_then (as_socket s) (\<lambda>_.
           let (q, more_closes) = keep_or_drop C listening s in Inr (q, closes @ more_closes)))"

definition tcp_connect :: "env \<Rightarrow> cqe_result \<Rightarrow> i32 + unit \<Rightarrow> (io_error + norn_fd) \<times> fd_kind list" where
  "tcp_connect C r connected = (case open_socket_complete C r of
     Inl e \<Rightarrow> (Inl e, [])
   | Inr s \<Rightarrow> keep_or_drop C connected s)"

section \<open>Datagrams\<close>

record 'b send_to_op =
  st_fd :: fd_kind
  st_buf :: 'b
  st_addr :: "sock_addr option"

definition send_to_new :: "'a socket_addrs \<Rightarrow> fd_kind \<Rightarrow> 'b \<Rightarrow> 'a option \<Rightarrow> 'b send_to_op" where
  "send_to_new A k b a = \<lparr> st_fd = k, st_buf = b, st_addr = map_option (sa_from A) a \<rparr>"

definition send_to_configure :: "'b stable_buf \<Rightarrow> 'b send_to_op \<Rightarrow> fault + sqe" where
  "send_to_configure B q =
     and_then (sb_ptr B (st_buf q)) (\<lambda>p.
     and_then (sb_init B (st_buf q)) (\<lambda>n.
     Inr (sqe_build (Sqe_Send_Msg (st_fd q) \<lparr> mh_iov = [(p, n)], mh_name = st_addr q \<rparr>))))"

definition send_to_complete :: "'b send_to_op \<Rightarrow> cqe_result \<Rightarrow> (io_error + usize) \<times> 'b" where
  "send_to_complete q r = (size_result r, st_buf q)"

text \<open>The kernel writes the address of the sender into the storage of the request.\<close>

record 'b recv_from_op =
  rf_fd :: fd_kind
  rf_buf :: 'b
  rf_addr :: sock_addr

definition recv_from_new :: "'a socket_addrs \<Rightarrow> fd_kind \<Rightarrow> 'b \<Rightarrow> 'b recv_from_op" where
  "recv_from_new A k b = \<lparr> rf_fd = k, rf_buf = b, rf_addr = sa_init A \<rparr>"

definition recv_from_configure :: "'b stable_buf_mut \<Rightarrow> 'b recv_from_op \<Rightarrow> sqe" where
  "recv_from_configure M q = sqe_build (Sqe_Recv_Msg (rf_fd q)
     \<lparr> mh_iov = [(sm_ptr M (rf_buf q), sm_remaining M (rf_buf q))], mh_name = Some (rf_addr q) \<rparr>)"

definition recv_from_complete ::
  "'a socket_addrs \<Rightarrow> 'b stable_buf_mut \<Rightarrow> 'b recv_from_op \<Rightarrow> cqe_result \<Rightarrow> fault + ((io_error + (usize \<times> 'a)) \<times> 'b)"
where
  "recv_from_complete A M q r = (case size_result r of
     Inr n \<Rightarrow> and_then (addr_of A (rf_addr q)) (\<lambda>a. Inr (Inr (n, a), sm_set_init M n (rf_buf q)))
   | Inl e \<Rightarrow> Inr (Inl e, rf_buf q))"

text \<open>
  A receive into a buffer the kernel picks from a ring, which the request shares; \<open>sel\<close> is
  \<open>cqueue::buffer_select\<close>. The buffer of a completion nobody waits for is dropped.
\<close>

record recv_ring_op =
  rr_fd :: fd_kind
  rr_addr :: sock_addr

definition recv_ring_new :: "'a socket_addrs \<Rightarrow> fd_kind \<Rightarrow> recv_ring_op" where
  "recv_ring_new A k = \<lparr> rr_fd = k, rr_addr = sa_init A \<rparr>"

definition recv_ring_configure :: "buf_ring \<Rightarrow> recv_ring_op \<Rightarrow> sqe" where
  "recv_ring_configure g q = (sqe_build (Sqe_Recv_Msg (rr_fd q) \<lparr> mh_iov = [], mh_name = Some (rr_addr q) \<rparr>))
     \<lparr>sq_buf_group := Some (br_bgid g)\<rparr>"

definition recv_ring_cleanup :: "(u32 \<Rightarrow> u16 option) \<Rightarrow> buf_ring \<Rightarrow> cqe_result \<Rightarrow> fault + buf_ring" where
  "recv_ring_cleanup sel g r = (case cr_result r of
     Inl _ \<Rightarrow> Inr g
   | Inr n \<Rightarrow> and_then (ring_get_buf sel g n (cr_flags r)) (\<lambda>(bid, _). ring_give_back bid g))"

definition recv_ring_complete ::
  "(u32 \<Rightarrow> u16 option) \<Rightarrow> 'a socket_addrs \<Rightarrow> buf_ring \<Rightarrow> recv_ring_op \<Rightarrow> cqe_result
   \<Rightarrow> fault + (io_error + ((u16 \<times> usize) \<times> 'a))"
where
  "recv_ring_complete sel A g q r = (case cr_result r of
     Inl e \<Rightarrow> Inr (Inl (Os_Error e))
   | Inr n \<Rightarrow> and_then (ring_get_buf sel g n (cr_flags r)) (\<lambda>b. and_then (addr_of A (rr_addr q)) (\<lambda>a. Inr (Inr (b, a)))))"

section \<open>Connections\<close>

record accept_op =
  ac_fd :: fd_kind
  ac_addr :: sock_addr

definition accept_new :: "'a socket_addrs \<Rightarrow> fd_kind \<Rightarrow> accept_op" where
  "accept_new A k = \<lparr> ac_fd = k, ac_addr = sa_init A \<rparr>"

definition accept_configure :: "libc \<Rightarrow> bool \<Rightarrow> accept_op \<Rightarrow> sqe" where
  "accept_configure L multi q = sqe_build (Sqe_Accept (ac_fd q)
     (if multi then None else Some (ac_addr q, sock_len (ac_addr q))) (O_NONBLOCK L))"

definition accept_cleanup :: "env \<Rightarrow> cqe_result \<Rightarrow> fd_kind list" where
  "accept_cleanup C r = fd_cleanup C r"

definition accept_complete :: "env \<Rightarrow> 'a socket_addrs \<Rightarrow> accept_op \<Rightarrow> cqe_result \<Rightarrow> fault + (io_error + (norn_fd \<times> 'a))" where
  "accept_complete C A q r = (case cr_result r of
     Inl e \<Rightarrow> Inr (Inl (Os_Error e))
   | Inr n \<Rightarrow> and_then (addr_of A (ac_addr q)) (\<lambda>a. Inr (Inr (fd_from_raw C n, a))))"

definition accept_update :: "env \<Rightarrow> cqe_result \<Rightarrow> io_error + norn_fd" where
  "accept_update C r = fd_result C r"

record connect_op =
  co_fd :: fd_kind
  co_addr :: sock_addr

definition connect_new :: "'a socket_addrs \<Rightarrow> fd_kind \<Rightarrow> 'a \<Rightarrow> connect_op" where
  "connect_new A k a = \<lparr> co_fd = k, co_addr = sa_from A a \<rparr>"

definition connect_configure :: "connect_op \<Rightarrow> sqe" where
  "connect_configure q = sqe_build (Sqe_Connect (co_fd q) (co_addr q))"

text \<open>The cleanup takes the result for a descriptor.\<close>

definition connect_cleanup :: "env \<Rightarrow> cqe_result \<Rightarrow> fd_kind list" where
  "connect_cleanup C r = fd_cleanup C r"

definition connect_complete :: "cqe_result \<Rightarrow> io_error + unit" where
  "connect_complete r = unit_result r"

datatype shutdown_how = Shutdown_Read | Shutdown_Write | Shutdown_Both

record shutdown_op =
  sh_fd :: fd_kind
  sh_how :: i32

definition socket_shutdown :: "libc \<Rightarrow> fd_kind \<Rightarrow> shutdown_how \<Rightarrow> shutdown_op" where
  "socket_shutdown L k how = \<lparr> sh_fd = k,
     sh_how = (case how of Shutdown_Read \<Rightarrow> SHUT_RD L | Shutdown_Write \<Rightarrow> SHUT_WR L | Shutdown_Both \<Rightarrow> SHUT_RDWR L) \<rparr>"

definition shutdown_configure :: "shutdown_op \<Rightarrow> sqe" where
  "shutdown_configure q = sqe_build (Sqe_Shutdown (sh_fd q) (sh_how q))"

definition shutdown_complete :: "cqe_result \<Rightarrow> io_error + unit" where
  "shutdown_complete r = unit_result r"

section \<open>Streams of bytes\<close>

record 'b recv_op =
  rv_fd :: fd_kind
  rv_buf :: 'b

definition recv_new :: "fd_kind \<Rightarrow> 'b \<Rightarrow> 'b recv_op" where
  "recv_new k b = \<lparr> rv_fd = k, rv_buf = b \<rparr>"

definition recv_configure :: "'b stable_buf_mut \<Rightarrow> 'b recv_op \<Rightarrow> sqe" where
  "recv_configure M q = sqe_build (Sqe_Recv (rv_fd q) (sm_ptr M (rv_buf q)) (ucast (sm_remaining M (rv_buf q))))"

definition recv_complete :: "'b stable_buf_mut \<Rightarrow> 'b recv_op \<Rightarrow> cqe_result \<Rightarrow> (io_error + usize) \<times> 'b" where
  "recv_complete M q r = (case size_result r of
     Inr n \<Rightarrow> (Inr n, sm_set_init M n (rv_buf q))
   | Inl e \<Rightarrow> (Inl e, rv_buf q))"

record 'b send_op =
  sn_fd :: fd_kind
  sn_buf :: 'b

definition send_new :: "fd_kind \<Rightarrow> 'b \<Rightarrow> 'b send_op" where
  "send_new k b = \<lparr> sn_fd = k, sn_buf = b \<rparr>"

definition send_configure :: "'b stable_buf \<Rightarrow> 'b send_op \<Rightarrow> fault + sqe" where
  "send_configure B q =
     and_then (sb_ptr B (sn_buf q)) (\<lambda>p.
     and_then (sb_init B (sn_buf q)) (\<lambda>n. Inr (sqe_build (Sqe_Send (sn_fd q) p (ucast n)))))"

definition send_complete :: "'b send_op \<Rightarrow> cqe_result \<Rightarrow> (io_error + usize) \<times> 'b" where
  "send_complete q r = (size_result r, sn_buf q)"

section \<open>Readiness\<close>

record poll_sock_op =
  po_fd :: fd_kind
  po_events :: u32

definition poll_sock_new :: "fd_kind \<Rightarrow> u32 \<Rightarrow> poll_sock_op" where
  "poll_sock_new k ev = \<lparr> po_fd = k, po_events = ev \<rparr>"

definition poll_sock_configure :: "bool \<Rightarrow> poll_sock_op \<Rightarrow> sqe" where
  "poll_sock_configure multi q = sqe_build (Sqe_Poll_Add (po_fd q) (po_events q) multi)"

record event =
  ev_events :: i16

definition event_new :: "i16 \<Rightarrow> event" where
  "event_new e = \<lparr> ev_events = e \<rparr>"

definition poll_sock_update :: "cqe_result \<Rightarrow> io_error + event" where
  "poll_sock_update r = (case cr_result r of Inl e \<Rightarrow> Inl (Os_Error e) | Inr n \<Rightarrow> Inr (event_new (ucast n)))"

definition poll_sock_complete :: "cqe_result \<Rightarrow> io_error + event" where
  "poll_sock_complete r = (case cr_result r of Inl e \<Rightarrow> Inl (Os_Error e) | Inr n \<Rightarrow> Inr (event_new (ucast n)))"

definition common_flags :: "libc \<Rightarrow> i16" where
  "common_flags L = or (or (POLLERR L) (POLLHUP L)) (POLLNVAL L)"

definition read_flags :: "libc \<Rightarrow> i16" where
  "read_flags L = or (POLLIN L) (POLLPRI L)"

definition write_flags :: "libc \<Rightarrow> i16" where
  "write_flags L = POLLOUT L"

definition READ_FLAGS :: "libc \<Rightarrow> i16" where
  "READ_FLAGS L = or (read_flags L) (common_flags L)"

definition WRITE_FLAGS :: "libc \<Rightarrow> i16" where
  "WRITE_FLAGS L = or (write_flags L) (common_flags L)"

definition is_readable :: "libc \<Rightarrow> event \<Rightarrow> bool" where
  "is_readable L e \<longleftrightarrow> and (ev_events e) (POLLIN L) \<noteq> 0 \<or> and (ev_events e) (POLLPRI L) \<noteq> 0"

definition is_writeable :: "libc \<Rightarrow> event \<Rightarrow> bool" where
  "is_writeable L e \<longleftrightarrow> and (ev_events e) (POLLOUT L) \<noteq> 0"

definition is_error :: "libc \<Rightarrow> event \<Rightarrow> bool" where
  "is_error L e \<longleftrightarrow> and (ev_events e) (POLLERR L) \<noteq> 0"

definition is_read_closed :: "libc \<Rightarrow> event \<Rightarrow> bool" where
  "is_read_closed L e \<longleftrightarrow> and (ev_events e) (POLLHUP L) \<noteq> 0 \<or> and (ev_events e) (POLLRDHUP L) \<noteq> 0"

definition is_write_closed :: "libc \<Rightarrow> event \<Rightarrow> bool" where
  "is_write_closed L e \<longleftrightarrow> and (ev_events e) (POLLHUP L) \<noteq> 0 \<or>
     (and (ev_events e) (POLLOUT L) \<noteq> 0 \<and> and (ev_events e) (POLLERR L) \<noteq> 0) \<or> ev_events e = POLLERR L"

definition is_priority :: "libc \<Rightarrow> event \<Rightarrow> bool" where
  "is_priority L e \<longleftrightarrow> and (ev_events e) (POLLPRI L) \<noteq> 0"

section \<open>The operations\<close>

text \<open>
  The operations that make descriptors, with their late descriptors; \<open>mo\<close> is \<open>cqueue::more\<close>. The stream of
  accepted connections has no \<open>Singleshot\<close>, so that the function of that trait is not called; the one-shot
  operations have no items.
\<close>

definition accept_multi_class :: "env \<Rightarrow> (u32 \<Rightarrow> bool) \<Rightarrow> bool \<Rightarrow> (accept_op late, unit, io_error + norn_fd) op_class" where
  "accept_multi_class C mo dbg = \<lparr> cl_cleanup = late_cleanup (\<lambda>_. accept_cleanup C), cl_complete = (\<lambda>_ _. ()),
     cl_update = (\<lambda>d _. Inr d), cl_item = (\<lambda>d r. Inr (accept_update C r, d)), cl_more = mo, cl_debug = dbg \<rparr>"

definition accept_class ::
  "env \<Rightarrow> 'a socket_addrs \<Rightarrow> (u32 \<Rightarrow> bool) \<Rightarrow> bool \<Rightarrow> (accept_op late, fault + (io_error + (norn_fd \<times> 'a)), unit) op_class"
where
  "accept_class C A mo dbg = \<lparr> cl_cleanup = late_cleanup (\<lambda>_. accept_cleanup C), cl_complete = (\<lambda>d. accept_complete C A (lt_op d)),
     cl_update = default_update, cl_item = (\<lambda>d _. Inr ((), d)), cl_more = mo, cl_debug = dbg \<rparr>"

definition connect_class :: "env \<Rightarrow> (u32 \<Rightarrow> bool) \<Rightarrow> bool \<Rightarrow> (connect_op late, io_error + unit, unit) op_class" where
  "connect_class C mo dbg = \<lparr> cl_cleanup = late_cleanup (\<lambda>_. connect_cleanup C), cl_complete = (\<lambda>_. connect_complete),
     cl_update = default_update, cl_item = (\<lambda>d _. Inr ((), d)), cl_more = mo, cl_debug = dbg \<rparr>"

end
