(* ===== verification/Fs_Requests.thy ===== *)
theory Fs_Requests
  imports Requests Operation_Life
begin

text \<open>
  The files of \<open>norn-uring/src/fs\<close>: the options a file is opened with (\<open>opts.rs\<close>), the requests on files
  (\<open>file.rs\<close>) and on directories (\<open>dir.rs\<close>). Each request has its data, the entry it is configured to, and
  what it makes of its completion. The descriptor of a request is a clone of the descriptor of its file, whose kind is
  all it reads of it.
\<close>

section \<open>Options\<close>

record open_options =
  oo_read :: bool
  oo_write :: bool
  oo_append :: bool
  oo_truncate :: bool
  oo_create :: bool
  oo_create_new :: bool
  oo_direct :: bool
  oo_sync :: bool
  oo_dsync :: bool

definition options_new :: open_options where
  "options_new = \<lparr> oo_read = False, oo_write = False, oo_append = False, oo_truncate = False, oo_create = False,
     oo_create_new = False, oo_direct = False, oo_sync = False, oo_dsync = False \<rparr>"

definition set_read :: "bool \<Rightarrow> open_options \<Rightarrow> open_options" where "set_read b o' = o'\<lparr>oo_read := b\<rparr>"
definition set_write :: "bool \<Rightarrow> open_options \<Rightarrow> open_options" where "set_write b o' = o'\<lparr>oo_write := b\<rparr>"
definition set_append :: "bool \<Rightarrow> open_options \<Rightarrow> open_options" where "set_append b o' = o'\<lparr>oo_append := b\<rparr>"
definition set_truncate :: "bool \<Rightarrow> open_options \<Rightarrow> open_options" where "set_truncate b o' = o'\<lparr>oo_truncate := b\<rparr>"
definition set_create :: "bool \<Rightarrow> open_options \<Rightarrow> open_options" where "set_create b o' = o'\<lparr>oo_create := b\<rparr>"
definition set_create_new :: "bool \<Rightarrow> open_options \<Rightarrow> open_options" where "set_create_new b o' = o'\<lparr>oo_create_new := b\<rparr>"
definition set_direct :: "bool \<Rightarrow> open_options \<Rightarrow> open_options" where "set_direct b o' = o'\<lparr>oo_direct := b\<rparr>"
definition set_sync :: "bool \<Rightarrow> open_options \<Rightarrow> open_options" where "set_sync b o' = o'\<lparr>oo_sync := b\<rparr>"
definition set_dsync :: "bool \<Rightarrow> open_options \<Rightarrow> open_options" where "set_dsync b o' = o'\<lparr>oo_dsync := b\<rparr>"

definition access_base :: "libc \<Rightarrow> open_options \<Rightarrow> io_error + i32" where
  "access_base L o' = (case (oo_read o', oo_write o', oo_append o') of
     (True, False, False) \<Rightarrow> Inr (O_RDONLY L)
   | (False, True, False) \<Rightarrow> Inr (O_WRONLY L)
   | (True, True, False) \<Rightarrow> Inr (O_RDWR L)
   | (False, _, True) \<Rightarrow> Inr (or (O_WRONLY L) (O_APPEND L))
   | (True, _, True) \<Rightarrow> Inr (or (O_RDWR L) (O_APPEND L))
   | (False, False, False) \<Rightarrow> Inl (Os_Error (EINVAL L)))"

definition get_access_mode :: "libc \<Rightarrow> open_options \<Rightarrow> io_error + i32" where
  "get_access_mode L o' = (case access_base L o' of
     Inl e \<Rightarrow> Inl e
   | Inr m \<Rightarrow>
       let m = (if oo_direct o' then or m (O_DIRECT L) else m);
           m = (if oo_sync o' then or m (O_SYNC L) else m);
           m = (if oo_dsync o' then or m (O_DSYNC L) else m)
       in Inr m)"

definition creation_refused :: "open_options \<Rightarrow> bool" where
  "creation_refused o' = (case (oo_write o', oo_append o') of
     (True, False) \<Rightarrow> False
   | (False, False) \<Rightarrow> oo_truncate o' \<or> oo_create o' \<or> oo_create_new o'
   | (_, True) \<Rightarrow> oo_truncate o' \<and> \<not> oo_create_new o')"

definition get_creation_mode :: "libc \<Rightarrow> open_options \<Rightarrow> io_error + i32" where
  "get_creation_mode L o' =
     (if creation_refused o' then Inl (Os_Error (EINVAL L))
      else Inr (case (oo_create o', oo_truncate o', oo_create_new o') of
         (False, False, False) \<Rightarrow> 0
       | (True, False, False) \<Rightarrow> O_CREAT L
       | (False, True, False) \<Rightarrow> O_TRUNC L
       | (True, True, False) \<Rightarrow> or (O_CREAT L) (O_TRUNC L)
       | (_, _, True) \<Rightarrow> or (O_CREAT L) (O_EXCL L)))"

section \<open>Opening a file\<close>

record open_op =
  op_path :: path_bytes
  op_access :: i32
  op_creation :: i32

definition open_op_new :: "libc \<Rightarrow> u8 list \<Rightarrow> i32 \<Rightarrow> i32 \<Rightarrow> io_error + open_op" where
  "open_op_new L p a c = (case path_cstring L p of
     Inl e \<Rightarrow> Inl e | Inr s \<Rightarrow> Inr \<lparr> op_path = s, op_access = a, op_creation = c \<rparr>)"

text \<open>The mode of the new file is not set: it stays 0.\<close>

definition open_configure :: "libc \<Rightarrow> open_op \<Rightarrow> sqe" where
  "open_configure L q = sqe_build (Sqe_Open_At (AT_FDCWD L) (op_path q) (or (or (op_access q) (op_creation q)) (O_CLOEXEC L)) 0)"

definition open_cleanup :: "env \<Rightarrow> cqe_result \<Rightarrow> fd_kind list" where
  "open_cleanup C r = fd_cleanup C r"

definition open_complete :: "env \<Rightarrow> cqe_result \<Rightarrow> io_error + norn_fd" where
  "open_complete C r = fd_result C r"

definition file_open :: "libc \<Rightarrow> u8 list \<Rightarrow> open_options \<Rightarrow> io_error + open_op" where
  "file_open L p o' = (case get_access_mode L o' of
     Inl e \<Rightarrow> Inl e
   | Inr a \<Rightarrow> (case get_creation_mode L o' of
       Inl e \<Rightarrow> Inl e
     | Inr c \<Rightarrow> open_op_new L p a c))"

definition file_open_read :: "libc \<Rightarrow> u8 list \<Rightarrow> io_error + open_op" where
  "file_open_read L p = file_open L p (set_read True options_new)"

text \<open>The operation \<open>Open\<close> with its late descriptors; \<open>mo\<close> is \<open>cqueue::more\<close>.\<close>

definition open_class :: "env \<Rightarrow> (u32 \<Rightarrow> bool) \<Rightarrow> bool \<Rightarrow> (open_op late, io_error + norn_fd, unit) op_class" where
  "open_class C mo dbg = \<lparr> cl_cleanup = late_cleanup (\<lambda>_. open_cleanup C), cl_complete = (\<lambda>_. open_complete C),
     cl_update = default_update, cl_item = (\<lambda>d _. Inr ((), d)), cl_more = mo, cl_debug = dbg \<rparr>"

section \<open>Reading and writing\<close>

record 'b read_op =
  rd_fd :: fd_kind
  rd_buf :: 'b
  rd_offset :: u64

definition read_op_new :: "fd_kind \<Rightarrow> 'b \<Rightarrow> u64 \<Rightarrow> 'b read_op" where
  "read_op_new k b off = \<lparr> rd_fd = k, rd_buf = b, rd_offset = off \<rparr>"

definition read_configure :: "'b stable_buf_mut \<Rightarrow> 'b read_op \<Rightarrow> sqe" where
  "read_configure M q = sqe_build (Sqe_Read (rd_fd q) (sm_ptr M (rd_buf q)) (ucast (sm_remaining M (rd_buf q))) (rd_offset q))"

definition read_complete :: "'b stable_buf_mut \<Rightarrow> 'b read_op \<Rightarrow> cqe_result \<Rightarrow> (io_error + usize) \<times> 'b" where
  "read_complete M q r = (case size_result r of
     Inr n \<Rightarrow> (Inr n, sm_set_init M n (rd_buf q))
   | Inl e \<Rightarrow> (Inl e, rd_buf q))"

record 'b write_op =
  wr_fd :: fd_kind
  wr_buf :: 'b
  wr_offset :: u64

definition write_op_new :: "fd_kind \<Rightarrow> 'b \<Rightarrow> u64 \<Rightarrow> 'b write_op" where
  "write_op_new k b off = \<lparr> wr_fd = k, wr_buf = b, wr_offset = off \<rparr>"

definition write_configure :: "'b stable_buf \<Rightarrow> 'b write_op \<Rightarrow> fault + sqe" where
  "write_configure B q =
     and_then (sb_ptr B (wr_buf q)) (\<lambda>p.
     and_then (sb_init B (wr_buf q)) (\<lambda>n.
     Inr (sqe_build (Sqe_Write (wr_fd q) p (ucast n) (wr_offset q)))))"

definition write_complete :: "'b write_op \<Rightarrow> cqe_result \<Rightarrow> (io_error + usize) \<times> 'b" where
  "write_complete q r = (size_result r, wr_buf q)"

section \<open>Syncing and allocating\<close>

record sync_op =
  sy_fd :: fd_kind
  sy_data_only :: bool \<comment> \<open>\<open>FsyncFlags::DATASYNC\<close>\<close>

definition sync_op_new :: "fd_kind \<Rightarrow> bool \<Rightarrow> sync_op" where
  "sync_op_new k d = \<lparr> sy_fd = k, sy_data_only = d \<rparr>"

definition sync_configure :: "sync_op \<Rightarrow> sqe" where
  "sync_configure q = sqe_build (Sqe_Fsync (sy_fd q) (sy_data_only q))"

definition sync_complete :: "cqe_result \<Rightarrow> io_error + unit" where
  "sync_complete r = unit_result r"

definition file_sync :: "fd_kind \<Rightarrow> sync_op" where "file_sync k = sync_op_new k False"
definition file_datasync :: "fd_kind \<Rightarrow> sync_op" where "file_datasync k = sync_op_new k True"

record sync_range_op =
  sr_fd :: fd_kind
  sr_offset :: u64
  sr_len :: u32
  sr_flags :: u32

definition sync_range_new :: "fd_kind \<Rightarrow> u64 \<Rightarrow> u32 \<Rightarrow> u32 \<Rightarrow> sync_range_op" where
  "sync_range_new k off n fl = \<lparr> sr_fd = k, sr_offset = off, sr_len = n, sr_flags = fl \<rparr>"

definition sync_range_configure :: "sync_range_op \<Rightarrow> sqe" where
  "sync_range_configure q = sqe_build (Sqe_Sync_Range (sr_fd q) (sr_len q) (sr_offset q) (sr_flags q))"

definition sync_range_complete :: "cqe_result \<Rightarrow> io_error + unit" where
  "sync_range_complete r = unit_result r"

record fallocate_op =
  fa_fd :: fd_kind
  fa_offset :: u64
  fa_len :: u64
  fa_mode :: i32

definition fallocate_new :: "fd_kind \<Rightarrow> u64 \<Rightarrow> u64 \<Rightarrow> i32 \<Rightarrow> fallocate_op" where
  "fallocate_new k off n md = \<lparr> fa_fd = k, fa_offset = off, fa_len = n, fa_mode = md \<rparr>"

definition fallocate_configure :: "fallocate_op \<Rightarrow> sqe" where
  "fallocate_configure q = sqe_build (Sqe_Fallocate (fa_fd q) (fa_len q) (fa_offset q) (fa_mode q))"

definition fallocate_complete :: "cqe_result \<Rightarrow> io_error + unit" where
  "fallocate_complete r = unit_result r"

definition file_allocate :: "libc \<Rightarrow> fd_kind \<Rightarrow> u64 \<Rightarrow> u64 \<Rightarrow> fallocate_op" where
  "file_allocate L k off n = fallocate_new k off n (or (FALLOC_FL_ZERO_RANGE L) (FALLOC_FL_KEEP_SIZE L))"

definition file_discard :: "libc \<Rightarrow> fd_kind \<Rightarrow> u64 \<Rightarrow> u64 \<Rightarrow> fallocate_op" where
  "file_discard L k off n = fallocate_new k off n (or (FALLOC_FL_PUNCH_HOLE L) (FALLOC_FL_KEEP_SIZE L))"

section \<open>Directories\<close>

record unlink_op =
  ul_path :: path_bytes

definition unlink_new :: "libc \<Rightarrow> u8 list \<Rightarrow> io_error + unlink_op" where
  "unlink_new L p = (case path_cstring L p of Inl e \<Rightarrow> Inl e | Inr s \<Rightarrow> Inr \<lparr> ul_path = s \<rparr>)"

text \<open>The flags are not set: they stay 0.\<close>

definition unlink_configure :: "libc \<Rightarrow> unlink_op \<Rightarrow> sqe" where
  "unlink_configure L q = sqe_build (Sqe_Unlink_At (AT_FDCWD L) (ul_path q) 0)"

definition unlink_complete :: "cqe_result \<Rightarrow> io_error + unit" where
  "unlink_complete r = unit_result r"

record mkdir_op =
  md_path :: path_bytes
  md_mode :: u32

definition mkdir_new :: "libc \<Rightarrow> u8 list \<Rightarrow> u32 \<Rightarrow> io_error + mkdir_op" where
  "mkdir_new L p md = (case path_cstring L p of Inl e \<Rightarrow> Inl e | Inr s \<Rightarrow> Inr \<lparr> md_path = s, md_mode = md \<rparr>)"

definition mkdir_configure :: "libc \<Rightarrow> mkdir_op \<Rightarrow> sqe" where
  "mkdir_configure L q = sqe_build (Sqe_Mkdir_At (AT_FDCWD L) (md_path q) (md_mode q))"

definition mkdir_complete :: "cqe_result \<Rightarrow> io_error + unit" where
  "mkdir_complete r = unit_result r"

text \<open>The entry of \<open>remove_file\<close>, \<open>create_dir\<close> and \<open>remove_dir\<close>, if the path can be passed.\<close>

definition remove_file :: "libc \<Rightarrow> u8 list \<Rightarrow> io_error + sqe" where
  "remove_file L p = map_sum id (unlink_configure L) (unlink_new L p)"

definition create_dir :: "libc \<Rightarrow> u8 list \<Rightarrow> io_error + sqe" where
  "create_dir L p = map_sum id (mkdir_configure L) (mkdir_new L p 0x1FF)"

definition remove_dir :: "libc \<Rightarrow> u8 list \<Rightarrow> io_error + sqe" where
  "remove_dir L p = map_sum id (unlink_configure L) (unlink_new L p)"

section \<open>What the kernel is asked to do\<close>

text \<open>
  A request to open a file the way \<open>open(2)\<close> reads its flags on Linux. \<open>O_SYNC\<close> has the bit of \<open>O_DSYNC\<close>
  and one of its own.
\<close>

record open_meaning =
  om_read :: bool
  om_write :: bool
  om_append :: bool
  om_create :: bool
  om_exclusive :: bool
  om_truncate :: bool
  om_direct :: bool
  om_sync_data :: bool
  om_sync_all :: bool
  om_cloexec :: bool

definition flags_meaning :: "i32 \<Rightarrow> open_meaning" where
  "flags_meaning f = \<lparr> om_read = (and f 3 \<in> {0, 2}), om_write = (and f 3 \<in> {1, 2}), om_append = bit f 10,
     om_create = bit f 6, om_exclusive = bit f 7, om_truncate = bit f 9, om_direct = bit f 14,
     om_sync_data = bit f 12, om_sync_all = bit f 20, om_cloexec = bit f 19 \<rparr>"

definition options_meaning :: "open_options \<Rightarrow> open_meaning" where
  "options_meaning o' = \<lparr> om_read = oo_read o', om_write = oo_write o' \<or> oo_append o', om_append = oo_append o',
     om_create = oo_create o' \<or> oo_create_new o', om_exclusive = oo_create_new o',
     om_truncate = oo_truncate o' \<and> \<not> oo_create_new o', om_direct = oo_direct o',
     om_sync_data = oo_sync o' \<or> oo_dsync o', om_sync_all = oo_sync o', om_cloexec = True \<rparr>"

text \<open>Options can be used if they ask for access, and create or truncate only what they can write.\<close>

definition options_usable :: "open_options \<Rightarrow> bool" where
  "options_usable o' \<longleftrightarrow> (oo_read o' \<or> oo_write o' \<or> oo_append o') \<and>
     (if oo_append o' then oo_create_new o' \<or> \<not> oo_truncate o'
      else oo_write o' \<or> \<not> (oo_truncate o' \<or> oo_create o' \<or> oo_create_new o'))"

lemma access_mode_ok:
  "get_access_mode linux_libc o' = (if oo_read o' \<or> oo_write o' \<or> oo_append o'
    then Inr (or (if oo_read o' then if oo_write o' \<or> oo_append o' then 2 else 0 else 1) (or (if oo_append o' then 0x400 else 0)
      (or (or (if oo_direct o' then 0x4000 else 0) (if oo_sync o' then 0x101000 else 0)) (if oo_dsync o' then 0x1000 else 0))))
    else Inl (Os_Error 22))"
  by (cases "oo_read o'"; cases "oo_write o'"; cases "oo_append o'") (simp_all add: get_access_mode_def access_base_def linux_libc_def or.assoc)

lemma creation_mode_ok:
  "get_creation_mode linux_libc o' = (if creation_refused o' then Inl (Os_Error 22)
    else Inr (or (if oo_create o' \<or> oo_create_new o' then 0x40 else 0)
      (or (if oo_create_new o' then 0x80 else 0) (if oo_truncate o' \<and> \<not> oo_create_new o' then 0x200 else 0))))"
  by (cases "oo_create o'"; cases "oo_truncate o'"; cases "oo_create_new o'") (simp_all add: get_creation_mode_def linux_libc_def)

lemma usable_iff:
  "options_usable o' \<longleftrightarrow> (oo_read o' \<or> oo_write o' \<or> oo_append o') \<and> \<not> creation_refused o'"
  by (auto simp: options_usable_def creation_refused_def split: bool.splits)

lemma access_mode_cases:
  "oo_read o' \<or> oo_write o' \<or> oo_append o' \<Longrightarrow> \<exists>a. get_access_mode linux_libc o' = Inr a"
  "\<not> (oo_read o' \<or> oo_write o' \<or> oo_append o') \<Longrightarrow> get_access_mode linux_libc o' = Inl (Os_Error 22)"
  unfolding access_mode_ok by (simp_all only: if_True if_False simp_thms ex_simps sum.inject) 

lemma creation_mode_cases:
  "\<not> creation_refused o' \<Longrightarrow> \<exists>a. get_creation_mode linux_libc o' = Inr a"
  "creation_refused o' \<Longrightarrow> get_creation_mode linux_libc o' = Inl (Os_Error 22)"
  unfolding creation_mode_ok by (simp_all only: if_True if_False simp_thms sum.inject)

lemma file_open_cases:
  "\<not> options_usable o' \<Longrightarrow> file_open linux_libc p o' = Inl (Os_Error 22)"
  "get_access_mode L o' = Inr a \<Longrightarrow> get_creation_mode L o' = Inr c \<Longrightarrow> file_open L p o' = open_op_new L p a c"
  subgoal
    using access_mode_cases [of o'] creation_mode_cases(2) [of o'] unfolding file_open_def usable_iff
    by (cases "get_access_mode linux_libc o'") auto
  by (simp add: file_open_def)

lemma linux_libc_at: "AT_FDCWD linux_libc = - 100" "O_CLOEXEC linux_libc = 0x80000"
  by (simp_all add: linux_libc_def)

lemma or_and_dist: "and (or a b) (k :: i32) = or (and a k) (and b k)"
  by (rule bit_word_eqI) (auto simp: bit_and_iff bit_or_iff)

lemma and_if: "and (if c then a else b) (k :: i32) = (if c then and a k else and b k)"
  by simp

lemma bit_if: "bit (if c then a else b :: i32) n = (if c then bit a n else bit b n)"
  by simp

lemma flags_of_usable:
  assumes "options_usable o'" and "get_access_mode linux_libc o' = Inr a" and "get_creation_mode linux_libc o' = Inr c"
  shows "flags_meaning (or (or a c) 0x80000) = options_meaning o'"
proof -
  let ?b = "if oo_read o' then if oo_write o' \<or> oo_append o' then 2 else 0 else 1 :: i32"
  let ?x = "or (if oo_append o' then 0x400 else 0) (or (or (if oo_direct o' then 0x4000 else 0) (if oo_sync o' then 0x101000 else 0))
    (if oo_dsync o' then 0x1000 else 0)) :: i32"
  have u: "(oo_read o' \<or> oo_write o' \<or> oo_append o') = True" "creation_refused o' = False"
    using assms(1) by (simp_all add: usable_iff)
  have a: "a = or ?b ?x" using assms(2) unfolding access_mode_ok u if_True sum.inject by (rule sym)
  have c: "c = or (if oo_create o' \<or> oo_create_new o' then 0x40 else 0)
      (or (if oo_create_new o' then 0x80 else 0) (if oo_truncate o' \<and> \<not> oo_create_new o' then 0x200 else 0))"
    using assms(3) unfolding creation_mode_ok u if_False sum.inject by (rule sym)
  have k: "and (0x400 :: i32) 3 = 0" "and (0x4000 :: i32) 3 = 0" "and (0x101000 :: i32) 3 = 0" "and (0x1000 :: i32) 3 = 0"
    "and (0x40 :: i32) 3 = 0" "and (0x80 :: i32) 3 = 0" "and (0x200 :: i32) 3 = 0" "and (0x80000 :: i32) 3 = 0" by simp_all
  have "and ?x 3 = 0" and "and c 3 = 0"
    unfolding c by (simp_all only: or_and_dist and_if k zero_and_eq if_cancel or.left_neutral)
  moreover have "and ?b 3 = ?b" by simp
  ultimately have m: "and (or (or a c) 0x80000) 3 = ?b" unfolding a by (simp only: or_and_dist k or.right_neutral)
  have "?b \<in> {0, 2} \<longleftrightarrow> oo_read o'" and "?b \<in> {1, 2} \<longleftrightarrow> oo_write o' \<or> oo_append o'"
    using assms(1) by (auto simp: usable_iff)
  then show ?thesis unfolding flags_meaning_def options_meaning_def m
    unfolding a c by (simp only: bit_or_iff bit_if) simp
qed

section \<open>Properties\<close>

text \<open>
  C24: a file is opened with the flags that mean to the kernel what the options say, close-on-exec included; options
  without access, or that create or truncate what cannot be written, are refused with \<open>EINVAL\<close> and nothing is
  submitted; and the path that reaches the kernel is the path that was given.
\<close>

theorem open_flags_roundtrip:
  "case file_open linux_libc p o' of
     Inl e \<Rightarrow> if options_usable o' then path_cstring linux_libc p = Inl e else e = Os_Error 22
   | Inr q \<Rightarrow> options_usable o' \<and> valid_utf8 p \<and> 0 \<notin> set p \<and>
       (\<exists>f. open_configure linux_libc q = sqe_build (Sqe_Open_At (- 100) p f 0) \<and> flags_meaning f = options_meaning o')"
proof (cases "options_usable o'")
  case False
  then show ?thesis by (simp add: file_open_cases(1))
next
  case True
  then obtain a c where ac: "get_access_mode linux_libc o' = Inr a" "get_creation_mode linux_libc o' = Inr c"
    using access_mode_cases(1) [of o'] creation_mode_cases(1) [of o'] by (auto simp: usable_iff)
  have "flags_meaning (or (or a c) 0x80000) = options_meaning o'" by (rule flags_of_usable [OF True ac])
  then show ?thesis using True ac
    by (auto simp: file_open_cases(2) [OF ac] open_op_new_def open_configure_def path_cstring_def cstring_new_def linux_libc_at
        split: sum.splits if_splits)
qed

text \<open>
  A read into a vector stays in its memory: the region of the entry is inside the vector as long as its capacity
  fits in 32 bits, and after a completion with no more bytes than were asked for the vector is as long as the
  bytes that were read; an error leaves it as it was.
\<close>

theorem read_into_vector:
  assumes "vec_ok v" and "unat (vc_cap v) < 2 ^ 32" and "unat n \<le> unat (vc_cap v)"
  shows "\<exists>len. read_configure vec_buf_mut (read_op_new k v off) = sqe_build (Sqe_Read k (vc_ptr v) len off) \<and>
      unat len = unat (vc_cap v) \<and>
      (\<exists>v'. read_complete vec_buf_mut (read_op_new k v off) \<lparr> cr_result = Inr n, cr_flags = fl \<rparr> = (Inr (ucast n), v') \<and>
        vec_ok v' \<and> vc_ptr v' = vc_ptr v \<and> vc_cap v' = vc_cap v \<and> unat (vc_len v') = unat n) \<and>
      read_complete vec_buf_mut (read_op_new k v off) \<lparr> cr_result = Inl e, cr_flags = fl \<rparr> = (Inl (Os_Error e), v)"
proof -
  have n: "unat (ucast n :: usize) = unat n" by (rule unat_ucast_wider)
  have c: "unat (ucast (vc_cap v) :: u32) = unat (vc_cap v)"
    using assms(2) by (rule unat_ucast_fits)
  show ?thesis using assms(1,3) n c
    by (auto simp: read_configure_def vec_buf_mut_def read_op_new_def read_complete_def size_result_def vec_ok_def word_le_nat_alt)
qed

theorem read_into_vector_witness:
  "read_complete vec_buf_mut (read_op_new (Fd_Regular 3) \<lparr> vc_ptr = 4096, vc_len = 0, vc_cap = 16 \<rparr> 0) \<lparr> cr_result = Inr 5, cr_flags = 0 \<rparr> =
    (Inr 5, \<lparr> vc_ptr = 4096, vc_len = 5, vc_cap = 16 \<rparr>)"
  using read_into_vector [of "\<lparr> vc_ptr = 4096, vc_len = 0, vc_cap = 16 \<rparr>" 5 "Fd_Regular 3" 0 0]
  by (auto simp: vec_ok_def read_complete_def size_result_def vec_buf_mut_def read_op_new_def)

text \<open>
  \<open>remove_dir\<close> asks for the same as \<open>remove_file\<close>: \<open>unlinkat\<close> without the flag \<open>AT_REMOVEDIR\<close> (0x200).
\<close>

lemma remove_dir_unlinks:
  "remove_dir L p = remove_file L p \<and> (\<forall>e. remove_dir L p = Inr e \<longrightarrow> sq_op e = Sqe_Unlink_At (AT_FDCWD L) p 0)"
  by (auto simp: remove_dir_def remove_file_def unlink_new_def unlink_configure_def path_cstring_def cstring_new_def
      sqe_build_def split: sum.splits if_splits)

text \<open>Whatever the options, the mode of a file that is created is 0.\<close>

lemma open_creates_without_mode:
  "file_open L p o' = Inr q \<Longrightarrow> \<exists>f. open_configure L q = sqe_build (Sqe_Open_At (AT_FDCWD L) p f 0)"
  by (auto simp: file_open_def open_op_new_def open_configure_def path_cstring_def cstring_new_def split: sum.splits if_splits)

end
