(* ===== verification/Net_Properties.thy ===== *)
theory Net_Properties
  imports Net_Requests Fs_Requests
begin

text \<open>
  What becomes of requests nobody waits for any more, and the memory the kernel is given: the requests of
  \<open>norn-uring/src/net\<close> and \<open>norn-uring/src/fs\<close> together with the life of the operations, the descriptors, the
  buffers and the ring of buffers.
\<close>

section \<open>Dropped requests\<close>

lemma class_ok_accept_multi [simp]: "class_ok (accept_multi_class C mo dbg)"
  by (simp add: class_ok_def accept_multi_class_def)

lemma class_ok_one_shot [simp]:
  "class_ok (connect_class C (\<lambda>_. False) dbg)" "class_ok (accept_class C A (\<lambda>_. False) dbg)" "class_ok (open_class C (\<lambda>_. False) dbg)"
  by (simp_all add: class_ok_def connect_class_def accept_class_def open_class_def cqe_more_def)

lemma accept_cleanups:
  "linked_list C \<Longrightarrow> foldl (cl_cleanup (accept_multi_class C mo dbg)) d rs = d\<lparr>lt_closed := lt_closed d @ made_fds rs\<rparr>"
  "linked_list C \<Longrightarrow> foldl (cl_cleanup (accept_class C A mo dbg)) d rs = d\<lparr>lt_closed := lt_closed d @ made_fds rs\<rparr>"
  using late_cleanups [of C d rs]
  by (simp_all add: accept_multi_class_def accept_class_def accept_cleanup_def [abs_def])

lemma connect_cleanups:
  "linked_list C \<Longrightarrow> foldl (cl_cleanup (connect_class C mo dbg)) d rs = d\<lparr>lt_closed := lt_closed d @ made_fds rs\<rparr>"
  using late_cleanups [of C d rs] by (simp add: connect_class_def connect_cleanup_def [abs_def])


definition accept_demo :: "accept_op late life" where
  "accept_demo = life_demo (accept_multi_class (seq_env True) (\<lambda>f. bit f 1) True) True
     [Op_New 2000 (late_new \<lparr> ac_fd = Fd_Regular 3, ac_addr = [] \<rparr>), Op_Next 2000 7 Push_Done,
      Kernel_Cqe \<lparr> cq_user_data = 2000, cq_result = 8, cq_flags = 2 \<rparr>]"


text \<open>
  C34: a connect that is dropped in flight and then succeeds closes descriptor 0, whatever that is: the cleanup
  takes the result of the request, which is 0, for a new descriptor.
\<close>

theorem dropped_connect_closes_zero:
  assumes "linked_list C" and "life_reach (connect_class C (\<lambda>_. False) dbg) False m" and "lf_place m a = In_Ring"
    and "lf_futs m a = Some f" and "oh_ops (lf_heap m) a = Some r" and "ro_data r = Some d" and "ro_completions r = []"
  shows "\<exists>m'. life_run (connect_class C (\<lambda>_. False) dbg)
      [Op_Drop a, Kernel_Cqe \<lparr> cq_user_data = a, cq_result = 0, cq_flags = 0 \<rparr>] m = Inr m' \<and>
    oh_dropped (lf_heap m') = oh_dropped (lf_heap m) @ [(a, d\<lparr>lt_closed := lt_closed d @ [Fd_Regular 0]\<rparr>)]"
proof -
  have "final_cqes (connect_class C (\<lambda>_. False) dbg) a [\<lparr> cq_user_data = a, cq_result = 0, cq_flags = 0 \<rparr>] [\<lparr> cr_result = Inr 0, cr_flags = 0 \<rparr>]"
    by (simp add: final_cqes_def comps_ok_def cqe_more_def connect_class_def cqe_to_result_def)
  from drop_cleans_up [OF class_ok_one_shot(1) assms(2-6) this, unfolded connect_cleanups [OF assms(1)] assms(7) list.map]
  obtain m' where "life_run (connect_class C (\<lambda>_. False) dbg)
      [Op_Drop a, Kernel_Cqe \<lparr> cq_user_data = a, cq_result = 0, cq_flags = 0 \<rparr>] m = Inr m'"
    and "oh_dropped (lf_heap m') = oh_dropped (lf_heap m) @
      [(a, d\<lparr>lt_closed := lt_closed d @ made_fds ([] @ [\<lparr> cr_result = Inr 0, cr_flags = 0 \<rparr>])\<rparr>)]" by blast
  then show ?thesis by (intro exI [of _ m'] conjI) (assumption, simp add: made_fds_def)
qed

definition connect_demo :: "connect_op late life" where
  "connect_demo = life_demo (connect_class (seq_env True) (\<lambda>_. False) True) False
     [Op_New 2000 (late_new \<lparr> co_fd = Fd_Regular 3, co_addr = [] \<rparr>), Op_Poll 2000 7 Push_Done]"

theorem dropped_connect_closes_zero_witness:
  "\<exists>m' d. life_run (connect_class (seq_env True) (\<lambda>_. False) True)
      [Op_Drop 2000, Kernel_Cqe \<lparr> cq_user_data = 2000, cq_result = 0, cq_flags = 0 \<rparr>] connect_demo = Inr m' \<and>
    oh_dropped (lf_heap m') = [(2000, d)] \<and> lt_closed d = [Fd_Regular 0]"
proof -
  let ?T = "connect_class (seq_env True) (\<lambda>_. False) True"
  have re: "life_reach ?T False connect_demo" unfolding connect_demo_def by (rule life_demo_reach)
  have p: "lf_place connect_demo 2000 = In_Ring" and e: "oh_dropped (lf_heap connect_demo) = []"
    and f: "lf_futs connect_demo 2000 = Some \<lparr> of_addr = 2000, of_submitted = True, of_completed = False \<rparr>"
    and r: "oh_ops (lf_heap connect_demo) 2000 =
      Some \<lparr> ro_refcount = 2, ro_waker = Some 7, ro_completions = [], ro_complete = False,
        ro_data = Some (late_new \<lparr> co_fd = Fd_Regular 3, co_addr = [] \<rparr>) \<rparr>"
    by code_simp+
  let ?d = "late_new \<lparr> co_fd = Fd_Regular 3, co_addr = [] \<rparr>"
  from dropped_connect_closes_zero [OF linked_list_seq_env re p f r] obtain m' where
    "life_run ?T [Op_Drop 2000, Kernel_Cqe \<lparr> cq_user_data = 2000, cq_result = 0, cq_flags = 0 \<rparr>] connect_demo = Inr m'"
    and "oh_dropped (lf_heap m') = oh_dropped (lf_heap connect_demo) @ [(2000, ?d\<lparr>lt_closed := lt_closed ?d @ [Fd_Regular 0]\<rparr>)]"
    by auto
  then show ?thesis using e
    by (intro exI [of _ m'] exI [of _ "?d\<lparr>lt_closed := lt_closed ?d @ [Fd_Regular 0]\<rparr>"] conjI) (assumption, simp_all add: late_new_def)
qed

section \<open>Buffers of a ring\<close>

text \<open>
  C35: the buffer of a receive nobody waits for goes back to the ring: when the completion of a dropped receive
  is cleaned up, the buffer the kernel has picked for it is offered to the kernel again, and the ring stays
  one that its users can reach; a receive that is waited for hands out this buffer with the bytes received.
\<close>

theorem dropped_recv_returns_buffer:
  assumes "ring_reach b w" and "bid \<in> set (rw_held w)" and "sel fl = Some bid" and "ucast n \<le> br_len (rw_ring w)"
  shows "\<exists>r. recv_ring_cleanup sel (rw_ring w) \<lparr> cr_result = Inr n, cr_flags = fl \<rparr> = Inr r \<and> br_shared r = br_tail r \<and>
      ring_reach b (w\<lparr>rw_ring := r, rw_held := remove1 bid (rw_held w)\<rparr>) \<and>
      recv_ring_complete sel A (rw_ring w) q \<lparr> cr_result = Inr n, cr_flags = fl \<rparr> =
        (case sa_as A (rr_addr q) of None \<Rightarrow> Inl Panic | Some a \<Rightarrow> Inr (Inr ((bid, ucast n), a)))"
proof -
  obtain r where r: "ring_give_back bid (rw_ring w) = Inr r" "br_shared r = br_tail r"
    using held_can_be_given [OF assms(1,2)] by blast
  have g: "ring_get_buf sel (rw_ring w) n fl = Inr (bid, ucast n)" using assms(3,4) by (simp add: ring_get_buf_def)
  show ?thesis using r g ring_given [OF assms(1,2) r(1)]
    by (auto simp: recv_ring_cleanup_def recv_ring_complete_def addr_of_def split: option.splits)
qed

theorem dropped_recv_returns_buffer_witness:
  "\<exists>w r. kernel_take \<lparr> rw_ring = small_ring, rw_head = 0, rw_held = [] \<rparr> = Some (0, w) \<and>
    recv_ring_cleanup (\<lambda>f. Some (ucast (drop_bit 16 f))) (rw_ring w) \<lparr> cr_result = Inr 5, cr_flags = 1 \<rparr> = Inr r"
proof -
  let ?w = "\<lparr> rw_ring = small_ring, rw_head = 1, rw_held = [0] \<rparr>"
  have "builder_build True (Inr ()) (Inr ()) (builder_buf_cnt 3 (builder_ring_entries 4 (builder_new 1))) = Inr (Inr small_ring)" by code_simp
  note i = ring_built [OF this]
  have t: "kernel_take \<lparr> rw_ring = small_ring, rw_head = 0, rw_held = [] \<rparr> = Some (0, ?w)" by code_simp
  have h: "0 \<in> set (rw_held ?w)" by simp
  have l: "ucast (5 :: u32) \<le> br_len (rw_ring ?w)" by code_simp
  from dropped_recv_returns_buffer [OF ring_picked [OF i t] h _ l, of "\<lambda>f. Some (ucast (drop_bit 16 f))" 1]
  obtain r where "recv_ring_cleanup (\<lambda>f. Some (ucast (drop_bit 16 f))) (rw_ring ?w) \<lparr> cr_result = Inr 5, cr_flags = 1 \<rparr> = Inr r" by auto
  with t show ?thesis by blast
qed

text \<open>
  On a connected socket the kernel does not write an address: a receive into a ring, whose storage \<open>as_socket\<close>
  cannot read, panics when its completion arrives.
\<close>

lemma recv_ring_without_address_panics:
  assumes "sa_as A (sa_init A) = None" and "sel fl = Some bid" and "ucast n \<le> br_len g"
  shows "recv_ring_complete sel A g (recv_ring_new A k) \<lparr> cr_result = Inr n, cr_flags = fl \<rparr> = Inl Panic"
  using assms by (simp add: recv_ring_complete_def recv_ring_new_def addr_of_def ring_get_buf_def)

section \<open>Memory\<close>



end
