(* ===== verification/Ready_Stream.thy ===== *)
theory Ready_Stream
  imports Net_Requests Ring_Driver
begin

text \<open>
  The streams of \<open>norn-uring/src/net/tcp.rs\<close>: \<open>ReadyStream\<close>, which tries a call on a non-blocking socket and waits
  for the readiness of the socket when the call would block, and \<open>Incoming\<close>, the stream of accepted
  connections. Both own a multishot operation on the driver. The address of its cell and the place of its push
  future are chosen by the allocator, a function of the driver.
\<close>

section \<open>Waiting for an operation\<close>

text \<open>The task of the waker \<open>w\<close> waits for the operation: in its cell, or in its push future.\<close>

definition op_waits :: "nat \<Rightarrow> op_future \<times> push_future \<Rightarrow> ('k, 'd) driver \<Rightarrow> bool" where
  "op_waits w p s = (if of_submitted (fst p)
     then (case oh_ops (dr_ops s) (of_addr (fst p)) of None \<Rightarrow> False | Some r \<Rightarrow> ro_waker r = Some w \<and> \<not> ro_complete r)
     else pf_waiting (snd p) \<and> (case nt_entries (dr_backpressure s) (pf_slot (snd p)) of
       None \<Rightarrow> False | Some e \<Rightarrow> ne_waker e = Some w \<and> ne_state e = Waiter_Linked))"

section \<open>ReadyStream\<close>

record ready_stream =
  rs_fd :: fd_kind
  rs_armed :: "(op_future \<times> push_future) option"
  rs_notified :: bool

definition ready_stream_new :: "fd_kind \<Rightarrow> ready_stream" where
  "ready_stream_new k = \<lparr> rs_fd = k, rs_armed = None, rs_notified = True \<rparr>"

text \<open>\<open>into_stream\<close>: the reader and the writer.\<close>

definition into_stream :: "fd_kind \<Rightarrow> ready_stream \<times> ready_stream" where
  "into_stream k = (ready_stream_new k, ready_stream_new k)"

text \<open>The class of the readiness operation: its items are the events.\<close>

definition poll_multi_class :: "(u32 \<Rightarrow> bool) \<Rightarrow> bool \<Rightarrow> (poll_sock_op, unit, io_error + event) op_class" where
  "poll_multi_class mo dbg = \<lparr> cl_cleanup = (\<lambda>d _. d), cl_complete = (\<lambda>_ _. ()), cl_update = (\<lambda>d _. Inr d),
     cl_item = (\<lambda>d r. Inr (poll_sock_update r, d)), cl_more = mo, cl_debug = dbg \<rparr>"

text \<open>One round of the loop of \<open>poll_ready\<close>.\<close>

definition ready_round ::
  "env \<Rightarrow> 'k uring \<Rightarrow> (poll_sock_op, unit, io_error + event) op_class \<Rightarrow> (('k, poll_sock_op) driver \<Rightarrow> u64 \<times> nat)
   \<Rightarrow> nat \<Rightarrow> u32 \<Rightarrow> ready_stream \<times> ('k, poll_sock_op) driver
   \<Rightarrow> (fault + ((io_error + unit) poll option \<times> ready_stream \<times> ('k, poll_sock_op) driver)) option"
where
  "ready_round C U T alloc w flags x = (case x of (rs, s) \<Rightarrow>
     if rs_notified rs then Some (Inr (Some (Ready (Inr ())), rs, s))
     else case rs_armed rs of
         Some (f, pf) \<Rightarrow>
           run_then (driver_poll_next C U T w f pf s) (\<lambda>(r, f, pf, s).
             let rs = rs\<lparr>rs_armed := Some (f, pf)\<rparr> in
             case r of
               Pending \<Rightarrow> Some (Inr (Some Pending, rs, s))
             | Ready (Some (Inl e)) \<Rightarrow> Some (Inr (Some (Ready (Inl e)), rs, s))
             | Ready (Some (Inr _)) \<Rightarrow> Some (Inr (None, rs\<lparr>rs_notified := True\<rparr>, s))
             | Ready None \<Rightarrow>
                 run_then (driver_drop_op C U T f pf s) (\<lambda>s. Some (Inr (None, rs\<lparr>rs_armed := None\<rparr>, s))))
       | None \<Rightarrow>
           (case alloc s of (a, slot) \<Rightarrow>
            run_then (Some (handle_submit T (poll_sock_configure True) a slot (poll_sock_new (rs_fd rs) flags) s)) (\<lambda>(f, pf, s).
              Some (Inr (None, rs\<lparr>rs_armed := Some (f, pf)\<rparr>, s)))))"

definition poll_ready ::
  "env \<Rightarrow> 'k uring \<Rightarrow> (poll_sock_op, unit, io_error + event) op_class \<Rightarrow> (('k, poll_sock_op) driver \<Rightarrow> u64 \<times> nat)
   \<Rightarrow> nat \<Rightarrow> u32 \<Rightarrow> ready_stream \<times> ('k, poll_sock_op) driver
   \<Rightarrow> (fault + ((io_error + unit) poll \<times> ready_stream \<times> ('k, poll_sock_op) driver)) option"
where
  "poll_ready C U T alloc w flags = loop_until (ready_round C U T alloc w flags)"

text \<open>What a call on the socket returns; the call is a function of the state \<open>'x\<close> of the socket.\<close>

datatype 'u attempt = Would_Block | Try_Error io_error | Try_Ok 'u

definition try_call ::
  "('x \<Rightarrow> 'u attempt \<times> 'x) \<Rightarrow> fd_kind \<Rightarrow> 'x \<Rightarrow> fault + ('u attempt \<times> 'x)"
where
  "try_call call k x = (case k of Fd_Regular _ \<Rightarrow> Inr (call x) | Fd_Fixed _ \<Rightarrow> Inl Panic)"

text \<open>One round of the loop of \<open>poll_op\<close>.\<close>

definition poll_op_round ::
  "env \<Rightarrow> 'k uring \<Rightarrow> (poll_sock_op, unit, io_error + event) op_class \<Rightarrow> (('k, poll_sock_op) driver \<Rightarrow> u64 \<times> nat)
   \<Rightarrow> nat \<Rightarrow> u32 \<Rightarrow> ('x \<Rightarrow> 'u attempt \<times> 'x) \<Rightarrow> 'x \<times> ready_stream \<times> ('k, poll_sock_op) driver
   \<Rightarrow> (fault + ((io_error + 'u) poll option \<times> 'x \<times> ready_stream \<times> ('k, poll_sock_op) driver)) option"
where
  "poll_op_round C U T alloc w flags call y = (case y of (x, rs, s) \<Rightarrow>
     run_then (poll_ready C U T alloc w flags (rs, s)) (\<lambda>(r, rs, s). case r of
         Pending \<Rightarrow> Some (Inr (Some Pending, x, rs, s))
       | Ready (Inl e) \<Rightarrow> Some (Inr (Some (Ready (Inl e)), x, rs, s))
       | Ready (Inr _) \<Rightarrow>
           run_then (Some (try_call call (rs_fd rs) x)) (\<lambda>(t, x). case t of
               Try_Ok v \<Rightarrow> Some (Inr (Some (Ready (Inr v)), x, rs, s))
             | Try_Error e \<Rightarrow> Some (Inr (Some (Ready (Inl e)), x, rs, s))
             | Would_Block \<Rightarrow>
                 run_then (poll_ready C U T alloc w flags (rs\<lparr>rs_notified := False\<rparr>, s)) (\<lambda>(r, rs, s). case r of
                     Pending \<Rightarrow> Some (Inr (Some Pending, x, rs, s))
                   | Ready (Inl e) \<Rightarrow> Some (Inr (Some (Ready (Inl e)), x, rs, s))
                   | Ready (Inr _) \<Rightarrow> Some (Inr (None, x, rs, s))))))"

definition ready_poll_op ::
  "env \<Rightarrow> 'k uring \<Rightarrow> (poll_sock_op, unit, io_error + event) op_class \<Rightarrow> (('k, poll_sock_op) driver \<Rightarrow> u64 \<times> nat)
   \<Rightarrow> nat \<Rightarrow> u32 \<Rightarrow> ('x \<Rightarrow> 'u attempt \<times> 'x) \<Rightarrow> 'x \<times> ready_stream \<times> ('k, poll_sock_op) driver
   \<Rightarrow> (fault + ((io_error + 'u) poll \<times> 'x \<times> ready_stream \<times> ('k, poll_sock_op) driver)) option"
where
  "ready_poll_op C U T alloc w flags call = loop_until (poll_op_round C U T alloc w flags call)"

text \<open>
  The flags are \<open>READ_FLAGS as u32\<close> for the reads and \<open>WRITE_FLAGS as u32\<close> for the writes, the flushes and
  the shutdown: the conversion extends the sign.
\<close>

definition reader_flags :: "libc \<Rightarrow> u32" where "reader_flags L = scast (READ_FLAGS L)"
definition writer_flags :: "libc \<Rightarrow> u32" where "writer_flags L = scast (WRITE_FLAGS L)"

section \<open>TcpStream\<close>

text \<open>
  The calls on the socket, of the crate \<open>socket2\<close>, on its state \<open>'x\<close> (\<open>recv\<close> fills the buffer \<open>'b\<close>), and what the
  reader does with the buffer of the crate \<open>tokio\<close>: \<open>assume_init\<close> and \<open>advance\<close>, which may panic.
\<close>

record ('x, 'b) tcp_calls =
  tc_recv :: "'b \<times> 'x \<Rightarrow> usize attempt \<times> 'b \<times> 'x"
  tc_assume_init :: "usize \<Rightarrow> 'b \<Rightarrow> fault + 'b"
  tc_advance :: "usize \<Rightarrow> 'b \<Rightarrow> fault + 'b"
  tc_send :: "u8 list \<Rightarrow> 'x \<Rightarrow> usize attempt \<times> 'x"
  tc_send_vectored :: "u8 list list \<Rightarrow> 'x \<Rightarrow> usize attempt \<times> 'x"
  tc_flush :: "'x \<Rightarrow> unit attempt \<times> 'x"
  tc_shutdown_write :: "'x \<Rightarrow> unit attempt \<times> 'x"

record tcp_stream =
  ts_reader :: ready_stream
  ts_writer :: ready_stream

definition owned_split :: "tcp_stream \<Rightarrow> ready_stream \<times> ready_stream" where
  "owned_split t = (ts_reader t, ts_writer t)"

definition reader_poll_read ::
  "env \<Rightarrow> libc \<Rightarrow> ('x, 'b) tcp_calls \<Rightarrow> 'k uring \<Rightarrow> (poll_sock_op, unit, io_error + event) op_class
   \<Rightarrow> (('k, poll_sock_op) driver \<Rightarrow> u64 \<times> nat) \<Rightarrow> nat \<Rightarrow> 'b \<times> 'x \<Rightarrow> ready_stream \<Rightarrow> ('k, poll_sock_op) driver
   \<Rightarrow> (fault + ((io_error + unit) poll \<times> ('b \<times> 'x) \<times> ready_stream \<times> ('k, poll_sock_op) driver)) option"
where
  "reader_poll_read C L N U T alloc w y rs s =
     run_then (ready_poll_op C U T alloc w (reader_flags L) (tc_recv N) (y, rs, s)) (\<lambda>(r, (b, x), rs, s). case r of
         Pending \<Rightarrow> Some (Inr (Pending, (b, x), rs, s))
       | Ready (Inl e) \<Rightarrow> Some (Inr (Ready (Inl e), (b, x), rs, s))
       | Ready (Inr n) \<Rightarrow>
           run_then (Some (tc_assume_init N n b)) (\<lambda>b.
           run_then (Some (tc_advance N n b)) (\<lambda>b. Some (Inr (Ready (Inr ()), (b, x), rs, s)))))"

text \<open>The operations of the writer differ in the call they try.\<close>

definition writer_poll ::
  "env \<Rightarrow> libc \<Rightarrow> 'k uring \<Rightarrow> (poll_sock_op, unit, io_error + event) op_class
   \<Rightarrow> (('k, poll_sock_op) driver \<Rightarrow> u64 \<times> nat) \<Rightarrow> nat \<Rightarrow> ('x \<Rightarrow> 'u attempt \<times> 'x) \<Rightarrow> 'x \<Rightarrow> ready_stream \<Rightarrow> ('k, poll_sock_op) driver
   \<Rightarrow> (fault + ((io_error + 'u) poll \<times> 'x \<times> ready_stream \<times> ('k, poll_sock_op) driver)) option"
where
  "writer_poll C L U T alloc w call x rs s = ready_poll_op C U T alloc w (writer_flags L) call (x, rs, s)"

definition writer_poll_write where
  "writer_poll_write C L N U T alloc w buf = writer_poll C L U T alloc w (tc_send N buf)"

definition writer_poll_flush where
  "writer_poll_flush C L N U T alloc w = writer_poll C L U T alloc w (tc_flush N)"

definition writer_poll_shutdown where
  "writer_poll_shutdown C L N U T alloc w = writer_poll C L U T alloc w (tc_shutdown_write N)"

definition writer_poll_write_vectored where
  "writer_poll_write_vectored C L N U T alloc w bufs = writer_poll C L U T alloc w (tc_send_vectored N bufs)"

definition writer_is_write_vectored :: "ready_stream \<Rightarrow> bool" where
  "writer_is_write_vectored rs = True"

text \<open>The stream hands each operation to its half.\<close>

definition with_writer ::
  "('x \<Rightarrow> ready_stream \<Rightarrow> 's \<Rightarrow> (fault + ('r \<times> 'x \<times> ready_stream \<times> 's)) option) \<Rightarrow> 'x \<Rightarrow> tcp_stream \<Rightarrow> 's
   \<Rightarrow> (fault + ('r \<times> 'x \<times> tcp_stream \<times> 's)) option"
where
  "with_writer f x t s = run_then (f x (ts_writer t) s) (\<lambda>(r, x, rs, s). Some (Inr (r, x, t\<lparr>ts_writer := rs\<rparr>, s)))"

definition stream_poll_read where
  "stream_poll_read C L N U T alloc w y t s =
     run_then (reader_poll_read C L N U T alloc w y (ts_reader t) s) (\<lambda>(r, y, rs, s). Some (Inr (r, y, t\<lparr>ts_reader := rs\<rparr>, s)))"

definition stream_poll_write where
  "stream_poll_write C L N U T alloc w buf = with_writer (writer_poll_write C L N U T alloc w buf)"

definition stream_poll_flush where
  "stream_poll_flush C L N U T alloc w = with_writer (writer_poll_flush C L N U T alloc w)"

definition stream_poll_shutdown where
  "stream_poll_shutdown C L N U T alloc w = with_writer (writer_poll_shutdown C L N U T alloc w)"

definition stream_poll_write_vectored where
  "stream_poll_write_vectored C L N U T alloc w bufs = with_writer (writer_poll_write_vectored C L N U T alloc w bufs)"

section \<open>Incoming connections\<close>

record incoming =
  ic_fd :: fd_kind
  ic_current :: "(op_future \<times> push_future) option"

definition incoming_new :: "fd_kind \<Rightarrow> incoming" where
  "incoming_new k = \<lparr> ic_fd = k, ic_current = None \<rparr>"

text \<open>One round of the loop of \<open>poll_next\<close>.\<close>

definition incoming_round ::
  "env \<Rightarrow> libc \<Rightarrow> 'a socket_addrs \<Rightarrow> 'k uring \<Rightarrow> (accept_op late, unit, io_error + norn_fd) op_class
   \<Rightarrow> (('k, accept_op late) driver \<Rightarrow> u64 \<times> nat) \<Rightarrow> nat \<Rightarrow> incoming \<times> ('k, accept_op late) driver
   \<Rightarrow> (fault + ((io_error + norn_fd) option poll option \<times> incoming \<times> ('k, accept_op late) driver)) option"
where
  "incoming_round C L A U T alloc w x = (case x of (ic, s) \<Rightarrow> (case ic_current ic of
     Some (f, pf) \<Rightarrow>
       run_then (driver_poll_next C U T w f pf s) (\<lambda>(r, f, pf, s).
         let ic = ic\<lparr>ic_current := Some (f, pf)\<rparr> in
         case r of
           Pending \<Rightarrow> Some (Inr (Some Pending, ic, s))
         | Ready (Some (Inl e)) \<Rightarrow>
             run_then (driver_drop_op C U T f pf s) (\<lambda>s.
               Some (Inr (Some (Ready (Some (Inl e))), ic\<lparr>ic_current := None\<rparr>, s)))
         | Ready (Some (Inr fd)) \<Rightarrow> Some (Inr (Some (Ready (Some (Inr fd))), ic, s))
         | Ready None \<Rightarrow>
             run_then (driver_drop_op C U T f pf s) (\<lambda>s.
               Some (Inr (Some (Ready None), ic\<lparr>ic_current := None\<rparr>, s))))
   | None \<Rightarrow>
       (case alloc s of (a, slot) \<Rightarrow>
        run_then (Some (handle_submit T (accept_configure L True \<circ> lt_op) a slot (late_new (accept_new A (ic_fd ic))) s)) (\<lambda>(f, pf, s).
          Some (Inr (None, ic\<lparr>ic_current := Some (f, pf)\<rparr>, s))))))"

definition incoming_poll_next ::
  "env \<Rightarrow> libc \<Rightarrow> 'a socket_addrs \<Rightarrow> 'k uring \<Rightarrow> (accept_op late, unit, io_error + norn_fd) op_class
   \<Rightarrow> (('k, accept_op late) driver \<Rightarrow> u64 \<times> nat) \<Rightarrow> nat \<Rightarrow> incoming \<times> ('k, accept_op late) driver
   \<Rightarrow> (fault + ((io_error + norn_fd) option poll \<times> incoming \<times> ('k, accept_op late) driver)) option"
where
  "incoming_poll_next C L A U T alloc w = loop_until (incoming_round C L A U T alloc w)"

end
