(* ===== verification/Stream_Properties.thy ===== *)
theory Stream_Properties
  imports Ready_Stream Ring_Spec
begin

text \<open>
  The streams of \<open>norn-uring/src/net/tcp.rs\<close> never sleep unnoticed: a poll that is pending has left its waker where
  the completion of the operation, or the room in the submission queue, will find it.
\<close>

section \<open>A pending operation has its waker\<close>

lemma notified_poll_pending:
  "notified_poll C a w n = Inr (Pending, n') \<Longrightarrow>
    \<exists>e. nt_entries n' a = Some e \<and> ne_waker e = Some w \<and> ne_state e = Waiter_Linked"
  by (auto simp: notified_poll_def split: option.splits notified_state.splits)

definition push_waits :: "nat \<Rightarrow> push_future \<Rightarrow> ('k, 'd) driver \<Rightarrow> bool" where
  "push_waits w f s \<longleftrightarrow> pf_waiting f \<and>
     (\<exists>e. nt_entries (dr_backpressure s) (pf_slot f) = Some e \<and> ne_waker e = Some w \<and> ne_state e = Waiter_Linked)"

lemma push_poll_pending:
  fixes s :: "('k, 'd) driver"
  assumes "push_poll C U w f s = Some (Inr (Push_Pending, f', s'))"
  shows "push_waits w f' s'"
proof -
  let ?Q = "\<lambda>(C :: env) (U :: 'k uring) (w :: nat) (f :: push_future) (s :: ('k, 'd) driver) (r :: fault + (push_result \<times> push_future \<times> ('k, 'd) driver)).
    \<forall>f' s'. r = Inr (Push_Pending, f', s') \<longrightarrow> push_waits w f' s'"
  have "?Q C U w f s (Inr (Push_Pending, f', s'))"
  proof (rule push_poll.raw_induct [of ?Q C U w f s "Inr (Push_Pending, f', s')", OF _ assms])
    fix loop :: "env \<Rightarrow> 'k uring \<Rightarrow> nat \<Rightarrow> push_future \<Rightarrow> ('k, 'd) driver \<Rightarrow> (fault + (push_result \<times> push_future \<times> ('k, 'd) driver)) option"
      and C U w f s r
    assume IH: "\<And>C U w f s r. loop C U w f s = Some r \<Longrightarrow> ?Q C U w f s r"
      and body: "(if dr_status s \<noteq> Status_Running then Some (Inr (Push_Closed, f, s))
      else
        run_then (if pf_waiting f
            then Some (and_then (notified_poll C (pf_slot f) w (dr_backpressure s)) (\<lambda>(r, b).
                   Inr (r = Pending, s\<lparr>dr_backpressure := b\<rparr>)))
            else Some (Inr (False, s))) (\<lambda>(wait, s).
          if wait then Some (Inr (Push_Pending, f, s))
          else
            run_then (if pf_waiting f
                then run_then (notified_drop C (pf_slot f) (dr_backpressure s)) (\<lambda>b. Some (Inr (s\<lparr>dr_backpressure := b\<rparr>)))
                else Some (Inr s)) (\<lambda>s.
              case pf_entry f of
                None \<Rightarrow> Some (Inl Panic)
              | Some e \<Rightarrow>
                  run_then (Some (try_push U e s)) (\<lambda>(back, s). case back of
                      None \<Rightarrow> Some (Inr (Push_Done, f\<lparr>pf_waiting := False, pf_entry := None\<rparr>, s))
                    | Some e \<Rightarrow>
                        loop C U w (f\<lparr>pf_waiting := True, pf_entry := Some e\<rparr>)
                          (s\<lparr>dr_backpressure := notify_wait (pf_slot f) (dr_backpressure s)\<rparr>))))) = Some r"
    have "push_waits w f' s'" if e: "r = Inr (Push_Pending, f', s')" for f' s'
    proof -
      obtain wait s1 where w1: "(if pf_waiting f
            then Some (and_then (notified_poll C (pf_slot f) w (dr_backpressure s)) (\<lambda>(r, b).
                   Inr (r = Pending, s\<lparr>dr_backpressure := b\<rparr>)))
            else Some (Inr (False, s))) = Some (Inr (wait, s1))"
        using body e by (auto simp: run_then_def split: if_splits sum.splits)
      show ?thesis
      proof (cases wait)
        case True
        then have pw: "pf_waiting f" using w1 by (auto split: if_splits)
        then obtain b where b: "notified_poll C (pf_slot f) w (dr_backpressure s) = Inr (Pending, b)" "s1 = s\<lparr>dr_backpressure := b\<rparr>"
          using w1 True by auto
        have "f' = f" "s' = s1" using body w1 True e by (auto split: if_splits)
        then show ?thesis using notified_poll_pending [OF b(1)] b(2) pw by (auto simp: push_waits_def)
      next
        case False
        obtain x t u where x: "loop C U w x t = Some u" "u = r"
          using body w1 False e by (auto simp: run_then_def split: if_splits option.splits sum.splits)
        from IH [OF x(1)] x(2) e show ?thesis by simp
      qed
    qed
    then show "?Q C U w f s r" by simp
  qed
  then show ?thesis by simp
qed

lemma op_poll_next_pending:
  assumes "op_poll_next T p w f h = Inr (Pending, f', h')"
  shows "if of_submitted f' then \<exists>r. oh_ops h' (of_addr f') = Some r \<and> ro_waker r = Some w \<and> \<not> ro_complete r
    else p = Push_Pending \<and> f' = f \<and> h' = h"
  using assms
  by (auto simp: op_poll_next_def op_stage_poll_next_def poll_submit_def register_waker_def op_at_def put_op_def
      split: if_splits push_result.splits option.splits poll.splits)

lemma driver_poll_next_pending:
  assumes "driver_poll_next C U T w f pf s = Some (Inr (Pending, f', pf', s'))"
  shows "op_waits w (f', pf') s'"
proof -
  obtain p s1 h where p: "poll_push C U w f pf s = Some (Inr (p, pf', s1))"
    and o: "op_poll_next T p w f (dr_ops s1) = Inr (Pending, f', h)" and s': "s' = s1\<lparr>dr_ops := h\<rparr>"
    using assms by (auto simp: driver_poll_next_def run_then_def split: option.splits sum.splits)
  show ?thesis
  proof (cases "of_submitted f'")
    case True
    then show ?thesis using op_poll_next_pending [OF o] s' by (auto simp: op_waits_def)
  next
    case False
    then have pp: "p = Push_Pending" "f' = f" using op_poll_next_pending [OF o] by auto
    then have "push_poll C U w pf s = Some (Inr (Push_Pending, pf', s1))" using p False by (simp add: poll_push_def)
    from push_poll_pending [OF this] show ?thesis using False s' by (auto simp: op_waits_def push_waits_def)
  qed
qed

section \<open>Streams\<close>

lemma ready_round_result:
  assumes "ready_round C U T alloc w flags (rs, s) = Some (Inr (Some r, rs', s'))"
  shows "case r of Pending \<Rightarrow> \<not> rs_notified rs' \<and> (\<exists>p. rs_armed rs' = Some p \<and> op_waits w p s')
    | Ready (Inl e) \<Rightarrow> \<not> rs_notified rs' | Ready (Inr _) \<Rightarrow> rs_notified rs'"
proof (cases "rs_notified rs \<or> rs_armed rs = None")
  case True
  then show ?thesis using assms by (auto simp: ready_round_def run_then_def split: if_splits sum.splits prod.splits)
next
  case False
  then obtain f pf where a: "rs_armed rs = Some (f, pf)" "\<not> rs_notified rs" by auto
  then obtain q f' pf' s1 where q: "driver_poll_next C U T w f pf s = Some (Inr (q, f', pf', s1))"
    using assms by (auto simp: ready_round_def run_then_def split: option.splits sum.splits)
  show ?thesis using assms a q driver_poll_next_pending [of C U T w f pf s f' pf' s1]
    by (auto simp: ready_round_def run_then_def Let_def split: option.splits sum.splits poll.splits)
qed

lemma poll_ready_result:
  assumes "poll_ready C U T alloc w flags (rs, s) = Some (Inr (r, rs', s'))"
  shows "case r of Pending \<Rightarrow> \<not> rs_notified rs' \<and> (\<exists>p. rs_armed rs' = Some p \<and> op_waits w p s')
    | Ready (Inl e) \<Rightarrow> \<not> rs_notified rs' | Ready (Inr _) \<Rightarrow> rs_notified rs'"
proof -
  let ?Q = "\<lambda>r y. case y of (rs', s') \<Rightarrow> (case r of Pending \<Rightarrow> \<not> rs_notified rs' \<and> (\<exists>p. rs_armed rs' = Some p \<and> op_waits w p s')
    | Ready (Inl e) \<Rightarrow> \<not> rs_notified rs' | Ready (Inr _) \<Rightarrow> rs_notified rs')"
  have "?Q r (rs', s')"
    by (rule loop_until_rule [OF assms [unfolded poll_ready_def], of "\<lambda>_. True"]) (auto dest: ready_round_result split: prod.split)
  then show ?thesis by simp
qed

lemma poll_op_round_result:
  assumes "poll_op_round C U T alloc w flags call (x, rs, s) = Some (Inr (Some r, x', rs', s'))"
  shows "(case r of
      Pending \<Rightarrow> \<not> rs_notified rs' \<and> (\<exists>p. rs_armed rs' = Some p \<and> op_waits w p s')
    | Ready (Inl e) \<Rightarrow> \<not> rs_notified rs' \<or> (\<exists>y. call y = (Try_Error e, x'))
    | Ready (Inr v) \<Rightarrow> rs_notified rs' \<and> (\<exists>y. call y = (Try_Ok v, x')))"
proof -
  obtain q rs1 s1 where q: "poll_ready C U T alloc w flags (rs, s) = Some (Inr (q, rs1, s1))"
    using assms by (auto simp: poll_op_round_def run_then_def split: option.splits sum.splits)
  note ready = poll_ready_result [OF q]
  show ?thesis
  proof (cases "q = Ready (Inr ())")
    case False
    then show ?thesis using assms q ready by (auto simp: poll_op_round_def split: poll.splits sum.splits)
  next
    case True
    obtain t x1 where t: "try_call call (rs_fd rs1) x = Inr (t, x1)"
      using assms q True by (auto simp: poll_op_round_def run_then_def split: sum.splits)
    then have call: "call x = (t, x1)" by (auto simp: try_call_def split: fd_kind.splits)
    show ?thesis
    proof (cases t)
      case Would_Block
      then obtain q2 rs2 s2 where q2: "poll_ready C U T alloc w flags (rs1\<lparr>rs_notified := False\<rparr>, s1) = Some (Inr (q2, rs2, s2))"
        using assms q True t by (auto simp: poll_op_round_def run_then_def split: option.splits sum.splits)
      from poll_ready_result [OF this] show ?thesis using assms q True t Would_Block q2
        by (auto simp: poll_op_round_def split: poll.splits sum.splits)
    qed (use assms q True t call ready in \<open>auto simp: poll_op_round_def\<close>)
  qed
qed

lemma ready_poll_op_result:
  assumes "ready_poll_op C U T alloc w flags call (x, rs, s) = Some (Inr (r, x', rs', s'))"
  shows "case r of
      Pending \<Rightarrow> \<not> rs_notified rs' \<and> (\<exists>p. rs_armed rs' = Some p \<and> op_waits w p s')
    | Ready (Inl e) \<Rightarrow> \<not> rs_notified rs' \<or> (\<exists>y. call y = (Try_Error e, x'))
    | Ready (Inr v) \<Rightarrow> rs_notified rs' \<and> (\<exists>y. call y = (Try_Ok v, x'))"
proof -
  let ?Q = "\<lambda>r y. case y of (x', rs', s') \<Rightarrow> (case r of
      Pending \<Rightarrow> \<not> rs_notified rs' \<and> (\<exists>p. rs_armed rs' = Some p \<and> op_waits w p s')
    | Ready (Inl e) \<Rightarrow> \<not> rs_notified rs' \<or> (\<exists>y. call y = (Try_Error e, x'))
    | Ready (Inr v) \<Rightarrow> rs_notified rs' \<and> (\<exists>y. call y = (Try_Ok v, x')))"
  have "?Q r (x', rs', s')"
    by (rule loop_until_rule [OF assms [unfolded ready_poll_op_def], of "\<lambda>_. True"]) (auto dest: poll_op_round_result)
  then show ?thesis by simp
qed

text \<open>The reads of a stream: what was received is in the buffer, which is advanced by as much.\<close>

lemma stream_read_result:
  assumes "stream_poll_read C L N U T alloc w (b, x) t s = Some (Inr (r, (b', x'), t', s'))"
  shows "ts_writer t' = ts_writer t \<and> (case r of
      Pending \<Rightarrow> \<exists>p. rs_armed (ts_reader t') = Some p \<and> op_waits w p s'
    | Ready (Inl e) \<Rightarrow> \<not> rs_notified (ts_reader t') \<or> (\<exists>y. tc_recv N y = (Try_Error e, b', x'))
    | Ready (Inr _) \<Rightarrow> \<exists>y n b0 b1. tc_recv N y = (Try_Ok n, b0, x') \<and> tc_assume_init N n b0 = Inr b1 \<and> tc_advance N n b1 = Inr b')"
proof -
  obtain rs where rs: "reader_poll_read C L N U T alloc w (b, x) (ts_reader t) s = Some (Inr (r, (b', x'), rs, s'))" "t' = t\<lparr>ts_reader := rs\<rparr>"
    using assms by (auto simp: stream_poll_read_def run_then_def split: option.splits sum.splits)
  obtain q b0 where q: "ready_poll_op C U T alloc w (reader_flags L) (tc_recv N) ((b, x), ts_reader t, s) = Some (Inr (q, (b0, x'), rs, s'))"
    "case q of Pending \<Rightarrow> r = Pending \<and> b' = b0 | Ready (Inl e) \<Rightarrow> r = Ready (Inl e) \<and> b' = b0
     | Ready (Inr n) \<Rightarrow> r = Ready (Inr ()) \<and> (\<exists>b1. tc_assume_init N n b0 = Inr b1 \<and> tc_advance N n b1 = Inr b')"
    using rs(1) by (auto simp: reader_poll_read_def run_then_def split: option.splits sum.splits poll.split_asm)
  from ready_poll_op_result [OF q(1)] q(2) rs(2) show ?thesis by (fastforce split: poll.splits sum.splits)
qed

text \<open>The writes, the flush and the shutdown of a stream.\<close>

lemma stream_write_result:
  assumes "with_writer (writer_poll C L U T alloc w call) x t s = Some (Inr (r, x', t', s'))"
  shows "ts_reader t' = ts_reader t \<and> (case r of
      Pending \<Rightarrow> \<exists>p. rs_armed (ts_writer t') = Some p \<and> op_waits w p s'
    | Ready (Inl e) \<Rightarrow> \<not> rs_notified (ts_writer t') \<or> (\<exists>y. call y = (Try_Error e, x'))
    | Ready (Inr v) \<Rightarrow> \<exists>y. call y = (Try_Ok v, x'))"
proof -
  obtain rs where "ready_poll_op C U T alloc w (writer_flags L) call (x, ts_writer t, s) = Some (Inr (r, x', rs, s'))" "t' = t\<lparr>ts_writer := rs\<rparr>"
    using assms by (auto simp: with_writer_def writer_poll_def run_then_def split: option.splits sum.splits)
  then show ?thesis using ready_poll_op_result by (fastforce split: poll.splits sum.splits)
qed

lemmas stream_writes = stream_poll_write_def stream_poll_flush_def stream_poll_shutdown_def stream_poll_write_vectored_def
  writer_poll_write_def writer_poll_flush_def writer_poll_shutdown_def writer_poll_write_vectored_def

lemma stream_shutdown_pending:
  assumes "stream_poll_shutdown C L N U T alloc w x t s = Some (Inr (Pending, x', t', s'))"
  shows "ts_reader t' = ts_reader t \<and> (\<exists>p. rs_armed (ts_writer t') = Some p \<and> op_waits w p s')"
  using stream_write_result [OF assms [unfolded stream_writes]] by simp

text \<open>
  C37: a poll of a stream that is pending has found the socket not ready and left the waker of its task with the
  readiness operation, in its cell or in the queue of those who wait for the submission queue, so that the
  completion or the room wakes it; a result is what the last call on the socket has returned.
\<close>

theorem stream_pending_waits:
  assumes "ready_poll_op C U T alloc w flags call (x, rs, s) = Some (Inr (r, x', rs', s'))"
  shows "case r of
      Pending \<Rightarrow> \<not> rs_notified rs' \<and> (\<exists>p. rs_armed rs' = Some p \<and> op_waits w p s')
    | Ready (Inl e) \<Rightarrow> \<not> rs_notified rs' \<or> (\<exists>y. call y = (Try_Error e, x'))
    | Ready (Inr v) \<Rightarrow> rs_notified rs' \<and> (\<exists>y. call y = (Try_Ok v, x'))"
  by (rule ready_poll_op_result [OF assms])

definition socket_demo :: "nat \<times> ready_stream \<times> (sim_ring, poll_sock_op) driver" where
  "socket_demo = (5, ready_stream_new (Fd_Regular 3), driver_new (seq_env True) \<lparr> sim_sq = [], sim_cq = [] \<rparr>)"

definition blocking_read :: "nat \<Rightarrow> nat attempt \<times> nat" where
  "blocking_read x = (Would_Block, x)"

theorem stream_pending_waits_witness:
  "\<exists>x rs s p. ready_poll_op (seq_env True) (sim_uring 4) (poll_multi_class (\<lambda>f. bit f 1) True) (\<lambda>_. (2000, 0)) 7
      (reader_flags linux_libc) blocking_read socket_demo = Some (Inr (Pending, x, rs, s)) \<and>
    rs_armed rs = Some p \<and> op_waits 7 p s"
proof -
  let ?run = "ready_poll_op (seq_env True) (sim_uring 4) (poll_multi_class (\<lambda>f. bit f 1) True) (\<lambda>_. (2000, 0)) 7
      (reader_flags linux_libc) blocking_read socket_demo"
  have "case ?run of Some (Inr (q, x, rs, s)) \<Rightarrow> (case q of Pending \<Rightarrow> True | Ready _ \<Rightarrow> False) | _ \<Rightarrow> False" by code_simp
  then obtain x rs s where r: "?run = Some (Inr (Pending, x, rs, s))"
    by (auto split: option.splits sum.splits poll.split_asm)
  from stream_pending_waits [OF this [unfolded socket_demo_def]] r show ?thesis by auto
qed

section \<open>Incoming connections\<close>

lemma incoming_round_result:
  assumes "incoming_round C L A U T alloc w (ic, s) = Some (Inr (Some r, ic', s'))"
  shows "case r of
      Pending \<Rightarrow> (\<exists>p. ic_current ic' = Some p \<and> op_waits w p s')
    | Ready (Some (Inr fd)) \<Rightarrow> ic_current ic' \<noteq> None
    | Ready _ \<Rightarrow> ic_current ic' = None"
proof (cases "ic_current ic")
  case None
  then show ?thesis using assms by (auto simp: incoming_round_def run_then_def split: sum.splits prod.splits)
next
  case (Some q)
  then obtain f pf where a: "ic_current ic = Some (f, pf)" by (cases q) auto
  then obtain v f' pf' s1 where v: "driver_poll_next C U T w f pf s = Some (Inr (v, f', pf', s1))"
    using assms by (auto simp: incoming_round_def run_then_def split: option.splits sum.splits)
  show ?thesis using assms a v driver_poll_next_pending [of C U T w f pf s f' pf' s1]
    by (auto simp: incoming_round_def run_then_def Let_def split: option.splits sum.splits poll.splits)
qed

text \<open>
  C38: a pending stream of connections has left its waker with its accept operation; a connection keeps the
  operation for the next ones; after an error or the end the operation is dropped, so that the next poll
  accepts anew.
\<close>

theorem incoming_pending_waits:
  assumes "incoming_poll_next C L A U T alloc w (ic, s) = Some (Inr (r, ic', s'))"
  shows "case r of
      Pending \<Rightarrow> (\<exists>p. ic_current ic' = Some p \<and> op_waits w p s')
    | Ready (Some (Inr fd)) \<Rightarrow> ic_current ic' \<noteq> None
    | Ready _ \<Rightarrow> ic_current ic' = None"
proof -
  let ?Q = "\<lambda>r y. case y of (ic', s') \<Rightarrow> (case r of
      Pending \<Rightarrow> (\<exists>p. ic_current ic' = Some p \<and> op_waits w p s')
    | Ready (Some (Inr fd)) \<Rightarrow> ic_current ic' \<noteq> None
    | Ready _ \<Rightarrow> ic_current ic' = None)"
  have "?Q r (ic', s')"
    by (rule loop_until_rule [OF assms [unfolded incoming_poll_next_def], of "\<lambda>_. True"]) (auto dest: incoming_round_result)
  then show ?thesis by simp
qed

theorem incoming_pending_waits_witness:
  "\<exists>ic s p. incoming_poll_next (seq_env True) linux_libc \<lparr> sa_from = (\<lambda>x. x), sa_as = Some, sa_init = [] \<rparr> (sim_uring 4)
      (accept_multi_class (seq_env True) (\<lambda>f. bit f 1) True) (\<lambda>_. (2000, 0)) 7
      (incoming_new (Fd_Regular 3), driver_new (seq_env True) \<lparr> sim_sq = [], sim_cq = [] \<rparr>) = Some (Inr (Pending, ic, s)) \<and>
    ic_current ic = Some p \<and> op_waits 7 p s"
proof -
  let ?run = "incoming_poll_next (seq_env True) linux_libc \<lparr> sa_from = (\<lambda>x. x), sa_as = Some, sa_init = [] \<rparr> (sim_uring 4)
      (accept_multi_class (seq_env True) (\<lambda>f. bit f 1) True) (\<lambda>_. (2000, 0)) 7
      (incoming_new (Fd_Regular 3), driver_new (seq_env True) \<lparr> sim_sq = [], sim_cq = [] \<rparr>)"
  have "case ?run of Some (Inr (q, ic, s)) \<Rightarrow> (case q of Pending \<Rightarrow> True | Ready _ \<Rightarrow> False) | _ \<Rightarrow> False" by code_simp
  then obtain ic s where r: "?run = Some (Inr (Pending, ic, s))"
    by (auto split: option.splits sum.splits poll.split_asm)
  from incoming_pending_waits [OF this] r show ?thesis by auto
qed

end
