(* ===== verification/Driver_Client.thy ===== *)
theory Driver_Client
  imports Ring_Properties "HOL-Library.Multiset"
begin

text \<open>
  What the driver of the rings does to its state, once for every assertion on it: an assertion that the
  primitive steps keep - an operation of the ring, a change of the flags, waiters that are fired, an operation
  that completes - is kept by draining, submitting, parking and shutting down. The assertions it is used for are
  an invariant of the ring and the account of the wakers.
\<close>

section \<open>The wakers the operations hold\<close>

definition wakers_in :: "'d raw_op option \<Rightarrow> nat multiset" where
  "wakers_in x = (case x of None \<Rightarrow> {#} | Some r \<Rightarrow> (case ro_waker r of None \<Rightarrow> {#} | Some w \<Rightarrow> {#w#}))"

definition heap_wakers :: "(u64 \<Rightarrow> 'd raw_op option) \<Rightarrow> nat multiset" where
  "heap_wakers m = (\<Sum>a \<in> UNIV. wakers_in (m a))"

lemma heap_wakers_upd: "heap_wakers (m(a := x)) + wakers_in (m a) = heap_wakers m + wakers_in x"
proof -
  have "heap_wakers (m(a := x)) = wakers_in x + (\<Sum>b \<in> UNIV - {a}. wakers_in ((m(a := x)) b))"
    unfolding heap_wakers_def by (subst sum.remove [of UNIV a]) simp_all
  moreover have "(\<Sum>b \<in> UNIV - {a}. wakers_in ((m(a := x)) b)) = (\<Sum>b \<in> UNIV - {a}. wakers_in (m b))"
    by (rule sum.cong) auto
  moreover have "heap_wakers m = wakers_in (m a) + (\<Sum>b \<in> UNIV - {a}. wakers_in (m b))"
    unfolding heap_wakers_def by (subst sum.remove [of UNIV a]) simp_all
  ultimately show ?thesis by simp
qed

text \<open>A step of the heap calls only wakers that operations hold, each one once.\<close>

definition ops_woke :: "'d op_heap \<Rightarrow> 'd op_heap \<Rightarrow> bool" where
  "ops_woke h h' \<longleftrightarrow> (\<exists>ws. oh_woken h' = oh_woken h @ ws \<and> mset ws + heap_wakers (oh_ops h') \<subseteq># heap_wakers (oh_ops h))"

lemma ops_woke_trans: "ops_woke g h \<Longrightarrow> ops_woke h i \<Longrightarrow> ops_woke g i"
  unfolding ops_woke_def
proof (elim exE conjE)
  fix us ws
  assume e: "oh_woken h = oh_woken g @ us" "mset us + heap_wakers (oh_ops h) \<subseteq># heap_wakers (oh_ops g)"
    "oh_woken i = oh_woken h @ ws" "mset ws + heap_wakers (oh_ops i) \<subseteq># heap_wakers (oh_ops h)"
  have "mset us + (mset ws + heap_wakers (oh_ops i)) \<subseteq># mset us + heap_wakers (oh_ops h)" using e(4) by simp
  from subset_mset.order_trans [OF this e(2)]
  show "\<exists>ws. oh_woken i = oh_woken g @ ws \<and> mset ws + heap_wakers (oh_ops i) \<subseteq># heap_wakers (oh_ops g)"
    using e(1,3) by (intro exI [of _ "us @ ws"]) (simp add: add.assoc)
qed

lemma ops_woke_put:
  assumes "op_at a h = Inr r" and "ro_waker r' = ro_waker r \<or> ro_waker r' = None"
  shows "ops_woke h (put_op a r' h)"
proof -
  have "heap_wakers ((oh_ops h)(a := Some r')) + wakers_in (Some r) = heap_wakers (oh_ops h) + wakers_in (Some r')"
    using heap_wakers_upd [of "oh_ops h" a "Some r'"] assms(1) by (simp add: op_at_def split: option.splits)
  moreover obtain s where "wakers_in (Some r) = wakers_in (Some r') + s"
    using assms(2) by (cases "ro_waker r' = ro_waker r") (auto simp: wakers_in_def)
  ultimately have "heap_wakers (oh_ops h) = heap_wakers ((oh_ops h)(a := Some r')) + s" by simp
  then have "heap_wakers ((oh_ops h)(a := Some r')) \<subseteq># heap_wakers (oh_ops h)" by simp
  then show ?thesis by (simp add: ops_woke_def put_op_def)
qed

lemma ops_woke_free:
  assumes "oh_ops h' = (oh_ops h)(a := None)" and "oh_woken h' = oh_woken h"
  shows "ops_woke h h'"
  using heap_wakers_upd [of "oh_ops h" a None] assms by (auto simp: ops_woke_def wakers_in_def) (metis mset_subset_eq_add_left)

lemma drop_op_ref_woke:
  assumes "drop_op_ref T a h = Inr h'"
  shows "ops_woke h h'"
proof -
  obtain r l q where r: "op_at a h = Inr r" "dec_refcount (cl_debug T) r = Inr (l, q)"
    "(if l then destroy_op T a (put_op a q h) else Inr (put_op a q h)) = Inr h'"
    using assms by (auto simp: drop_op_ref_def)
  have "ro_waker q = ro_waker r" using r(2) by (auto simp: dec_refcount_def assert_that_def split: if_splits)
  then have p: "ops_woke h (put_op a q h)" using ops_woke_put [OF r(1)] by blast
  show ?thesis
  proof (cases l)
    case True
    then have "ops_woke (put_op a q h) h'"
      using r(3) by (intro ops_woke_free [of _ _ a]) (auto simp: destroy_op_def put_op_def op_at_def debug_assert_def split: option.splits if_splits)
    then show ?thesis using ops_woke_trans [OF p] by blast
  next
    case False
    then show ?thesis using r(3) p by simp
  qed
qed

lemma raw_complete_woke:
  assumes "raw_complete T a res h = Inr h'"
  shows "ops_woke h h'"
proof -
  obtain r where r: "op_at a h = Inr r" using assms by (auto simp: raw_complete_def)
  define q where "q = r\<lparr>ro_completions := ro_completions r @ [res]\<rparr>"
  define r' where "r' = (if cqe_more T res then q else q\<lparr>ro_complete := True\<rparr>)\<lparr>ro_waker := None\<rparr>"
  have r': "ro_waker r' = None"
    "h' = (put_op a r' h)\<lparr>oh_woken := oh_woken h @ (case ro_waker r of None \<Rightarrow> [] | Some k \<Rightarrow> [k])\<rparr>"
    using assms r by (auto simp: raw_complete_def take_waker_def Let_def assert_that_def r'_def q_def split: if_splits)
  have "heap_wakers ((oh_ops h)(a := Some r')) + wakers_in (Some r) = heap_wakers (oh_ops h)"
    using heap_wakers_upd [of "oh_ops h" a "Some r'"] r r'(1) by (simp add: op_at_def wakers_in_def split: option.splits)
  then show ?thesis using r'(2) by (auto simp: ops_woke_def put_op_def wakers_in_def add.commute split: option.splits)
qed

lemma complete_operation_woke: "complete_operation T e h = Inr h' \<Longrightarrow> ops_woke h h'"
  by (auto simp: complete_operation_def ref_complete_def split: if_splits
      intro: raw_complete_woke ops_woke_trans [OF raw_complete_woke drop_op_ref_woke])

section \<open>Assertions the primitive steps keep\<close>

definition wait_of :: "nat \<Rightarrow> nat \<times> nat" where
  "wait_of t = (t div 1000000000, t mod 1000000000)"

definition mode_allowed :: "((nat \<times> nat) option \<Rightarrow> bool) \<Rightarrow> park_mode \<Rightarrow> bool" where
  "mode_allowed A m \<longleftrightarrow> (case m of NoPark \<Rightarrow> True | NextCompletion \<Rightarrow> A None | Timeout t \<Rightarrow> A (Some (wait_of t)))"

locale driver_client =
  fixes U :: "'k uring" and K :: "('k, 'd) driver \<Rightarrow> bool" and A :: "(nat \<times> nat) option \<Rightarrow> bool"
  assumes put_push: "K s \<Longrightarrow> ur_sq_push U e (dr_ring s) = Some k \<Longrightarrow> K (s\<lparr>dr_ring := k\<rparr>)"
    and put_fill: "K s \<Longrightarrow> K (s\<lparr>dr_ring := snd (ur_cq_fill U n (dr_ring s))\<rparr>)"
    and put_submit: "K s \<Longrightarrow> K (s\<lparr>dr_ring := snd (ur_submit U (dr_ring s))\<rparr>)"
    and put_wait: "K s \<Longrightarrow> A t \<Longrightarrow> K (s\<lparr>dr_ring := snd (ur_submit_args U n t (dr_ring s))\<rparr>)"
    and put_cancel: "K s \<Longrightarrow> K (s\<lparr>dr_ring := snd (ur_sync_cancel U c (dr_ring s))\<rparr>)"
    and put_flag: "K s \<Longrightarrow> K (s\<lparr>dr_unparker := f\<rparr>)"
    and put_event: "K s \<Longrightarrow> K (s\<lparr>dr_event := i\<rparr>)"
    and put_status: "K s \<Longrightarrow> K (s\<lparr>dr_status := st\<rparr>)"
    and put_fired: "linked_list C \<Longrightarrow> K s \<Longrightarrow> notify_n C m (dr_backpressure s) = Some (Inr (r, b)) \<Longrightarrow> K (s\<lparr>dr_backpressure := b\<rparr>)"
    and put_ops: "K s \<Longrightarrow> ops_woke (dr_ops s) h \<Longrightarrow> K (s\<lparr>dr_ops := h\<rparr>)"
begin

lemma notify_waiting_keeps:
  assumes "linked_list C" and "K s" and "notify_waiting C n s = Some (Inr s')"
  shows "K s'"
  using assms put_fired by (auto simp: notify_waiting_def run_then_def split: option.splits sum.splits)

lemma set_status_keeps:
  assumes "linked_list C" and "K s" and "set_status C st s = Some (Inr s')"
  shows "K s'"
  using assms notify_waiting_keeps put_status
  by (auto simp: set_status_def run_then_def split: option.splits sum.splits if_splits)

lemma drain_entry_keeps:
  assumes "linked_list C" and "K s" and "drain_entry C T e s = Some (Inr s')"
  shows "K s'"
  using assms(3) set_status_keeps [OF assms(1,2), of Status_Shutdown s'] put_flag [OF assms(2)]
    put_ops [OF assms(2) complete_operation_woke] assms(2)
  by (auto simp: drain_entry_def Let_def split: if_splits)

lemma drain_entries_keeps:
  "linked_list C \<Longrightarrow> K s \<Longrightarrow> drain_entries C T es s = Some (Inr s') \<Longrightarrow> K s'"
proof (induction es arbitrary: s)
  case (Cons e es)
  then show ?case using drain_entry_keeps [OF Cons.prems(1,2), of T e]
    by (auto simp: run_then_def split: option.splits sum.splits)
qed simp

lemma drain_loop_keeps:
  fixes s :: "('k, 'd) driver" and T :: "('d, 'o, 'i) op_class"
  assumes C: "linked_list C" and k: "K s" and run: "drain_loop C U T n s = Some (Inr (m, s'))"
  shows "K s'"
proof -
  let ?Q = "\<lambda>(C' :: env) U' (T' :: ('d, 'o, 'i) op_class) (n :: nat) (s :: ('k, 'd) driver) (r :: fault + nat \<times> ('k, 'd) driver). C' = C \<longrightarrow> U' = U \<longrightarrow> K s \<longrightarrow> (\<forall>m s'. r = Inr (m, s') \<longrightarrow> K s')"
  have "?Q C U T n s (Inr (m, s'))"
  proof (rule drain_loop.raw_induct [of ?Q C U T n s "Inr (m, s')", OF _ run])
    fix loop C' U' T' n s r
    assume IH: "\<And>C U T n s r. loop C U T n s = Some r \<Longrightarrow> ?Q C U T n s r"
      and body: "(case drain_fill U' 32 s of (es, has_more, s) \<Rightarrow> run_then (drain_entries C' T' es s) (\<lambda>s.
        if \<not> has_more then Some (Inr (n + length es, s)) else loop C' U' T' (n + length es) s)) = Some r"
    have "K s'" if e: "C' = C" "U' = U" "K s" "r = Inr (m, s')" for m s'
    proof -
      obtain es more s1 where f: "drain_fill U 32 s = (es, more, s1)" by (cases "drain_fill U 32 s") auto
      have k1: "K s1" using f put_fill [OF e(3), of 32] by (auto simp: drain_fill_def Let_def split: prod.splits)
      obtain s2 where s2: "drain_entries C T' es s1 = Some (Inr s2)"
        using body e f by (auto simp: run_then_def split: option.splits sum.splits)
      have k2: "K s2" by (rule drain_entries_keeps [OF C k1 s2])
      show ?thesis
      proof (cases more)
        case True
        then have "loop C U T' (n + length es) s2 = Some r" using body e f s2 by simp
        from IH [OF this] show ?thesis using k2 e(4) by simp
      next
        case False
        then show ?thesis using body e f s2 k2 by simp
      qed
    qed
    then show "?Q C' U' T' n s r" by simp
  qed
  then show ?thesis using k by simp
qed

lemma driver_drain_keeps: "linked_list C \<Longrightarrow> K s \<Longrightarrow> driver_drain C U T s = Some (Inr (n, s')) \<Longrightarrow> K s'"
  by (simp add: driver_drain_def drain_loop_keeps)

lemma shared_submit_keeps:
  assumes C: "linked_list C" and k: "K s" and m: "mode_allowed A mode"
    and run: "shared_submit C U mode s = Some (Inr (r, s'))"
  shows "K s'"
proof -
  obtain q k1 where q: "(case mode of
      Timeout t \<Rightarrow> ur_submit_args U 1 (Some (t div 1000000000, t mod 1000000000)) (dr_ring s)
    | NextCompletion \<Rightarrow> ur_submit_args U 1 None (dr_ring s)
    | NoPark \<Rightarrow> ur_submit U (dr_ring s)) = (q, k1)" by fastforce
  have k1: "K (s\<lparr>dr_ring := k1\<rparr>)"
    using q m put_submit [OF k] put_wait [OF k, of _ 1]
    by (cases mode) (auto simp: mode_allowed_def wait_of_def, (metis snd_conv)+)
  show ?thesis
  proof (cases q)
    case (Inl e)
    then show ?thesis using run q k1 by (simp add: shared_submit_def)
  next
    case (Inr n)
    then show ?thesis using run q notify_waiting_keeps [OF C k1, of n]
      by (auto simp: shared_submit_def run_then_def split: option.splits sum.splits)
  qed
qed

lemma try_push_raw_keeps: "K s \<Longrightarrow> K (snd (try_push_raw U e s))"
  by (auto simp: try_push_raw_def intro: put_push split: option.splits)

lemma prepare_park_keeps:
  assumes "K s"
  shows "K (snd (prepare_park U s))"
proof -
  have u: "K (s\<lparr>dr_unparker := f\<rparr>)" for f using put_flag [OF assms] .
  obtain st f where st: "unparker_park (dr_unparker s) = (st, f)" by fastforce
  obtain ok s1 where s1: "try_push_raw U event_read (s\<lparr>dr_unparker := f\<rparr>) = (ok, s1)" by fastforce
  then have "K s1" using try_push_raw_keeps [OF u] by (metis snd_conv)
  then show ?thesis using assms u st s1 by (simp add: prepare_park_def Let_def)
qed

lemma driver_submit_keeps:
  assumes C: "linked_list C" and k: "K s" and m: "mode_allowed A mode"
    and run: "driver_submit C U mode s = Some (Inr (r, s'))"
  shows "K s'"
proof (cases "mode = NoPark")
  case True
  then show ?thesis using run shared_submit_keeps [OF C k m] by (simp add: driver_submit_def)
next
  case False
  obtain ready s1 where p: "prepare_park U s = (ready, s1)" by fastforce
  then have "K s1" using prepare_park_keeps [OF k] by (metis snd_conv)
  moreover have "mode_allowed A (if ready then mode else NoPark)" using m by (simp add: mode_allowed_def)
  moreover have "shared_submit C U (if ready then mode else NoPark) s1 = Some (Inr (r, s'))"
    using run p False by (simp add: driver_submit_def)
  ultimately show ?thesis using shared_submit_keeps [OF C] by blast
qed

lemma park_loop_keeps:
  fixes s :: "('k, 'd) driver" and T :: "('d, 'o, 'i) op_class"
  assumes C: "linked_list C" and k: "K s" and m: "mode_allowed A mode" and run: "park_loop C U T mode s = Some (Inr (r, s'))"
  shows "K s'"
proof -
  let ?Q = "\<lambda>(C' :: env) U' (T' :: ('d, 'o, 'i) op_class) mode (s :: ('k, 'd) driver) (q :: fault + (io_error + unit) \<times> ('k, 'd) driver).
    C' = C \<longrightarrow> U' = U \<longrightarrow> K s \<longrightarrow> mode_allowed A mode \<longrightarrow> (\<forall>r s'. q = Inr (r, s') \<longrightarrow> K s')"
  have "?Q C U T mode s (Inr (r, s'))"
  proof (rule park_loop.raw_induct [of ?Q C U T mode s "Inr (r, s')", OF _ run])
    fix loop C' U' T' mode s q
    assume IH: "\<And>C U T mode s q. loop C U T mode s = Some q \<Longrightarrow> ?Q C U T mode s q"
      and body: "run_then (driver_submit C' U' mode s) (\<lambda>(r, s). case r of
         Inr _ \<Rightarrow> Some (Inr (Inr (), s))
       | Inl x \<Rightarrow>
           if x = Os_Error (ur_ebusy U')
           then run_then (driver_drain C' U' T' s) (\<lambda>(_, s). loop C' U' T' NoPark s)
           else if x = Os_Error (ur_eintr U') then loop C' U' T' mode s
           else Some (Inr (Inl x, s))) = Some q"
    have "K s'" if e: "C' = C" "U' = U" "K s" "mode_allowed A mode" "q = Inr (r, s')" for r s'
    proof -
      obtain r1 s1 where s1: "driver_submit C U mode s = Some (Inr (r1, s1))"
        using body e by (auto simp: run_then_def split: option.splits sum.splits)
      have k1: "K s1" by (rule driver_submit_keeps [OF C e(3,4) s1])
      show ?thesis
      proof (cases r1)
        case (Inr u)
        then show ?thesis using body e s1 k1 by simp
      next
        case (Inl x)
        consider (busy) "x = Os_Error (ur_ebusy U)" | (intr) "x \<noteq> Os_Error (ur_ebusy U)" "x = Os_Error (ur_eintr U)"
          | (other) "x \<noteq> Os_Error (ur_ebusy U)" "x \<noteq> Os_Error (ur_eintr U)" by blast
        then show ?thesis
        proof cases
          case busy
          then obtain n s2 where s2: "driver_drain C U T' s1 = Some (Inr (n, s2))"
            using body e s1 Inl by (auto simp: run_then_def split: option.splits sum.splits)
          then have "loop C U T' NoPark s2 = Some q" using body e s1 Inl busy by simp
          from IH [OF this] show ?thesis using driver_drain_keeps [OF C k1 s2] e(5) by (simp add: mode_allowed_def)
        next
          case intr
          then have "loop C U T' mode s1 = Some q" using body e s1 Inl by simp
          from IH [OF this] show ?thesis using k1 e(4,5) by simp
        next
          case other
          then show ?thesis using body e s1 Inl k1 by simp
        qed
      qed
    qed
    then show "?Q C' U' T' mode s q" by blast
  qed
  then show ?thesis using k m by blast
qed

lemma driver_park_keeps:
  assumes C: "linked_list C" and k: "K s" and m: "mode_allowed A mode" and run: "driver_park C U T mode s = Some (Inr (r, s'))"
  shows "K s'"
proof -
  obtain n s1 where s1: "driver_drain C U T s = Some (Inr (n, s1))" "park_loop C U T (if 0 < n then NoPark else mode) s1 = Some (Inr (r, s'))"
    using run by (auto simp: driver_park_def run_then_def split: option.splits sum.splits)
  have "mode_allowed A (if 0 < n then NoPark else mode)" using m by (simp add: mode_allowed_def)
  then show ?thesis using park_loop_keeps [OF C driver_drain_keeps [OF C k s1(1)]] s1(2) by blast
qed

lemma shutdown_running_keeps:
  assumes C: "linked_list C" and k: "K s" and run: "shutdown_running C U s = Some (Inr s')"
  shows "K s'"
proof -
  have w: "K (driver_wake s)" using put_event [OF put_flag [OF k]] by (simp add: driver_wake_def split: prod.splits)
  obtain n s1 where s1: "shared_submit C U NoPark (driver_wake s) = Some (Inr (Inr n, s1))"
    using run by (auto simp: shutdown_running_def run_then_def split: option.splits sum.splits)
  have k1: "K s1" using shared_submit_keeps [OF C w _ s1] by (simp add: mode_allowed_def)
  obtain q s2 where s2: "cancel_all U s1 = (q, s2)" by fastforce
  then have k2: "K s2" using put_cancel [OF k1, of None]
    by (auto simp: cancel_all_def Let_def split: prod.splits)
  let ?e = "(sqe_build Sqe_Nop)\<lparr>sq_io_drain := True, sq_user_data := DRAIN_TOKEN\<rparr>"
  obtain ok s3 where s3: "try_push_raw U ?e s2 = (ok, s3)" by fastforce
  then have k3: "K s3" using try_push_raw_keeps [OF k2, of ?e] by simp
  have "(if ok then set_status C Status_Draining s3 else Some (Inr s3)) = Some (Inr s')"
    using run s1 s2 s3 by (auto simp: shutdown_running_def split: sum.splits)
  then show ?thesis using set_status_keeps [OF C k3, of Status_Draining] k3 by (auto split: if_splits)
qed

lemma driver_shutdown_keeps:
  fixes s :: "('k, 'd) driver" and T :: "('d, 'o, 'i) op_class"
  assumes C: "linked_list C" and k: "K s" and A: "A None" and run: "driver_shutdown C U T s = Some (Inr s')"
  shows "K s'"
proof -
  let ?Q = "\<lambda>(C' :: env) U' (T' :: ('d, 'o, 'i) op_class) (s :: ('k, 'd) driver) (q :: fault + ('k, 'd) driver).
    C' = C \<longrightarrow> U' = U \<longrightarrow> K s \<longrightarrow> (\<forall>s'. q = Inr s' \<longrightarrow> K s')"
  have "?Q C U T s (Inr s')"
  proof (rule driver_shutdown.raw_induct [of ?Q C U T s "Inr s'", OF _ run])
    fix loop C' U' T' s q
    assume IH: "\<And>C U T s q. loop C U T s = Some q \<Longrightarrow> ?Q C U T s q"
      and body: "(if dr_status s = Status_Shutdown then Some (Inr s)
      else
        run_then (if dr_status s = Status_Running then shutdown_running C' U' s else Some (Inr s)) (\<lambda>s.
        run_then (if dr_status s = Status_Draining
            then run_then (driver_park C' U' T' NextCompletion s) (\<lambda>(r, s). case r of
                   Inl _ \<Rightarrow> Some (Inl Panic) | Inr _ \<Rightarrow> Some (Inr s))
            else Some (Inr s)) (\<lambda>s.
        loop C' U' T' s))) = Some q"
    have "K s'" if e: "C' = C" "U' = U" "K s" "q = Inr s'" for s'
    proof (cases "dr_status s = Status_Shutdown")
      case True
      then show ?thesis using body e by simp
    next
      case False
      obtain s1 where s1: "(if dr_status s = Status_Running then shutdown_running C U s else Some (Inr s)) = Some (Inr s1)"
        using body e False by (auto simp: run_then_def split: option.splits sum.splits if_splits)
      then have k1: "K s1" using shutdown_running_keeps [OF C e(3)] e(3) by (auto split: if_splits)
      have body1: "run_then (if dr_status s1 = Status_Draining
            then run_then (driver_park C U T' NextCompletion s1) (\<lambda>(r, s). case r of
                   Inl _ \<Rightarrow> Some (Inl Panic) | Inr _ \<Rightarrow> Some (Inr s))
            else Some (Inr s1)) (loop C U T') = Some q"
        using body [unfolded e(1,2)] by (simp only: False if_False s1 run_then_simps)
      obtain s2 where s2: "K s2" "loop C U T' s2 = Some q"
      proof (cases "dr_status s1 = Status_Draining")
        case True
        then obtain u s2 where "driver_park C U T' NextCompletion s1 = Some (Inr (Inr u, s2))" "loop C U T' s2 = Some q"
          using body1 e(4) by (auto simp: run_then_def split: option.splits sum.splits)
        note s2 = this
        have "K s2" by (rule driver_park_keeps [OF C k1 _ s2(1)]) (simp add: mode_allowed_def A)
        then show ?thesis using that s2(2) by blast
      next
        case False
        then show ?thesis using that body1 k1 by simp
      qed
      from IH [OF s2(2)] show ?thesis using s2(1) e(4) by simp
    qed
    then show "?Q C' U' T' s q" by blast
  qed
  then show ?thesis using k by blast
qed

end

end
