(* ===== verification/Runtime.thy ===== *)
theory Runtime
  imports Timer_Properties Driver_Client
begin

text \<open>
  The layers of the runtime put together: the reactor (\<open>impl Park for Driver\<close> of
  \<open>norn-uring/src/driver/mod.rs\<close>, with the thread-local handle of \<open>driver/context.rs\<close>) and the timer on top of any
  layer (\<open>impl Park for Driver\<close> of \<open>norn-timer/src/lib.rs\<close>) are records of the operations of \<open>Park\<close> and keep
  its contract. What the driver does to any ring it runs on is proved once, over an invariant of that ring.
\<close>

section \<open>The reactor as a layer\<close>

text \<open>The driver and the thread-local handle, of which only matters whether it is set.\<close>

record ('k, 'd) reactor =
  re_driver :: "('k, 'd) driver"
  re_context :: "unit option"

definition reactor_park ::
  "env \<Rightarrow> 'k uring \<Rightarrow> ('d, 'o, 'i) op_class \<Rightarrow> park_mode \<Rightarrow> ('k, 'd) reactor
   \<Rightarrow> (fault + ((io_error + unit) \<times> ('k, 'd) reactor)) option"
where
  "reactor_park C U T mode p =
     run_then (driver_park C U T mode (re_driver p)) (\<lambda>(r, s). Some (Inr (r, p\<lparr>re_driver := s\<rparr>)))"

definition reactor_enter :: "('k, 'd) reactor \<Rightarrow> fault + ('k, 'd) reactor" where
  "reactor_enter p = and_then (driver_ctx_enter () (re_context p)) (\<lambda>c. Inr (p\<lparr>re_context := c\<rparr>))"

definition reactor_leave :: "('k, 'd) reactor \<Rightarrow> fault + ('k, 'd) reactor" where
  "reactor_leave p = and_then (driver_ctx_leave (re_context p)) (\<lambda>c. Inr (p\<lparr>re_context := c\<rparr>))"

definition reactor_shutdown ::
  "env \<Rightarrow> 'k uring \<Rightarrow> ('d, 'o, 'i) op_class \<Rightarrow> ('k, 'd) reactor \<Rightarrow> (fault + ('k, 'd) reactor) option"
where
  "reactor_shutdown C U T p = run_then (driver_shutdown C U T (re_driver p)) (\<lambda>s. Some (Inr (p\<lparr>re_driver := s\<rparr>)))"

definition reactor_ops :: "env \<Rightarrow> 'k uring \<Rightarrow> ('d, 'o, 'i) op_class \<Rightarrow> ('k, 'd) reactor park_ops" where
  "reactor_ops C U T = \<lparr> pk_park = reactor_park C U T, pk_enter = reactor_enter, pk_leave = reactor_leave,
     pk_needs_park = (\<lambda>p. driver_needs_park U (re_driver p)), pk_shutdown = reactor_shutdown C U T \<rparr>"

section \<open>The timer as a layer\<close>

text \<open>The drop of the guard: the timer's own, then that of the layer below.\<close>

definition timer_leave :: "'p park_ops \<Rightarrow> 'p timer_driver \<Rightarrow> fault + 'p timer_driver" where
  "timer_leave L d =
     and_then (timer_ctx_leave (td_context d)) (\<lambda>c.
     and_then (pk_leave L (td_inner d)) (\<lambda>p.
     Inr (d\<lparr>td_context := c, td_inner := p\<rparr>)))"

definition timer_driver_new :: "env \<Rightarrow> 'p \<Rightarrow> clock \<Rightarrow> 'p timer_driver" where
  "timer_driver_new C p c = \<lparr> td_wheels = wheels_new C, td_inner = p, td_clock = c, td_context = None \<rparr>"

definition timer_park_ops :: "env \<Rightarrow> 'p park_ops \<Rightarrow> nat \<Rightarrow> 'p timer_driver park_ops" where
  "timer_park_ops C L sysnow = \<lparr> pk_park = timer_park C L sysnow, pk_enter = timer_enter L, pk_leave = timer_leave L,
     pk_needs_park = timer_needs_park L, pk_shutdown = timer_shutdown C L \<rparr>"

text \<open>The clock does not run backwards, and the wheel has room for the present.\<close>

definition timer_ready :: "nat \<Rightarrow> 'p timer_driver \<Rightarrow> bool" where
  "timer_ready sysnow d \<longleftrightarrow> wheels_ok (td_wheels d) \<and> room (wh_elapsed (td_wheels d)) \<and>
     (\<forall>t. clock_tick sysnow (td_clock d) = Inr t \<longrightarrow> wh_elapsed (td_wheels d) \<le> t \<and> room t)"

lemma timer_park_result:
  assumes C: "linked_list C" and ok: "timer_ready sysnow d" and run: "timer_park C L sysnow m d = Some (Inr (r, d'))"
  shows "\<exists>t mode w p. clock_tick sysnow (td_clock d) = Inr t \<and> pk_park L mode (td_inner d) = Some (Inr (r, p)) \<and>
    d' = d\<lparr>td_wheels := w, td_inner := p\<rparr> \<and> wheels_ok w \<and> wh_elapsed w = t \<and>
    (\<forall>i e. timers (wh_sleeps w) i = Some e \<longrightarrow> (\<exists>x. mode = Timeout x \<and> x \<le> (e - unat t) * 1000000))"
proof -
  obtain t where t: "clock_tick sysnow (td_clock d) = Inr t"
    using run by (cases "clock_tick sysnow (td_clock d)") (auto simp: timer_park_def)
  have w: "wheels_ok (td_wheels d)" "wh_elapsed (td_wheels d) \<le> t" "room t" using ok t by (auto simp: timer_ready_def)
  obtain fired nxt w' js where adv: "advance C t (td_wheels d) = Some (Inr (fired, nxt, w'))"
    "wheels_ok w'" "wh_elapsed w' = t" "next_deadline_ok w' nxt"
    using advance_correct [OF C w] by (auto simp: advance_result_def)
  let ?m = "timer_park_mode t fired nxt m"
  have eq: "timer_park C L sysnow m d =
      run_then (pk_park L ?m (td_inner d)) (\<lambda>(res, p). Some (Inr (res, d\<lparr>td_wheels := w', td_inner := p\<rparr>)))"
    using t adv(1) by (simp add: timer_park_def)
  then obtain p where "pk_park L ?m (td_inner d) = Some (Inr (r, p))" "d' = d\<lparr>td_wheels := w', td_inner := p\<rparr>"
    using run by (auto simp: run_then_def split: option.splits sum.splits)
  then show ?thesis using t adv(2,3) timer_park_mode_bound [OF adv(4,3)] by blast
qed

lemma timer_shutdown_result:
  assumes C: "linked_list C" and ok: "wheels_ok (td_wheels d)" and rm: "room (wh_elapsed (td_wheels d))"
    and run: "timer_shutdown C L d = Some (Inr d')"
  shows "\<exists>w p. pk_shutdown L (td_inner d) = Some (Inr p) \<and> d' = d\<lparr>td_wheels := w, td_inner := p\<rparr> \<and>
    wheels_ok w \<and> wh_elapsed w = wh_elapsed (td_wheels d)"
proof -
  obtain w where w: "wheels_shutdown C (td_wheels d) = Some (Inr w)" "wheels_ok w" "wh_elapsed w = wh_elapsed (td_wheels d)"
    using wheels_shutdown_spec [OF C rm ok] by blast
  then show ?thesis using run by (auto simp: timer_shutdown_def run_then_def split: option.splits sum.splits)
qed

text \<open>On any layer that keeps the contract, the timer keeps it.\<close>

definition timer_ok :: "nat \<Rightarrow> ('p \<Rightarrow> bool) \<Rightarrow> ('p \<Rightarrow> bool) \<Rightarrow> 'p timer_driver \<Rightarrow> bool" where
  "timer_ok sysnow ok inside d \<longleftrightarrow> timer_ready sysnow d \<and> ok (td_inner d) \<and> (inside (td_inner d) \<longleftrightarrow> td_context d \<noteq> None)"

definition timer_inside :: "'p timer_driver \<Rightarrow> bool" where
  "timer_inside d \<longleftrightarrow> td_context d \<noteq> None"

lemma timer_keeps_contract:
  assumes C: "linked_list C" and L: "park_layer L ok inside"
  shows "park_layer (timer_park_ops C L sysnow) (timer_ok sysnow ok inside) timer_inside"
proof
  fix d m r d'
  assume d: "timer_ok sysnow ok inside d" and run: "pk_park (timer_park_ops C L sysnow) m d = Some (Inr (r, d'))"
  have e: "timer_park C L sysnow m d = Some (Inr (r, d'))" using run by (simp add: timer_park_ops_def)
  have rd: "timer_ready sysnow d" using d by (simp add: timer_ok_def)
  obtain t mode w p where t: "clock_tick sysnow (td_clock d) = Inr t" "pk_park L mode (td_inner d) = Some (Inr (r, p))"
    "d' = d\<lparr>td_wheels := w, td_inner := p\<rparr>" "wheels_ok w" "wh_elapsed w = t"
    using timer_park_result [OF C rd e] by (elim exE conjE) (rule that)
  then have "ok p \<and> (inside p \<longleftrightarrow> inside (td_inner d))" using park_layer.park_keeps [OF L] d by (auto simp: timer_ok_def)
  then show "timer_ok sysnow ok inside d' \<and> (timer_inside d' \<longleftrightarrow> timer_inside d)"
    using d t by (simp add: timer_ready_def timer_ok_def timer_inside_def)
next
  fix d
  assume d: "timer_ok sysnow ok inside d" and out: "\<not> timer_inside d"
  obtain p where "pk_enter L (td_inner d) = Inr p" "ok p" "inside p"
    using park_layer.enter_keeps [OF L, of "td_inner d"] d out by (auto simp: timer_ok_def timer_inside_def)
  moreover have "td_context d = None" using out by (simp only: timer_inside_def not_not)
  ultimately show "\<exists>d'. pk_enter (timer_park_ops C L sysnow) d = Inr d' \<and> timer_ok sysnow ok inside d' \<and> timer_inside d'"
    using d by (simp add: timer_park_ops_def timer_enter_def timer_ctx_enter_def timer_ready_def timer_ok_def timer_inside_def)
next
  fix d
  assume d: "timer_ok sysnow ok inside d" and inn: "timer_inside d"
  obtain p where "pk_leave L (td_inner d) = Inr p" "ok p" "\<not> inside p"
    using park_layer.leave_keeps [OF L, of "td_inner d"] d inn by (auto simp: timer_ok_def timer_inside_def)
  then show "\<exists>d'. pk_leave (timer_park_ops C L sysnow) d = Inr d' \<and> timer_ok sysnow ok inside d' \<and> \<not> timer_inside d'"
    using d inn by (simp add: timer_park_ops_def timer_leave_def timer_ctx_leave_def timer_ready_def timer_ok_def timer_inside_def)
next
  fix d d'
  assume d: "timer_ok sysnow ok inside d" and run: "pk_shutdown (timer_park_ops C L sysnow) d = Some (Inr d')"
  have e: "timer_shutdown C L d = Some (Inr d')" using run by (simp add: timer_park_ops_def)
  have rd: "wheels_ok (td_wheels d)" "room (wh_elapsed (td_wheels d))" using d by (simp_all add: timer_ok_def timer_ready_def)
  obtain w p where w: "pk_shutdown L (td_inner d) = Some (Inr p)" "d' = d\<lparr>td_wheels := w, td_inner := p\<rparr>" "wheels_ok w"
    "wh_elapsed w = wh_elapsed (td_wheels d)"
    using timer_shutdown_result [OF C rd e] by (elim exE conjE) (rule that)
  then have "ok p \<and> (inside p \<longleftrightarrow> inside (td_inner d))" using park_layer.shutdown_keeps [OF L] d by (auto simp: timer_ok_def)
  then show "timer_ok sysnow ok inside d' \<and> (timer_inside d' \<longleftrightarrow> timer_inside d)"
    using d w by (simp add: timer_ready_def timer_ok_def timer_inside_def)
qed

section \<open>What the driver does to the rings it runs on\<close>

text \<open>
  An invariant \<open>I\<close> of the rings that every operation the driver uses keeps, the blocking submission for the
  waits that \<open>A\<close> allows.
\<close>

locale ring_client =
  fixes U :: "'k uring" and I :: "'k \<Rightarrow> bool" and A :: "(nat \<times> nat) option \<Rightarrow> bool"
  assumes push_keeps: "I k \<Longrightarrow> ur_sq_push U e k = Some k' \<Longrightarrow> I k'"
    and fill_keeps: "I k \<Longrightarrow> I (snd (ur_cq_fill U n k))"
    and submit_keeps: "I k \<Longrightarrow> I (snd (ur_submit U k))"
    and wait_keeps: "I k \<Longrightarrow> A t \<Longrightarrow> I (snd (ur_submit_args U n t k))"
    and cancel_keeps: "I k \<Longrightarrow> I (snd (ur_sync_cancel U c k))"
begin

definition kept :: "('k, 'd) driver \<Rightarrow> bool" where
  "kept s \<longleftrightarrow> notify_inv (dr_backpressure s) \<and> I (dr_ring s)"

lemma notify_waiting_kept:
  assumes "linked_list C" and "kept s"
  shows "\<exists>b. notify_waiting C n s = Some (Inr (s\<lparr>dr_backpressure := b\<rparr>)) \<and> kept (s\<lparr>dr_backpressure := b\<rparr>)"
proof -
  have "notify_inv (dr_backpressure s)" using assms(2) by (simp add: kept_def)
  from notify_n_spec [OF assms(1) this refl, of n] obtain r b where "notify_n C n (dr_backpressure s) = Some (Inr (r, b))" "notify_inv b" by blast
  then show ?thesis using assms(2) by (auto simp: notify_waiting_def kept_def)
qed

end

sublocale ring_client \<subseteq> driver_client U kept A
proof
  fix C n r b s
  assume C: "linked_list C" and s: "kept s" and run: "notify_n C n (dr_backpressure s) = Some (Inr (r, b))"
  have "notify_inv b" using notify_n_spec [OF C _ refl, of "dr_backpressure s" n] s run by (auto simp: kept_def)
  then show "kept (s\<lparr>dr_backpressure := b\<rparr>)" using s by (simp add: kept_def)
qed (auto simp: kept_def dest: push_keeps intro: fill_keeps submit_keeps wait_keeps cancel_keeps)

section \<open>The contract of the reactor\<close>

text \<open>No ring can break the list of waiters, so on any ring the reactor keeps the contract of a layer.\<close>

interpretation any_ring: ring_client U "\<lambda>_. True" "\<lambda>_. True" for U
  by unfold_locales simp_all

definition reactor_ok :: "('k, 'd) reactor \<Rightarrow> bool" where
  "reactor_ok p \<longleftrightarrow> notify_inv (dr_backpressure (re_driver p))"

definition reactor_inside :: "('k, 'd) reactor \<Rightarrow> bool" where
  "reactor_inside p \<longleftrightarrow> re_context p = Some ()"

lemma reactor_keeps_contract:
  fixes U :: "'k uring" and T :: "('d, 'o, 'i) op_class"
  assumes C: "linked_list C"
  shows "park_layer (reactor_ops C U T) reactor_ok reactor_inside"
proof
  fix p p' :: "('k, 'd) reactor" and m r
  assume ok: "reactor_ok p" and run: "pk_park (reactor_ops C U T) m p = Some (Inr (r, p'))"
  obtain s where s: "driver_park C U T m (re_driver p) = Some (Inr (r, s))" "p' = p\<lparr>re_driver := s\<rparr>"
    using run by (auto simp: reactor_ops_def reactor_park_def run_then_def split: option.splits sum.splits)
  from any_ring.driver_park_keeps [OF C _ _ s(1)] ok have "notify_inv (dr_backpressure s)"
    by (simp add: any_ring.kept_def reactor_ok_def mode_allowed_def split: park_mode.splits)
  then show "reactor_ok p' \<and> (reactor_inside p' \<longleftrightarrow> reactor_inside p)" using s(2) by (simp add: reactor_ok_def reactor_inside_def)
next
  fix p :: "('k, 'd) reactor"
  assume "reactor_ok p" and "\<not> reactor_inside p"
  moreover from this have "re_context p = None" by (cases "re_context p") (simp_all add: reactor_inside_def)
  ultimately show "\<exists>p'. pk_enter (reactor_ops C U T) p = Inr p' \<and> reactor_ok p' \<and> reactor_inside p'"
    by (simp add: reactor_ops_def reactor_enter_def driver_ctx_enter_def reactor_ok_def reactor_inside_def)
next
  fix p :: "('k, 'd) reactor"
  assume "reactor_ok p" and "reactor_inside p"
  then show "\<exists>p'. pk_leave (reactor_ops C U T) p = Inr p' \<and> reactor_ok p' \<and> \<not> reactor_inside p'"
    by (simp add: reactor_ops_def reactor_leave_def driver_ctx_leave_def reactor_ok_def reactor_inside_def)
next
  fix p p' :: "('k, 'd) reactor"
  assume ok: "reactor_ok p" and run: "pk_shutdown (reactor_ops C U T) p = Some (Inr p')"
  obtain s where s: "driver_shutdown C U T (re_driver p) = Some (Inr s)" "p' = p\<lparr>re_driver := s\<rparr>"
    using run by (auto simp: reactor_ops_def reactor_shutdown_def run_then_def split: option.splits sum.splits)
  from any_ring.driver_shutdown_keeps [OF C _ _ s(1)] ok have "notify_inv (dr_backpressure s)"
    by (simp add: any_ring.kept_def reactor_ok_def)
  then show "reactor_ok p' \<and> (reactor_inside p' \<longleftrightarrow> reactor_inside p)" using s(2) by (simp add: reactor_ok_def reactor_inside_def)
qed

text \<open>In the sequential environment: the reactor, and the timer on top of it, are layers of the runtime.\<close>

interpretation reactor: park_layer "reactor_ops (seq_env b) U T" reactor_ok reactor_inside for b U T
  by (rule reactor_keeps_contract [OF linked_list_seq_env])

interpretation timer_on_reactor: park_layer "timer_park_ops (seq_env b) (reactor_ops (seq_env b) U T) sysnow"
  "timer_ok sysnow reactor_ok reactor_inside" timer_inside for b U T sysnow
  by (rule timer_keeps_contract [OF linked_list_seq_env reactor.park_layer_axioms])

end
