(* ===== verification/Runtime_Properties.thy ===== *)
theory Runtime_Properties
  imports Runtime
begin

text \<open>
  The properties of the timer on top of the reactor: the contract of the layers, and how long the kernel is asked
  to wait, on any ring.
\<close>

section \<open>How long the kernel is asked to wait\<close>

text \<open>Any ring, with a log of the waits the driver asked it for: none, or seconds and nanoseconds.\<close>

definition logged :: "'k uring \<Rightarrow> ('k \<times> (nat \<times> nat) option list) uring" where
  "logged U = \<lparr> ur_sq_full = (\<lambda>(k, ws). ur_sq_full U k),
     ur_sq_push = (\<lambda>e (k, ws). map_option (\<lambda>k. (k, ws)) (ur_sq_push U e k)),
     ur_cq_full = (\<lambda>(k, ws). ur_cq_full U k), ur_cq_len = (\<lambda>(k, ws). ur_cq_len U k),
     ur_cq_fill = (\<lambda>n (k, ws). let (es, k) = ur_cq_fill U n k in (es, (k, ws))),
     ur_submit = (\<lambda>(k, ws). let (r, k) = ur_submit U k in (r, (k, ws))),
     ur_submit_args = (\<lambda>n t (k, ws). let (r, k) = ur_submit_args U n t k in (r, (k, ws @ [t]))),
     ur_sync_cancel = (\<lambda>c (k, ws). let (r, k) = ur_sync_cancel U c k in (r, (k, ws))),
     ur_ebusy = ur_ebusy U, ur_eintr = ur_eintr U \<rparr>"

text \<open>The waits asked for since the log was \<open>ws\<close> all satisfy \<open>A\<close>.\<close>

definition waited :: "((nat \<times> nat) option \<Rightarrow> bool) \<Rightarrow> (nat \<times> nat) option list \<Rightarrow> 'k \<times> (nat \<times> nat) option list \<Rightarrow> bool" where
  "waited A ws k \<longleftrightarrow> (\<exists>new. snd k = ws @ new \<and> (\<forall>t \<in> set new. A t))"

interpretation logged_ring: ring_client "logged U" "waited A ws" A for U A ws
proof
  fix k :: "'a \<times> (nat \<times> nat) option list" and t n
  assume "waited A ws k" and "A t"
  then obtain new where "snd k = ws @ new" "\<forall>t \<in> set new. A t" by (auto simp: waited_def)
  then have "snd (snd (ur_submit_args (logged U) n t k)) = ws @ new @ [t] \<and> (\<forall>t \<in> set (new @ [t]). A t)"
    using \<open>A t\<close> by (auto simp: logged_def Let_def split: prod.splits)
  then show "waited A ws (snd (ur_submit_args (logged U) n t k))" unfolding waited_def by blast
qed (auto simp: logged_def waited_def Let_def split: prod.splits)

definition reactor_waits :: "('k \<times> (nat \<times> nat) option list, 'd) reactor \<Rightarrow> (nat \<times> nat) option list" where
  "reactor_waits p = snd (dr_ring (re_driver p))"

text \<open>The demo timer with a sleep of five seconds, on the reactor with the simulated ring.\<close>

definition demo_reactor :: "((sim_ring \<times> (nat \<times> nat) option list), nat) reactor" where
  "demo_reactor = \<lparr> re_driver = driver_new (seq_env True) (\<lparr> sim_sq = [], sim_cq = [] \<rparr>, []), re_context = Some () \<rparr>"

definition demo_stack :: "((sim_ring \<times> (nat \<times> nat) option list), nat) reactor timer_driver" where
  "demo_stack = (timer_driver_new (seq_env True) demo_reactor (clock_simulated 0))\<lparr>td_wheels := wheel_two\<rparr>"

text \<open>
  C26: the timer on top of the reactor, on any ring, keeps the contract of a layer: from outside its context it can be
  entered and then left, and entering, leaving, parking and shutting down keep the wheel, the list of waiters
  and the two contexts consistent; parking and shutting down stay on the same side of the contexts.
\<close>

theorem layers_keep_contract:
  assumes "linked_list C"
  shows "park_layer (timer_park_ops C (reactor_ops C U T) sysnow) (timer_ok sysnow reactor_ok reactor_inside) timer_inside"
  by (rule timer_keeps_contract [OF assms reactor_keeps_contract [OF assms]])

lemma demo_ready: "timer_ready 0 (d\<lparr>td_wheels := wheel_two, td_clock := clock_simulated 0\<rparr>)"
  "clock_tick 0 (clock_simulated 0) = Inr 0"
proof -
  show tick: "clock_tick 0 (clock_simulated 0) = Inr 0"
    by (simp add: clock_simulated_def clock_tick_def clock_now_def instant_to_tick_def instant_limit_def)
  then show "timer_ready 0 (d\<lparr>td_wheels := wheel_two, td_clock := clock_simulated 0\<rparr>)"
    using wheel_two_spec by (simp add: timer_ready_def room_def del: and_then_eq_Inr)
qed

theorem layers_keep_contract_witness:
  "let P = timer_park_ops (seq_env True) (reactor_ops (seq_env True) (logged (sim_uring 4)) count_class) 0;
       d = demo_stack\<lparr>td_inner := demo_reactor\<lparr>re_context := None\<rparr>\<rparr> in
   \<exists>d' d''. pk_enter P d = Inr d' \<and> pk_leave P d' = Inr d'' \<and> \<not> timer_inside d''"
proof -
  let ?d = "demo_stack\<lparr>td_inner := demo_reactor\<lparr>re_context := None\<rparr>\<rparr>"
  have "?d = ?d\<lparr>td_wheels := wheel_two, td_clock := clock_simulated 0\<rparr>" by (simp add: demo_stack_def timer_driver_new_def)
  then have "timer_ready 0 ?d" using demo_ready(1) by metis
  moreover have "reactor_ok (td_inner ?d)" "\<not> reactor_inside (td_inner ?d)" "\<not> timer_inside ?d"
    by (simp_all add: reactor_ok_def reactor_inside_def timer_inside_def demo_stack_def timer_driver_new_def demo_reactor_def
        driver_new_def notify_inv_new)
  ultimately have "timer_ok 0 reactor_ok reactor_inside ?d" "\<not> timer_inside ?d" by (simp_all add: timer_ok_def timer_inside_def)
  from park_layer.enter_leave [OF layers_keep_contract [OF linked_list_seq_env, of True "logged (sim_uring 4)" count_class 0] this]
  show ?thesis unfolding Let_def by blast
qed


lemma demo_reactor_parks:
  "\<exists>r p. reactor_park (seq_env True) (logged (sim_uring 4)) count_class (Timeout t) demo_reactor = Some (Inr (r, p)) \<and>
     reactor_waits p = [Some (wait_of t)]"
proof -
  let ?U = "logged (sim_uring 4)" and ?s = "re_driver demo_reactor :: (sim_ring \<times> (nat \<times> nat) option list, nat) driver"
  let ?r = "(\<lparr> sim_sq = [event_read], sim_cq = [] \<rparr>, [])"
  let ?k = "(\<lparr> sim_sq = [], sim_cq = sim_complete [event_read] \<rparr>, [Some (wait_of t)])"
  have dr: "driver_drain (seq_env True) ?U count_class ?s = Some (Inr (0, ?s))"
    by (simp add: driver_drain_def drain_loop.simps [of _ _ _ 0] drain_fill_def demo_reactor_def driver_new_def logged_def sim_uring_def)
  have pp: "prepare_park ?U ?s = (True, ?s\<lparr>dr_unparker := 1, dr_ring := ?r\<rparr>)"
    by (subst prepare_park_decision)
      (simp_all add: demo_reactor_def driver_new_def logged_def sim_uring_def flag_values)
  have inv: "notify_inv (dr_backpressure ?s)" by (simp add: demo_reactor_def driver_new_def notify_inv_new)
  have sub: "ur_submit_args ?U 1 (Some (t div 1000000000, t mod 1000000000)) ?r = (Inr 1, ?k)"
    by (simp add: logged_def sim_uring_def sim_submit_def wait_of_def)
  let ?s1 = "?s\<lparr>dr_unparker := 1, dr_ring := ?k\<rparr>"
  obtain s2 where s2: "notify_waiting (seq_env True) 1 ?s1 = Some (Inr s2)" "dr_ring s2 = ?k"
    using any_ring.notify_waiting_kept [OF linked_list_seq_env, of ?s1 True 1] inv by (auto simp: any_ring.kept_def)
  have "driver_submit (seq_env True) ?U (Timeout t) ?s = Some (Inr (Inr 1, s2))"
    using pp sub s2(1) by (simp add: driver_submit_def shared_submit_def)
  then have "park_loop (seq_env True) ?U count_class (Timeout t) ?s = Some (Inr (Inr (), s2))"
    by (subst park_loop.simps) simp
  then show ?thesis using dr s2(2) by (simp add: reactor_park_def driver_park_def reactor_waits_def)
qed


lemma parked_stays:
  assumes "dr_status s = Status_Running" and "dr_unparker s = 1"
  shows "prepare_park U s = (True, s)"
proof -
  have "s\<lparr>dr_unparker := 1\<rparr> = s" using assms(2) by (cases s) simp
  then show ?thesis using assms
    by (simp add: prepare_park_def unparker_park_def up_woken_def up_is_parked_def REACTOR_PARK_BIT_def REMOTE_THREAD_BIT_def)
qed

text \<open>
  A wait that a signal interrupts starts anew: after each interruption the driver asks the kernel for the whole
  time again, however long it has waited, so that \<open>n\<close> interruptions delay a deadline up to \<open>n\<close> times the wait.
\<close>

theorem interrupted_wait_restarts:
  assumes "linked_list C" and "reactor_ok p" and "dr_status (re_driver p) = Status_Running" and "dr_unparker (re_driver p) = 1"
    and "dr_ring (re_driver p) = (f n, ws)" and "ur_cq_len U (f n) = 0" and "ur_cq_fill U 32 (f n) = ([], f n)"
    and "ur_eintr U \<noteq> ur_ebusy U"
    and "\<And>j. ur_submit_args U 1 (Some (wait_of t)) (f (Suc j)) = (Inl (ur_eintr U), f j)"
    and "ur_submit_args U 1 (Some (wait_of t)) (f 0) = (Inr m, k)"
  shows "\<exists>p'. reactor_park C (logged U) T (Timeout t) p = Some (Inr (Inr (), p')) \<and>
    reactor_waits p' = ws @ replicate (Suc n) (Some (wait_of t))"
proof -
  let ?U = "logged U"
  have go: "\<exists>s'. park_loop C ?U T (Timeout t) s = Some (Inr (Inr (), s')) \<and> snd (dr_ring s') = ws @ replicate (Suc n) (Some (wait_of t))"
    if "dr_status s = Status_Running" "dr_unparker s = 1" "notify_inv (dr_backpressure s)" "dr_ring s = (f n, ws)" for s n ws
    using that
  proof (induction n arbitrary: s ws)
    case 0
    have pp: "prepare_park ?U s = (True, s)" by (rule parked_stays [OF 0(1,2)])
    let ?s = "s\<lparr>dr_ring := (k, ws @ [Some (wait_of t)])\<rparr>"
    obtain b where b: "notify_waiting C m ?s = Some (Inr (?s\<lparr>dr_backpressure := b\<rparr>))"
      using any_ring.notify_waiting_kept [OF assms(1), of ?s m] 0(3) by (auto simp: any_ring.kept_def)
    have "ur_submit_args ?U 1 (Some (t div 1000000000, t mod 1000000000)) (dr_ring s) = (Inr m, (k, ws @ [Some (wait_of t)]))"
      using assms(10) 0(4) by (simp add: logged_def wait_of_def)
    then have "driver_submit C ?U (Timeout t) s = Some (Inr (Inr m, ?s\<lparr>dr_backpressure := b\<rparr>))"
      using pp b by (simp add: driver_submit_def shared_submit_def)
    then show ?case by (subst park_loop.simps) simp
  next
    case (Suc n)
    have pp: "prepare_park ?U s = (True, s)" by (rule parked_stays [OF Suc.prems(1,2)])
    let ?s = "s\<lparr>dr_ring := (f n, ws @ [Some (wait_of t)])\<rparr>"
    have "ur_submit_args ?U 1 (Some (t div 1000000000, t mod 1000000000)) (dr_ring s) = (Inl (ur_eintr U), dr_ring ?s)"
      using assms(9) Suc.prems(4) by (simp add: logged_def wait_of_def)
    then have "driver_submit C ?U (Timeout t) s = Some (Inr (Inl (Os_Error (ur_eintr U)), ?s))"
      using pp by (simp add: driver_submit_def shared_submit_def)
    then have "park_loop C ?U T (Timeout t) s = park_loop C ?U T (Timeout t) ?s"
      using assms(8) by (subst park_loop.simps) (simp add: logged_def)
    moreover obtain s' where "park_loop C ?U T (Timeout t) ?s = Some (Inr (Inr (), s'))"
      "snd (dr_ring s') = (ws @ [Some (wait_of t)]) @ replicate (Suc n) (Some (wait_of t))"
      using Suc.IH [of ?s "ws @ [Some (wait_of t)]"] Suc.prems(1-3) by auto
    ultimately show ?case by simp
  qed
  let ?s = "re_driver p"
  have "driver_drain C ?U T ?s = Some (Inr (0, ?s\<lparr>dr_ring := (f n, ws)\<rparr>))"
    using assms(5-7) by (simp add: driver_drain_def drain_loop.simps [of _ _ _ 0] drain_fill_def logged_def)
  moreover have "?s\<lparr>dr_ring := (f n, ws)\<rparr> = ?s" using assms(5) by simp
  ultimately show ?thesis
    using go [of ?s n ws] assms(2-5) by (auto simp: reactor_park_def driver_park_def reactor_ok_def reactor_waits_def)
qed

text \<open>A ring whose state is how often it is still interrupted.\<close>

definition signal_uring :: "nat uring" where
  "signal_uring = \<lparr> ur_sq_full = (\<lambda>_. False), ur_sq_push = (\<lambda>_ k. Some k), ur_cq_full = (\<lambda>_. False), ur_cq_len = (\<lambda>_. 0),
     ur_cq_fill = (\<lambda>_ k. ([], k)), ur_submit = (\<lambda>k. (Inr 0, k)),
     ur_submit_args = (\<lambda>_ _ k. case k of 0 \<Rightarrow> (Inr 0, 0) | Suc j \<Rightarrow> (Inl 4, j)), ur_sync_cancel = (\<lambda>_ k. (Inr (), k)),
     ur_ebusy = 16, ur_eintr = 4 \<rparr>"

theorem interrupted_wait_restarts_witness:
  "let p = \<lparr> re_driver = (driver_new (seq_env True) (2, []))\<lparr>dr_unparker := 1\<rparr>, re_context = Some () \<rparr> in
   \<exists>p'. reactor_park (seq_env True) (logged signal_uring) count_class (Timeout 1500000000) p = Some (Inr (Inr (), p')) \<and>
     reactor_waits p' = [Some (1, 500000000), Some (1, 500000000), Some (1, 500000000)]"
proof -
  let ?p = "\<lparr> re_driver = (driver_new (seq_env True) (2, []))\<lparr>dr_unparker := 1\<rparr>, re_context = Some () \<rparr> :: (nat \<times> _, nat) reactor"
  have "reactor_ok ?p" "dr_status (re_driver ?p) = Status_Running" "dr_unparker (re_driver ?p) = 1" "dr_ring (re_driver ?p) = ((\<lambda>j. j) 2, [])"
    by (simp_all add: reactor_ok_def driver_new_def notify_inv_new)
  moreover have "ur_cq_len signal_uring 2 = 0" "ur_cq_fill signal_uring 32 2 = ([], 2)" "ur_eintr signal_uring \<noteq> ur_ebusy signal_uring"
    "\<And>j. ur_submit_args signal_uring 1 (Some (wait_of 1500000000)) (Suc j) = (Inl (ur_eintr signal_uring), j)"
    "ur_submit_args signal_uring 1 (Some (wait_of 1500000000)) 0 = (Inr 0, 0)"
    by (simp_all add: signal_uring_def)
  ultimately have "\<exists>p'. reactor_park (seq_env True) (logged signal_uring) count_class (Timeout 1500000000) ?p = Some (Inr (Inr (), p')) \<and>
      reactor_waits p' = [] @ replicate (Suc 2) (Some (wait_of 1500000000))"
    by (intro interrupted_wait_restarts [where f = "\<lambda>j. j", OF linked_list_seq_env])
  then show ?thesis unfolding Let_def by (simp add: wait_of_def numeral_2_eq_2)
qed

end
