(* ===== verification/Reactor.thy ===== *)
theory Reactor
  imports Ring_Spec Operation_Life
begin

text \<open>
  The driver with its callers and the kernel: a machine whose commands are what the futures and the executor ask of
  the driver of \<open>norn-uring/src/driver\<close> - submitting an operation, polling and dropping its future, closing a
  descriptor, parking. Over a ring whose kernel answers only what it was given, it runs the machine of the life
  of the operations, and never faults.
\<close>

section \<open>The kernel's side\<close>

text \<open>
  The addresses whose final completion is outstanding: a completion that announces no more ends its operation. The
  tokens up to 1024 are not addresses.
\<close>

fun still_owed :: "(u32 \<Rightarrow> bool) \<Rightarrow> cqe list \<Rightarrow> (u64 \<Rightarrow> bool) \<Rightarrow> u64 \<Rightarrow> bool" where
  "still_owed mo [] w = w"
| "still_owed mo (e # es) w = still_owed mo es (if mo (cq_flags e) then w else w(cq_user_data e := False))"

text \<open>The completions answer entries whose final completion was outstanding, with a result that can be negated.\<close>

fun answers :: "(u32 \<Rightarrow> bool) \<Rightarrow> cqe list \<Rightarrow> (u64 \<Rightarrow> bool) \<Rightarrow> bool" where
  "answers mo [] w = True"
| "answers mo (e # es) w = ((1024 < cq_user_data e \<longrightarrow> w (cq_user_data e)) \<and> cq_result e \<noteq> push_bit 31 1 \<and>
     answers mo es (if mo (cq_flags e) then w else w(cq_user_data e := False)))"

lemma still_owed_append: "still_owed mo (es @ es') w = still_owed mo es' (still_owed mo es w)"
  by (induction es arbitrary: w) auto

lemma answers_append: "answers mo (es @ es') w \<longleftrightarrow> answers mo es w \<and> answers mo es' (still_owed mo es w)"
  by (induction es arbitrary: w) auto

locale io_kernel = io_ring U capacity sq cq
  for U :: "'k uring" and capacity and sq :: "'k \<Rightarrow> sqe list" and cq :: "'k \<Rightarrow> cqe list" +
  fixes mo :: "u32 \<Rightarrow> bool" and owed :: "'k \<Rightarrow> u64 \<Rightarrow> bool"
  assumes push_owed: "ur_sq_push U e k = Some k' \<Longrightarrow> owed k' = (owed k)(sq_user_data e := True)"
    and fill_owed: "answers mo (cq k) (owed k) \<Longrightarrow>
      owed (snd (ur_cq_fill U n k)) = still_owed mo (take n (cq k)) (owed k)"
    and submit_owed: "answers mo (cq k) (owed k) \<Longrightarrow> owed (snd (ur_submit U k)) = owed k \<and>
      answers mo (cq (snd (ur_submit U k))) (owed k)"
    and wait_owed: "answers mo (cq k) (owed k) \<Longrightarrow> owed (snd (ur_submit_args U n t k)) = owed k \<and>
      answers mo (cq (snd (ur_submit_args U n t k))) (owed k)"
    and cancel_owed: "answers mo (cq k) (owed k) \<Longrightarrow> owed (snd (ur_sync_cancel U c k)) = owed k \<and>
      answers mo (cq (snd (ur_sync_cancel U c k))) (owed k)"

section \<open>The machine\<close>

type_synonym op_futures = "u64 \<Rightarrow> (op_future \<times> push_future) option"

record ('k, 'd) reactor_sys =
  sy_driver :: "('k, 'd) driver"
  sy_futs :: op_futures

datatype 'd sys_cmd =
    Sys_Submit u64 nat 'd | Sys_Poll u64 nat | Sys_Next u64 nat | Sys_Drop u64 | Sys_Close fd_kind | Sys_Park park_mode

definition sys_new :: "env \<Rightarrow> 'k \<Rightarrow> ('k, 'd) reactor_sys" where
  "sys_new C k = \<lparr> sy_driver = driver_new C k, sy_futs = (\<lambda>_. None) \<rparr>"

fun sys_exec ::
  "env \<Rightarrow> 'k uring \<Rightarrow> ('d, 'o, 'i) op_class \<Rightarrow> ('d \<Rightarrow> sqe) \<Rightarrow> 'd sys_cmd \<Rightarrow> ('k, 'd) reactor_sys
   \<Rightarrow> (fault + ('k, 'd) reactor_sys) option"
where
  "sys_exec C U T cfg (Sys_Submit a slot d) y =
     Some (and_then (handle_submit T cfg a slot d (sy_driver y)) (\<lambda>(f, pf, s).
       Inr \<lparr> sy_driver = s, sy_futs = (sy_futs y)(a \<mapsto> (f, pf)) \<rparr>))"
| "sys_exec C U T cfg (Sys_Poll a w) y = (case sy_futs y a of None \<Rightarrow> Some (Inl Dangling) | Some (f, pf) \<Rightarrow>
     run_then (driver_poll_op C U T w f pf (sy_driver y)) (\<lambda>(r, f, pf, s).
       Some (Inr \<lparr> sy_driver = s, sy_futs = (sy_futs y)(a \<mapsto> (f, pf)) \<rparr>)))"
| "sys_exec C U T cfg (Sys_Next a w) y = (case sy_futs y a of None \<Rightarrow> Some (Inl Dangling) | Some (f, pf) \<Rightarrow>
     run_then (driver_poll_next C U T w f pf (sy_driver y)) (\<lambda>(r, f, pf, s).
       Some (Inr \<lparr> sy_driver = s, sy_futs = (sy_futs y)(a \<mapsto> (f, pf)) \<rparr>)))"
| "sys_exec C U T cfg (Sys_Drop a) y = (case sy_futs y a of None \<Rightarrow> Some (Inl Dangling) | Some (f, pf) \<Rightarrow>
     run_then (driver_drop_op C U T f pf (sy_driver y)) (\<lambda>s.
       Some (Inr \<lparr> sy_driver = s, sy_futs = (sy_futs y)(a := None) \<rparr>)))"
| "sys_exec C U T cfg (Sys_Close fd) y =
     run_then (driver_close_fd C U fd (sy_driver y)) (\<lambda>(r, s). Some (Inr (y\<lparr>sy_driver := s\<rparr>)))"
| "sys_exec C U T cfg (Sys_Park mode) y =
     run_then (driver_park C U T mode (sy_driver y)) (\<lambda>(r, s). Some (Inr (y\<lparr>sy_driver := s\<rparr>)))"

text \<open>
  What the callers respect: a new operation has a fresh address above the tokens and its push future a place of its
  own; a future is not polled after it was ready, nor before its submission on a driver that shuts down; fewer than
  \<open>2 ^ 64\<close> waiters.
\<close>

definition may_poll :: "op_future \<Rightarrow> ('k, 'd) driver \<Rightarrow> bool" where
  "may_poll f s \<longleftrightarrow> (of_submitted f \<or> dr_status s = Status_Running) \<and> nt_count (dr_backpressure s) \<noteq> - 1"

fun sys_allowed :: "bool \<Rightarrow> 'd sys_cmd \<Rightarrow> ('k, 'd) reactor_sys \<Rightarrow> bool" where
  "sys_allowed multi (Sys_Submit a slot d) y = (1024 < a \<and> oh_ops (dr_ops (sy_driver y)) a = None \<and>
     nt_entries (dr_backpressure (sy_driver y)) slot = None \<and> (\<forall>b. case sy_futs y b of None \<Rightarrow> True | Some (f, pf) \<Rightarrow> pf_slot pf \<noteq> slot))"
| "sys_allowed multi (Sys_Poll a w) y = (\<not> multi \<and> (case sy_futs y a of None \<Rightarrow> False
     | Some (f, pf) \<Rightarrow> \<not> of_completed f \<and> may_poll f (sy_driver y)))"
| "sys_allowed multi (Sys_Next a w) y = (multi \<and> (case sy_futs y a of None \<Rightarrow> False
     | Some (f, pf) \<Rightarrow> may_poll f (sy_driver y)))"
| "sys_allowed multi (Sys_Drop a) y = (sy_futs y a \<noteq> None)"
| "sys_allowed multi (Sys_Close fd) y = True"
| "sys_allowed multi (Sys_Park mode) y = True"

inductive sys_reach ::
  "env \<Rightarrow> 'k uring \<Rightarrow> ('d, 'o, 'i) op_class \<Rightarrow> ('d \<Rightarrow> sqe) \<Rightarrow> bool \<Rightarrow> 'k \<Rightarrow> ('k, 'd) reactor_sys \<Rightarrow> bool"
  for C U T cfg multi k
where
  sys_init: "sys_reach C U T cfg multi k (sys_new C k)"
| sys_step: "sys_reach C U T cfg multi k y \<Longrightarrow> sys_allowed multi c y \<Longrightarrow> sys_exec C U T cfg c y = Some (Inr y') \<Longrightarrow>
    sys_reach C U T cfg multi k y'"

section \<open>The life of the operations behind the driver\<close>

text \<open>The states of the machine of the operations that are reached from a given one.\<close>

inductive life_steps :: "('d, 'o, 'i) op_class \<Rightarrow> bool \<Rightarrow> 'd life \<Rightarrow> 'd life \<Rightarrow> bool" for T multi m0 where
  life_none: "life_steps T multi m0 m0"
| life_more: "life_steps T multi m0 m \<Longrightarrow> life_allowed multi c m \<Longrightarrow> life_exec T c m = Inr m' \<Longrightarrow> life_steps T multi m0 m'"

definition life_via :: "('d, 'o, 'i) op_class \<Rightarrow> bool \<Rightarrow> 'd life \<Rightarrow> 'd life \<Rightarrow> bool" where
  "life_via T multi m0 m \<longleftrightarrow> life_inv T multi m \<and> life_steps T multi m0 m"

lemma life_viaD: "life_via T multi m0 m \<Longrightarrow> life_inv T multi m"
  by (simp add: life_via_def)

lemma life_steps_reach: "life_steps T multi m0 m \<Longrightarrow> life_reach T multi m0 \<Longrightarrow> life_reach T multi m"
  by (induction rule: life_steps.induct) (auto intro: life_reach.life_step)

text \<open>The entry of an operation is in its future until it was pushed, then in the ring while its end is owed.\<close>

definition life_of :: "(u64 \<Rightarrow> bool) \<Rightarrow> op_futures \<Rightarrow> 'd op_heap \<Rightarrow> 'd life" where
  "life_of w F h = \<lparr> lf_heap = h, lf_futs = (\<lambda>a. map_option fst (F a)),
     lf_place = (\<lambda>a. case F a of Some (f, pf) \<Rightarrow> if \<not> of_submitted f then In_Future else if w a \<and> 1024 < a then In_Ring else Nowhere
       | None \<Rightarrow> if w a \<and> 1024 < a then In_Ring else Nowhere) \<rparr>"

definition sys_life :: "('k \<Rightarrow> u64 \<Rightarrow> bool) \<Rightarrow> ('k, 'd) reactor_sys \<Rightarrow> 'd life" where
  "sys_life owed y = life_of (owed (dr_ring (sy_driver y))) (sy_futs y) (dr_ops (sy_driver y))"

definition waiter_ok :: "notifier \<Rightarrow> push_future \<Rightarrow> bool" where
  "waiter_ok b pf \<longleftrightarrow> (case nt_entries b (pf_slot pf) of None \<Rightarrow> \<not> pf_waiting pf
     | Some n \<Rightarrow> pf_waiting pf \<and> ne_state n \<in> {Waiter_Linked, Waiter_Fired})"

definition future_ok :: "(u64 \<Rightarrow> bool) \<Rightarrow> notifier \<Rightarrow> u64 \<Rightarrow> op_future \<Rightarrow> push_future \<Rightarrow> bool" where
  "future_ok w b a f pf \<longleftrightarrow> 1024 < a \<and> of_addr f = a \<and> waiter_ok b pf \<and>
     (if of_submitted f then \<not> pf_waiting pf else (\<exists>e. pf_entry pf = Some (a, e)) \<and> \<not> w a)"

text \<open>The push futures are at different places.\<close>

definition own_slots :: "op_futures \<Rightarrow> bool" where
  "own_slots F \<longleftrightarrow> (\<forall>a a' f pf f' pf'. F a = Some (f, pf) \<and> F a' = Some (f', pf') \<and> pf_slot pf = pf_slot pf' \<longrightarrow> a = a')"

definition futs_ok :: "(u64 \<Rightarrow> bool) \<Rightarrow> notifier \<Rightarrow> op_futures \<Rightarrow> bool" where
  "futs_ok w b F \<longleftrightarrow> (\<forall>a f pf. F a = Some (f, pf) \<longrightarrow> future_ok w b a f pf)"

definition reactor_inv ::
  "('d, 'o, 'i) op_class \<Rightarrow> bool \<Rightarrow> 'd life \<Rightarrow> (u64 \<Rightarrow> bool) \<Rightarrow> op_futures \<Rightarrow> ('k, 'd) driver \<Rightarrow> bool"
where
  "reactor_inv T multi m0 w F s \<longleftrightarrow> life_via T multi m0 (life_of w F (dr_ops s)) \<and> notify_inv (dr_backpressure s) \<and>
     futs_ok w (dr_backpressure s) F \<and> own_slots F"

text \<open>The invariant of the driver and its ring: what the kernel has answered answers what it was given.\<close>

definition driver_ok ::
  "('d, 'o, 'i) op_class \<Rightarrow> bool \<Rightarrow> 'd life \<Rightarrow> ('k \<Rightarrow> cqe list) \<Rightarrow> ('k \<Rightarrow> u64 \<Rightarrow> bool) \<Rightarrow> op_futures \<Rightarrow> ('k, 'd) driver \<Rightarrow> bool"
where
  "driver_ok T multi m0 cq owed F s \<longleftrightarrow> answers (cl_more T) (cq (dr_ring s)) (owed (dr_ring s)) \<and>
     reactor_inv T multi m0 (owed (dr_ring s)) F s"

text \<open>
  What a poll of a push future with an entry may do: it keeps the entry and waits, or the ring has it; the waiters at
  other places stay as they were.
\<close>

definition push_outcome ::
  "'k uring \<Rightarrow> push_future \<Rightarrow> ('k, 'd) driver \<Rightarrow> push_result \<Rightarrow> push_future \<Rightarrow> ('k, 'd) driver \<Rightarrow> bool"
where
  "push_outcome U f s p f' s' \<longleftrightarrow> p \<noteq> Push_Closed \<and> pf_slot f' = pf_slot f \<and> dr_ops s' = dr_ops s \<and>
     notify_inv (dr_backpressure s') \<and> waiter_ok (dr_backpressure s') f' \<and>
     (\<forall>x. x \<noteq> pf_slot f \<longrightarrow> nt_entries (dr_backpressure s') x = nt_entries (dr_backpressure s) x) \<and>
     (if p = Push_Pending then pf_entry f' = pf_entry f \<and> dr_ring s' = dr_ring s
      else \<not> pf_waiting f' \<and> (case pf_entry f of None \<Rightarrow> False
        | Some e \<Rightarrow> ur_sq_push U (into_entry e) (dr_ring s) = Some (dr_ring s')))"

text \<open>The same for the poll of an operation's push, which is over once the entry is in the ring.\<close>

definition poll_outcome ::
  "('k \<Rightarrow> cqe list) \<Rightarrow> ('k \<Rightarrow> u64 \<Rightarrow> bool) \<Rightarrow> u64 \<Rightarrow> op_future \<Rightarrow> push_future \<Rightarrow> ('k, 'd) driver
   \<Rightarrow> push_result \<Rightarrow> push_future \<Rightarrow> ('k, 'd) driver \<Rightarrow> bool"
where
  "poll_outcome cq owed a f pf s p pf' s' \<longleftrightarrow> p \<noteq> Push_Closed \<and> dr_ops s' = dr_ops s \<and>
     notify_inv (dr_backpressure s') \<and> waiter_ok (dr_backpressure s') pf' \<and> pf_slot pf' = pf_slot pf \<and>
     (\<forall>x. x \<noteq> pf_slot pf \<longrightarrow> nt_entries (dr_backpressure s') x = nt_entries (dr_backpressure s) x) \<and>
     cq (dr_ring s') = cq (dr_ring s) \<and>
     (if of_submitted f \<or> p = Push_Done then \<not> pf_waiting pf' else pf_entry pf' = pf_entry pf) \<and>
     owed (dr_ring s') = (if \<not> of_submitted f \<and> p = Push_Done then (owed (dr_ring s))(a := True) else owed (dr_ring s))"

text \<open>Firing waiters keeps the places of the others.\<close>

lemma fired_waiter_ok: "waiter_ok b pf \<Longrightarrow> nt_entries b' = fired_entries xs (nt_entries b) \<Longrightarrow> waiter_ok b' pf"
  by (auto simp: waiter_ok_def fired_entries_def split: option.splits)

lemma future_ok_change: "future_ok w b a f pf \<Longrightarrow> (waiter_ok b pf \<Longrightarrow> waiter_ok b' pf) \<Longrightarrow> future_ok w b' a f pf"
  by (auto simp: future_ok_def split: if_splits)

lemma fired_futs_ok:
  assumes "futs_ok w b F" and "nt_entries b' = fired_entries xs (nt_entries b)"
  shows "futs_ok w b' F"
  using assms(1) future_ok_change fired_waiter_ok [OF _ assms(2)] unfolding futs_ok_def by blast

lemma notify_waiting_reactor:
  assumes "linked_list C" and "reactor_inv T multi m0 w F s"
  shows "\<exists>b. notify_waiting C n s = Some (Inr (s\<lparr>dr_backpressure := b\<rparr>)) \<and> reactor_inv T multi m0 w F (s\<lparr>dr_backpressure := b\<rparr>)"
proof -
  have inv: "notify_inv (dr_backpressure s)" using assms(2) by (simp add: reactor_inv_def)
  obtain r b where b: "notify_n C n (dr_backpressure s) = Some (Inr (r, b))" "notify_inv b"
    "nt_entries b = fired_entries (take (min (unat n) (length (nt_waiters (dr_backpressure s)))) (nt_waiters (dr_backpressure s)))
       (nt_entries (dr_backpressure s))"
    using notify_n_spec [OF assms(1) inv refl, of n] by blast
  then show ?thesis using assms(2) fired_futs_ok [OF _ b(3)] by (auto simp: notify_waiting_def reactor_inv_def)
qed

lemma set_status_reactor:
  assumes "linked_list C" and "reactor_inv T multi m0 w F s"
  shows "\<exists>s'. set_status C st s = Some (Inr s') \<and> reactor_inv T multi m0 w F s' \<and> dr_ring s' = dr_ring s"
proof -
  obtain b where "notify_waiting C (- 1) s = Some (Inr (s\<lparr>dr_backpressure := b\<rparr>))" "reactor_inv T multi m0 w F (s\<lparr>dr_backpressure := b\<rparr>)"
    using notify_waiting_reactor [OF assms] by blast
  then show ?thesis using assms(2) by (simp add: set_status_def reactor_inv_def)
qed

text \<open>What the invariant does not depend on.\<close>

lemma reactor_inv_ring [simp]:
  "reactor_inv T multi m0 w F (s\<lparr>dr_ring := k\<rparr>) = reactor_inv T multi m0 w F s"
  "reactor_inv T multi m0 w F (s\<lparr>dr_unparker := u\<rparr>) = reactor_inv T multi m0 w F s"
  by (simp_all add: reactor_inv_def)

lemma reactor_inv_token:
  assumes "c \<le> 1024" and "reactor_inv T multi m0 w F s"
  shows "reactor_inv T multi m0 (w(c := True)) F s"
proof -
  have "life_of (w(c := True)) F (dr_ops s) = life_of w F (dr_ops s)"
    using assms(1) by (auto simp: life_of_def fun_eq_iff split: option.splits)
  moreover have "futs_ok (w(c := True)) (dr_backpressure s) F"
    using assms by (fastforce simp: reactor_inv_def futs_ok_def future_ok_def)
  ultimately show ?thesis using assms(2) by (simp add: reactor_inv_def)
qed

lemma answers_mono: "answers mo es w \<Longrightarrow> (\<And>a. w a \<Longrightarrow> w' a) \<Longrightarrow> answers mo es w'"
proof (induction es arbitrary: w w')
  case (Cons e es)
  have "answers mo es (if mo (cq_flags e) then w' else w'(cq_user_data e := False))"
    by (rule Cons.IH [of "if mo (cq_flags e) then w else w(cq_user_data e := False)"]) (use Cons.prems in \<open>auto split: if_splits\<close>)
  then show ?case using Cons.prems by auto
qed simp

text \<open>One future and its place change.\<close>

lemma futs_ok_update:
  assumes "futs_ok w b F" and "own_slots F" and "F a = Some (f, pf)" and "pf_slot pf' = pf_slot pf"
    and "\<And>x. x \<noteq> pf_slot pf \<Longrightarrow> nt_entries b' x = nt_entries b x" and "\<And>x. x \<noteq> a \<Longrightarrow> w' x = w x" and "future_ok w' b' a f' pf'"
  shows "futs_ok w' b' (F(a \<mapsto> (f', pf'))) \<and> own_slots (F(a \<mapsto> (f', pf')))"
proof
  have "future_ok w' b' x g pg" if "F x = Some (g, pg)" "x \<noteq> a" for x g pg
  proof -
    have "pf_slot pg \<noteq> pf_slot pf" using assms(2,3) that unfolding own_slots_def by metis
    then show ?thesis using assms(1,5,6) that by (auto simp: futs_ok_def future_ok_def waiter_ok_def)
  qed
  then show "futs_ok w' b' (F(a \<mapsto> (f', pf')))" using assms(7) by (simp add: futs_ok_def)
  show "own_slots (F(a \<mapsto> (f', pf')))"
    using assms(2,3,4) unfolding own_slots_def by (auto split: if_splits)
qed

lemma poll_submit_frame:
  assumes "poll_submit p f = Inr (b, f')" and "p \<noteq> Push_Closed"
  shows "of_addr f' = of_addr f \<and> (of_submitted f' \<longleftrightarrow> of_submitted f \<or> p = Push_Done)"
  using assms by (cases p) (auto simp: poll_submit_def split: if_splits)

lemma op_poll_frame:
  assumes "op_poll T p w f h = Inr (r, f', h')" and "p \<noteq> Push_Closed"
  shows "of_addr f' = of_addr f" and "of_submitted f' \<longleftrightarrow> of_submitted f \<or> p = Push_Done"
proof -
  obtain b f1 where f1: "poll_submit p f = Inr (b, f1)" using assms(1) by (cases "poll_submit p f") (auto simp: op_poll_def op_stage_poll_def)
  have "f' = f1 \<or> f' = f1\<lparr>of_completed := True\<rparr>" using assms(1) f1
    by (auto simp: op_poll_def op_stage_poll_def simp del: and_then_eq_Inr split: if_splits sum.splits option.splits poll.splits dest!: and_then_eq_Inr [THEN iffD1])
  then show "of_addr f' = of_addr f" "of_submitted f' \<longleftrightarrow> of_submitted f \<or> p = Push_Done"
    using poll_submit_frame [OF f1 assms(2)] by auto
qed

lemma op_next_frame:
  assumes "op_poll_next T p w f h = Inr (r, f', h')" and "p \<noteq> Push_Closed"
  shows "of_addr f' = of_addr f" and "of_submitted f' \<longleftrightarrow> of_submitted f \<or> p = Push_Done"
proof -
  obtain b f1 where f1: "poll_submit p f = Inr (b, f1)" using assms(1) by (cases "poll_submit p f") (auto simp: op_poll_next_def op_stage_poll_next_def)
  have "f' = f1 \<or> f' = f1\<lparr>of_completed := True\<rparr>" using assms(1) f1
    by (auto simp: op_poll_next_def op_stage_poll_next_def simp del: and_then_eq_Inr split: if_splits sum.splits option.splits poll.splits dest!: and_then_eq_Inr [THEN iffD1])
  then show "of_addr f' = of_addr f" "of_submitted f' \<longleftrightarrow> of_submitted f \<or> p = Push_Done"
    using poll_submit_frame [OF f1 assms(2)] by auto
qed

text \<open>Dropping a waiter fires at most others.\<close>

lemma notified_drop_entries:
  assumes C: "linked_list C" and inv: "notify_inv s" and e: "nt_entries s a = Some e"
  shows "\<exists>s' xs. notified_drop C a s = Some (Inr s') \<and> notify_inv s' \<and>
    nt_entries s' = (fired_entries xs (nt_entries s))(a := None)"
proof -
  obtain s' where s': "notified_drop C a s = Some (Inr s')" "notify_inv s'" using notified_drop_spec [OF assms] by blast
  have "\<exists>xs. nt_entries s' = (fired_entries xs (nt_entries s))(a := None)"
  proof (cases "ne_state e")
    case Waiter_Fired
    obtain r s1 xs where s1: "notify_n C 1 s = Some (Inr (r, s1))" "nt_entries s1 = fired_entries xs (nt_entries s)"
      using notify_n_spec [OF C inv refl, of 1] by blast
    then show ?thesis using s'(1) e Waiter_Fired by (auto simp: notified_drop_def)
  next
    case Waiter_Linked
    then have "nt_entries s' = (fired_entries [] (nt_entries s))(a := None)" using s'(1) e
      by (cases "list_remove C a (nt_waiters s)") (auto simp: notified_drop_def notify_cancel_def)
    then show ?thesis by blast
  next
    case Waiter_Unregistered
    then have "nt_entries s' = (fired_entries [] (nt_entries s))(a := None)" using s'(1) e by (auto simp: notified_drop_def)
    then show ?thesis by blast
  next
    case Waiter_Completed
    then have "nt_entries s' = (fired_entries [] (nt_entries s))(a := None)" using s'(1) e by (auto simp: notified_drop_def)
    then show ?thesis by blast
  qed
  then show ?thesis using s' by blast
qed

section \<open>Draining\<close>

lemma life_go:
  assumes "class_ok T" and "life_via T multi m0 m" and "life_allowed multi c m"
  shows "\<exists>m'. life_exec T c m = Inr m' \<and> life_via T multi m0 m'"
  using life_step_safe [OF assms(1) life_viaD [OF assms(2)] assms(3)] assms(2,3) life_steps.life_more
  unfolding life_via_def by blast

lemma life_of_cqe:
  assumes T: "class_ok T" and "answers (cl_more T) (e # es) w" and "1024 < cq_user_data e"
    and "futs_ok w b F" and "life_via T multi m0 (life_of w F h)"
  shows "\<exists>h'. complete_operation T e h = Inr h' \<and>
    life_via T multi m0 (life_of (if cl_more T (cq_flags e) then w else w(cq_user_data e := False)) F h')"
proof -
  let ?a = "cq_user_data e" and ?m = "life_of w F h"
  have w: "w ?a" and res: "cq_result e \<noteq> push_bit 31 1" using assms(2,3) by auto
  have sub: "of_submitted f" if "F ?a = Some (f, pf)" for f pf
    using assms(4) that w by (auto simp: futs_ok_def future_ok_def split: if_splits)
  have "lf_place ?m ?a = In_Ring" using w sub assms(3) by (auto simp: life_of_def split: option.splits prod.splits)
  then have "life_allowed multi (Kernel_Cqe e) ?m" using res by simp
  then obtain m' where m': "life_exec T (Kernel_Cqe e) ?m = Inr m'" "life_via T multi m0 m'"
    using life_go [OF T assms(5)] by blast
  then obtain h' where h': "complete_operation T e h = Inr h'"
    "m' = ?m\<lparr>lf_heap := h', lf_place := (if cl_more T (cq_flags e) then lf_place ?m else (lf_place ?m)(?a := Nowhere))\<rparr>"
    by (auto simp: life_of_def)
  have "m' = life_of (if cl_more T (cq_flags e) then w else w(?a := False)) F h'"
    using h'(2) sub by (auto simp: life_of_def fun_eq_iff split: option.splits prod.splits)
  then show ?thesis using h'(1) m'(2) by blast
qed

lemma futs_ok_unowed: "futs_ok w b F \<Longrightarrow> futs_ok (w(a := False)) b F"
  by (auto simp: futs_ok_def future_ok_def)

text \<open>The client of such a ring: the list and the type of the operations keep their contracts.\<close>

locale io_reactor = io_kernel U capacity sq cq "cl_more T" owed
  for U :: "'k uring" and capacity sq cq and T :: "('d, 'o, 'i) op_class" and owed +
  fixes C :: env
  assumes list: "linked_list C" and ok: "class_ok T"
begin

lemma drain_entry_reactor:
  assumes an: "answers (cl_more T) (e # es) w" and inv: "reactor_inv T multi m0 w F s"
  shows "\<exists>s'. drain_entry C T e s = Some (Inr s') \<and> dr_ring s' = dr_ring s \<and>
    reactor_inv T multi m0 (if cl_more T (cq_flags e) then w else w(cq_user_data e := False)) F s'"
proof -
  let ?w = "if cl_more T (cq_flags e) then w else w(cq_user_data e := False)"
  have fo: "futs_ok ?w (dr_backpressure s) F" using inv futs_ok_unowed by (auto simp: reactor_inv_def)
  have li: "life_via T multi m0 (life_of w F (dr_ops s))" using inv by (simp add: reactor_inv_def)
  show ?thesis
  proof (cases "1024 < cq_user_data e")
    case True
    obtain h' where h': "complete_operation T e (dr_ops s) = Inr h'" "life_via T multi m0 (life_of ?w F h')"
      using life_of_cqe [OF ok an True _ li, of "dr_backpressure s"] inv by (auto simp: reactor_inv_def)
    have "drain_entry C T e s = Some (Inr (s\<lparr>dr_ops := h'\<rparr>))"
      using True h'(1) by (auto simp: drain_entry_def Let_def DRAIN_TOKEN_def UNPARKER_WAKE_TOKEN_def CANCELLATION_TOKEN_def CLOSE_FD_TOKEN_def)
    then show ?thesis using h'(2) fo inv by (simp add: reactor_inv_def)
  next
    case False
    have "life_of ?w F (dr_ops s) = life_of w F (dr_ops s)" using False by (auto simp: life_of_def fun_eq_iff split: option.splits)
    then have same: "reactor_inv T multi m0 ?w F s" using inv fo by (simp add: reactor_inv_def)
    have res: "\<exists>r. cqe_to_result (cl_debug T) e = Inr r" using an by (simp add: cqe_to_result_def)
    obtain s' where s': "set_status C Status_Shutdown s = Some (Inr s')" "reactor_inv T multi m0 ?w F s'" "dr_ring s' = dr_ring s"
      using set_status_reactor [OF list same] by blast
    have "reactor_inv T multi m0 ?w F (s\<lparr>dr_unparker := u\<rparr>)" for u using same by (simp add: reactor_inv_def)
    then show ?thesis using False s' same res by (auto simp: drain_entry_def Let_def)
  qed
qed

lemma drain_entries_reactor:
  "answers (cl_more T) es w \<Longrightarrow> reactor_inv T multi m0 w F s \<Longrightarrow>
    \<exists>s'. drain_entries C T es s = Some (Inr s') \<and> dr_ring s' = dr_ring s \<and> reactor_inv T multi m0 (still_owed (cl_more T) es w) F s'"
proof (induction es arbitrary: w s)
  case (Cons e es)
  let ?w = "if cl_more T (cq_flags e) then w else w(cq_user_data e := False)"
  obtain s1 where s1: "drain_entry C T e s = Some (Inr s1)" "dr_ring s1 = dr_ring s" "reactor_inv T multi m0 ?w F s1"
    using drain_entry_reactor [OF Cons.prems] by blast
  have "answers (cl_more T) es ?w" using Cons.prems(1) by simp
  from Cons.IH [OF this s1(3)] show ?case using s1(1,2) by auto
qed simp

text \<open>Draining ends, without a fault, and what it took is no longer owed.\<close>

lemma drain_loop_reactor:
  "driver_ok T multi m0 cq owed F s \<Longrightarrow>
    \<exists>n s'. drain_loop C U T d s = Some (Inr (n, s')) \<and> driver_ok T multi m0 cq owed F s'"
proof (induction "length (cq (dr_ring s))" arbitrary: s d rule: less_induct)
  case less
  let ?q = "cq (dr_ring s)" and ?w = "owed (dr_ring s)"
  have an: "answers (cl_more T) ?q ?w" and inv: "reactor_inv T multi m0 ?w F s"
    using less.prems by (simp_all add: driver_ok_def)
  obtain k where k: "ur_cq_fill U 32 (dr_ring s) = (take 32 ?q, k)" "cq k = drop 32 ?q" using fill_law by blast
  have wk: "owed k = still_owed (cl_more T) (take 32 ?q) ?w" using fill_owed [OF an, of 32] k(1) by simp
  have split: "answers (cl_more T) (take 32 ?q) ?w" "answers (cl_more T) (drop 32 ?q) (owed k)"
    using an wk answers_append [of "cl_more T" "take 32 ?q" "drop 32 ?q" ?w] by simp_all
  have "reactor_inv T multi m0 ?w F (s\<lparr>dr_ring := k\<rparr>)" using inv by (simp add: reactor_inv_def)
  from drain_entries_reactor [OF split(1) this] obtain s1 where
    s1: "drain_entries C T (take 32 ?q) (s\<lparr>dr_ring := k\<rparr>) = Some (Inr s1)" "dr_ring s1 = k" "reactor_inv T multi m0 (owed k) F s1"
    using wk by auto
  have ok1: "driver_ok T multi m0 cq owed F s1" using s1 split(2) k(2) by (simp add: driver_ok_def)
  have fill: "drain_fill U 32 s = (take 32 ?q, 32 < length ?q, s\<lparr>dr_ring := k\<rparr>)"
    using k(1) by (simp add: drain_fill_def len_law)
  have step: "drain_loop C U T d s = (if \<not> 32 < length ?q then Some (Inr (d + length (take 32 ?q), s1))
      else drain_loop C U T (d + length (take 32 ?q)) s1)"
    by (subst drain_loop.simps) (simp add: fill s1(1))
  show ?case
  proof (cases "32 < length ?q")
    case True
    then have "length (cq (dr_ring s1)) < length ?q" using s1(2) k(2) by simp
    from less.hyps [OF this ok1] show ?thesis using step True by auto
  qed (use step ok1 in auto)
qed

lemma drain_reactor:
  "driver_ok T multi m0 cq owed F s \<Longrightarrow> \<exists>n s'. driver_drain C U T s = Some (Inr (n, s')) \<and> driver_ok T multi m0 cq owed F s'"
  unfolding driver_drain_def by (rule drain_loop_reactor)

text \<open>The requests of the driver itself carry tokens, which are no addresses of operations.\<close>

lemma push_cq: "ur_sq_push U e k = Some k' \<Longrightarrow> cq k' = cq k"
  using push_full [of k e] push_room [of k e] by (cases "capacity \<le> length (sq k)") auto

lemma push_token_ok:
  assumes "driver_ok T multi m0 cq owed F s" and "ur_sq_push U e (dr_ring s) = Some k" and "sq_user_data e \<le> 1024"
  shows "driver_ok T multi m0 cq owed F (s\<lparr>dr_ring := k\<rparr>)"
  using assms reactor_inv_token [of "sq_user_data e" T multi m0 "owed (dr_ring s)" F s] answers_mono
    push_cq [OF assms(2)] push_owed [OF assms(2)]
  by (auto simp: driver_ok_def reactor_inv_ring)

lemma raw_token_ok:
  assumes "driver_ok T multi m0 cq owed F s" and "try_push_raw U e s = (b, s')" and "sq_user_data e \<le> 1024"
  shows "driver_ok T multi m0 cq owed F s'"
  using assms push_token_ok [OF assms(1) _ assms(3)] by (auto simp: try_push_raw_def split: option.splits)

lemma shared_submit_reactor:
  assumes "driver_ok T multi m0 cq owed F s"
  shows "\<exists>r s'. shared_submit C U mode s = Some (Inr (r, s')) \<and> driver_ok T multi m0 cq owed F s'"
proof -
  have an: "answers (cl_more T) (cq (dr_ring s)) (owed (dr_ring s))" and inv: "reactor_inv T multi m0 (owed (dr_ring s)) F s"
    using assms by (simp_all add: driver_ok_def)
  obtain r k where rk: "(case mode of
      Timeout t \<Rightarrow> ur_submit_args U 1 (Some (t div 1000000000, t mod 1000000000)) (dr_ring s)
    | NextCompletion \<Rightarrow> ur_submit_args U 1 None (dr_ring s) | NoPark \<Rightarrow> ur_submit U (dr_ring s)) = (r, k)" by fastforce
  have k: "owed k = owed (dr_ring s) \<and> answers (cl_more T) (cq k) (owed (dr_ring s))"
    using rk submit_owed [OF an] wait_owed [OF an] by (cases mode) (simp_all, (metis snd_conv)+)
  have ok1: "driver_ok T multi m0 cq owed F (s\<lparr>dr_ring := k\<rparr>)" using k inv by (simp add: driver_ok_def reactor_inv_ring)
  show ?thesis
  proof (cases r)
    case (Inl e)
    then show ?thesis using ok1 rk by (simp add: shared_submit_def)
  next
    case (Inr n)
    have "reactor_inv T multi m0 (owed k) F (s\<lparr>dr_ring := k\<rparr>)" using ok1 by (simp add: driver_ok_def)
    from notify_waiting_reactor [OF list this, of n] show ?thesis using Inr rk ok1 by (auto simp: shared_submit_def driver_ok_def)
  qed
qed

lemma prepare_park_reactor:
  assumes "driver_ok T multi m0 cq owed F s"
  shows "driver_ok T multi m0 cq owed F (snd (prepare_park U s))"
proof -
  have u: "driver_ok T multi m0 cq owed F (s\<lparr>dr_unparker := u\<rparr>)" for u using assms by (simp add: driver_ok_def reactor_inv_def)
  have "sq_user_data event_read \<le> 1024" by (simp add: event_read_def UNPARKER_WAKE_TOKEN_def)
  from raw_token_ok [OF u _ this] u assms show ?thesis
    by (auto simp: prepare_park_def Let_def split: prod.splits)
qed

lemma driver_submit_reactor:
  assumes "driver_ok T multi m0 cq owed F s"
  shows "\<exists>r s'. driver_submit C U mode s = Some (Inr (r, s')) \<and> driver_ok T multi m0 cq owed F s'"
  using shared_submit_reactor [OF assms] shared_submit_reactor [OF prepare_park_reactor [OF assms]]
  by (auto simp: driver_submit_def split: prod.splits)

lemma park_loop_reactor:
  assumes "park_loop C U T mode s = Some r" and "driver_ok T multi m0 cq owed F s"
  shows "\<exists>x s'. r = Inr (x, s') \<and> driver_ok T multi m0 cq owed F s'"
proof -
  let ?P = "\<lambda>(C' :: env) (U' :: 'k uring) (T' :: ('d, 'o, 'i) op_class) (mode :: park_mode) (s :: ('k, 'd) driver)
      (r :: fault + ((io_error + unit) \<times> ('k, 'd) driver)). C' = C \<longrightarrow> U' = U \<longrightarrow> T' = T \<longrightarrow> driver_ok T multi m0 cq owed F s \<longrightarrow>
      (\<exists>x s'. r = Inr (x, s') \<and> driver_ok T multi m0 cq owed F s')"
  have "?P C U T mode s r"
  proof (rule park_loop.raw_induct [of ?P C U T mode s r, OF _ assms(1)])
    fix loop :: "env \<Rightarrow> 'k uring \<Rightarrow> ('d, 'o, 'i) op_class \<Rightarrow> park_mode \<Rightarrow> ('k, 'd) driver \<Rightarrow>
        (fault + ((io_error + unit) \<times> ('k, 'd) driver)) option" and C' U' T' mode s r
    assume IH: "\<And>C U T mode s r. loop C U T mode s = Some r \<Longrightarrow> ?P C U T mode s r"
      and body: "run_then (driver_submit C' U' mode s) (\<lambda>(r, s). case r of
         Inr _ \<Rightarrow> Some (Inr (Inr (), s))
       | Inl x \<Rightarrow>
           if x = Os_Error (ur_ebusy U')
           then run_then (driver_drain C' U' T' s) (\<lambda>(_, s). loop C' U' T' NoPark s)
           else if x = Os_Error (ur_eintr U') then loop C' U' T' mode s
           else Some (Inr (Inl x, s))) = Some r"
    have "\<exists>x s'. r = Inr (x, s') \<and> driver_ok T multi m0 cq owed F s'" if e: "C' = C" "U' = U" "T' = T" and k: "driver_ok T multi m0 cq owed F s"
    proof -
      obtain q s1 where q: "driver_submit C U mode s = Some (Inr (q, s1))" "driver_ok T multi m0 cq owed F s1"
        using driver_submit_reactor [OF k] by blast
      obtain n s2 where d: "driver_drain C U T s1 = Some (Inr (n, s2))" "driver_ok T multi m0 cq owed F s2"
        using drain_reactor [OF q(2)] by blast
      show ?thesis using body q d e IH [of C U T NoPark s2 r] IH [of C U T mode s1 r]
        by (cases q) (auto split: if_splits)
    qed
    then show "?P C' U' T' mode s r" by blast
  qed
  then show ?thesis using assms(2) by blast
qed

lemma driver_park_reactor:
  assumes "driver_park C U T mode s = Some r" and "driver_ok T multi m0 cq owed F s"
  shows "\<exists>x s'. r = Inr (x, s') \<and> driver_ok T multi m0 cq owed F s'"
proof -
  obtain n s1 where "driver_drain C U T s = Some (Inr (n, s1))" "driver_ok T multi m0 cq owed F s1"
    using drain_reactor [OF assms(2)] by blast
  then show ?thesis using assms(1) park_loop_reactor by (auto simp: driver_park_def)
qed

lemma driver_cancel_reactor:
  assumes "driver_ok T multi m0 cq owed F s"
  shows "\<exists>r s'. driver_cancel C U a sync s = Some (Inr (r, s')) \<and> driver_ok T multi m0 cq owed F s'"
proof -
  let ?e = "(sqe_build (Sqe_Async_Cancel a))\<lparr>sq_skip_success := True, sq_user_data := CANCELLATION_TOKEN\<rparr>"
  obtain r s1 where s1: "shared_submit C U NoPark s = Some (Inr (r, s1))" "driver_ok T multi m0 cq owed F s1"
    using shared_submit_reactor [OF assms] by blast
  show ?thesis
  proof (cases "r = Inr (projr r) \<and> \<not> sync \<and> \<not> ur_sq_full U (dr_ring s1)")
    case True
    then have "length (sq (dr_ring s1)) < capacity" by (simp add: full_law)
    then obtain k where k: "ur_sq_push U ?e (dr_ring s1) = Some k" using push_room by blast
    from push_token_ok [OF s1(2) this] show ?thesis
      using True s1(1) k by (cases r) (auto simp: driver_cancel_def CANCELLATION_TOKEN_def)
  next
    case False
    have an: "answers (cl_more T) (cq (dr_ring s1)) (owed (dr_ring s1))" and inv: "reactor_inv T multi m0 (owed (dr_ring s1)) F s1"
      using s1(2) by (simp_all add: driver_ok_def)
    have "driver_ok T multi m0 cq owed F (s1\<lparr>dr_ring := snd (ur_sync_cancel U (Some a) (dr_ring s1))\<rparr>)"
      using cancel_owed [OF an] inv by (simp add: driver_ok_def reactor_inv_ring)
    then show ?thesis using s1 False by (cases r) (auto simp: driver_cancel_def split: prod.splits)
  qed
qed

lemma driver_close_reactor:
  assumes "driver_ok T multi m0 cq owed F s"
  shows "\<exists>r s'. driver_close_fd C U fd s = Some (Inr (r, s')) \<and> driver_ok T multi m0 cq owed F s'"
proof -
  let ?e = "(sqe_build (Sqe_Close fd))\<lparr>sq_skip_success := True, sq_user_data := CLOSE_FD_TOKEN\<rparr>"
  have tok: "sq_user_data ?e \<le> 1024" by (simp add: CLOSE_FD_TOKEN_def)
  obtain b s1 where s1: "try_push_raw U ?e s = (b, s1)" by fastforce
  note k1 = raw_token_ok [OF assms s1 tok]
  have again: "driver_ok T multi m0 cq owed F s3" if "try_push_raw U ?e s2 = (b', s3)" "driver_ok T multi m0 cq owed F s2" for b' s2 s3
    using raw_token_ok [OF that(2,1) tok] .
  show ?thesis
  proof (cases b)
    case True
    obtain b' s3 where s3: "try_push_raw U ?e s1 = (b', s3)" by fastforce
    show ?thesis using True s1 s3 again [OF s3 k1] by (simp add: driver_close_fd_def try_push_raw_submit_def)
  next
    case False
    obtain r s2 where s2: "shared_submit C U NoPark s1 = Some (Inr (r, s2))" "driver_ok T multi m0 cq owed F s2"
      using shared_submit_reactor [OF k1] by blast
    obtain b' s3 where s3: "try_push_raw U ?e s2 = (b', s3)" by fastforce
    show ?thesis using False s1 s2 s3 again [OF s3 s2(2)]
      by (cases r) (simp_all add: driver_close_fd_def try_push_raw_submit_def)
  qed
qed

text \<open>The poll of a push future with an entry.\<close>

lemma push_poll_start:
  assumes run: "dr_status s = Status_Running" and e: "pf_entry f = Some e" and inv: "notify_inv (dr_backpressure s)"
    and room: "nt_count (dr_backpressure s) \<noteq> - 1" and nw: "\<not> pf_waiting f" "nt_entries (dr_backpressure s) (pf_slot f) = None"
  shows "\<exists>p f' s'. push_poll C U w f s = Some (Inr (p, f', s')) \<and> push_outcome U f s p f' s'"
proof (cases "capacity \<le> length (sq (dr_ring s))")
  case True
  let ?B = "dr_backpressure s"
  let ?b = "?B\<lparr>nt_entries := (nt_entries ?B)(pf_slot f \<mapsto> \<lparr> ne_state = Waiter_Linked, ne_waker = Some w \<rparr>),
    nt_waiters := nt_waiters ?B @ [pf_slot f], nt_count := nt_count ?B + 1\<rparr>"
  have "unat (nt_count ?B) < unat (- 1 :: usize)" using room by (metis word_order.not_eq_extremum word_less_nat_alt)
  from succ_below [OF this] have succ: "add_word d (nt_count ?B) 1 = Inr (nt_count ?B + 1)" "unat (nt_count ?B + 1) = unat (nt_count ?B) + 1" for d
    by auto
  have poll: "notified_poll C (pf_slot f) w (notify_wait (pf_slot f) ?B) = Inr (Pending, ?b)"
    using succ(1) by (simp add: notified_poll_def notify_wait_def notified_new_def linked_list.push_back_law [OF list])
  let ?f = "f\<lparr>pf_waiting := True, pf_entry := Some e\<rparr>"
  have "push_poll C U w ?f (s\<lparr>dr_backpressure := notify_wait (pf_slot f) ?B\<rparr>) = Some (Inr (Push_Pending, ?f, s\<lparr>dr_backpressure := ?b\<rparr>))"
    using run poll by (subst push_poll.simps) simp
  moreover have "push_poll C U w f s = push_poll C U w ?f (s\<lparr>dr_backpressure := notify_wait (pf_slot f) ?B\<rparr>)"
    using run e nw True by (subst push_poll.simps) (simp add: try_push_full)
  moreover have "push_outcome U f s Push_Pending ?f (s\<lparr>dr_backpressure := ?b\<rparr>)"
    using inv nw succ(2) e by (auto simp: push_outcome_def waiter_ok_def notify_inv_def)
  ultimately show ?thesis by auto
next
  case False
  then obtain k where k: "ur_sq_push U (into_entry e) (dr_ring s) = Some k" using push_room by force
  then have "push_poll C U w f s = Some (Inr (Push_Done, f\<lparr>pf_waiting := False, pf_entry := None\<rparr>, s\<lparr>dr_ring := k\<rparr>))"
    using run e nw(1) False by (subst push_poll.simps) (simp add: try_push_def full_law)
  then show ?thesis using inv nw(2) e k by (auto simp: push_outcome_def waiter_ok_def)
qed

lemma push_poll_reactor:
  assumes run: "dr_status s = Status_Running" and e: "pf_entry f = Some e" and inv: "notify_inv (dr_backpressure s)"
    and room: "nt_count (dr_backpressure s) \<noteq> - 1" and wo: "waiter_ok (dr_backpressure s) f"
  shows "\<exists>p f' s'. push_poll C U w f s = Some (Inr (p, f', s')) \<and> push_outcome U f s p f' s'"
proof (cases "nt_entries (dr_backpressure s) (pf_slot f)")
  case None
  then show ?thesis using push_poll_start [OF run e inv room] wo by (simp add: waiter_ok_def)
next
  case (Some n)
  let ?B = "dr_backpressure s"
  have wt: "pf_waiting f" using wo Some by (simp add: waiter_ok_def)
  show ?thesis
  proof (cases "ne_state n = Waiter_Linked")
    case True
    let ?b = "?B\<lparr>nt_entries := (nt_entries ?B)(pf_slot f \<mapsto> n\<lparr>ne_waker := Some w\<rparr>)\<rparr>"
    have "push_poll C U w f s = Some (Inr (Push_Pending, f, s\<lparr>dr_backpressure := ?b\<rparr>))"
      using run wt Some True by (subst push_poll.simps) (simp add: notified_poll_def)
    moreover have "push_outcome U f s Push_Pending f (s\<lparr>dr_backpressure := ?b\<rparr>)"
      using inv Some True wt e by (auto simp: push_outcome_def waiter_ok_def notify_inv_def)
    ultimately show ?thesis by auto
  next
    case False
    then have fired: "ne_state n = Waiter_Fired" using wo Some by (simp add: waiter_ok_def)
    let ?f = "f\<lparr>pf_waiting := False\<rparr>" and ?s = "s\<lparr>dr_backpressure := ?B\<lparr>nt_entries := (nt_entries ?B)(pf_slot f := None)\<rparr>\<rparr>"
    have i: "notify_inv (dr_backpressure ?s)" using inv Some fired by (auto simp: notify_inv_def)
    have "\<exists>p f' s'. push_poll C U w ?f ?s = Some (Inr (p, f', s')) \<and> push_outcome U ?f ?s p f' s'"
      by (rule push_poll_start) (use run e i room in simp_all)
    then obtain p f' s' where r: "push_poll C U w ?f ?s = Some (Inr (p, f', s'))" "push_outcome U ?f ?s p f' s'" by blast
    have "push_outcome U f s p f' s'" using r(2) e by (cases "p = Push_Pending") (simp_all add: push_outcome_def)
    then show ?thesis using r(1) push_poll_fired [OF list run wt Some fired] by auto
  qed
qed

text \<open>The poll of a future of the machine: what its push does.\<close>

lemma poll_push_reactor:
  assumes k: "driver_ok T multi m0 cq owed F s" and f: "F a = Some (f, pf)" and may: "may_poll f s"
  shows "\<exists>p pf' s'. poll_push C U w f pf s = Some (Inr (p, pf', s')) \<and> poll_outcome cq owed a f pf s p pf' s'"
proof -
  have i: "notify_inv (dr_backpressure s)" and fo: "future_ok (owed (dr_ring s)) (dr_backpressure s) a f pf"
    using k f by (auto simp: driver_ok_def reactor_inv_def futs_ok_def)
  show ?thesis
  proof (cases "of_submitted f")
    case True
    then show ?thesis using i fo by (simp add: poll_push_def poll_outcome_def future_ok_def)
  next
    case False
    then obtain e where e: "pf_entry pf = Some (a, e)" and wo: "waiter_ok (dr_backpressure s) pf" using fo by (auto simp: future_ok_def)
    have run: "dr_status s = Status_Running" and room: "nt_count (dr_backpressure s) \<noteq> - 1"
      using may False by (auto simp: may_poll_def)
    obtain p pf' s' where r: "push_poll C U w pf s = Some (Inr (p, pf', s'))" "push_outcome U pf s p pf' s'"
      using push_poll_reactor [OF run e i room wo, of w] by blast
    show ?thesis
    proof (cases "p = Push_Pending")
      case True
      then show ?thesis using r False by (simp add: poll_push_def poll_outcome_def push_outcome_def)
    next
      case nw: False
      then have "p = Push_Done" "ur_sq_push U (into_entry (a, e)) (dr_ring s) = Some (dr_ring s')" "\<not> pf_waiting pf'"
        using r(2) e by (cases p; simp add: push_outcome_def)+
      then show ?thesis using r False push_cq push_owed by (simp add: poll_push_def poll_outcome_def push_outcome_def into_entry_def)
    qed
  qed
qed

text \<open>After the poll of its operation.\<close>

lemma polled_reactor:
  assumes k: "driver_ok T multi m0 cq owed F s" and f: "F a = Some (f, pf)"
    and out: "poll_outcome cq owed a f pf s p pf' s'"
    and f': "of_addr f' = of_addr f" "of_submitted f' \<longleftrightarrow> of_submitted f \<or> p = Push_Done"
    and lr: "life_via T multi m0 (life_polled a f' h (life_of (owed (dr_ring s)) F (dr_ops s)))"
  shows "driver_ok T multi m0 cq owed (F(a \<mapsto> (f', pf'))) (s'\<lparr>dr_ops := h\<rparr>)"
proof -
  let ?w = "owed (dr_ring s)" and ?w' = "owed (dr_ring s')" and ?F = "F(a \<mapsto> (f', pf'))"
  have fo: "future_ok ?w (dr_backpressure s) a f pf" and own: "own_slots F" and futs: "futs_ok ?w (dr_backpressure s) F"
    and an: "answers (cl_more T) (cq (dr_ring s)) ?w"
    using k f by (auto simp: driver_ok_def reactor_inv_def futs_ok_def)
  have push: "p \<noteq> Push_Closed" "dr_ops s' = dr_ops s" "notify_inv (dr_backpressure s')" "waiter_ok (dr_backpressure s') pf'"
      "pf_slot pf' = pf_slot pf" "\<And>x. x \<noteq> pf_slot pf \<Longrightarrow> nt_entries (dr_backpressure s') x = nt_entries (dr_backpressure s) x"
      "cq (dr_ring s') = cq (dr_ring s)" "if of_submitted f \<or> p = Push_Done then \<not> pf_waiting pf' else pf_entry pf' = pf_entry pf"
      "?w' = (if \<not> of_submitted f \<and> p = Push_Done then ?w(a := True) else ?w)"
    using out unfolding poll_outcome_def by blast+
  have w': "?w' b = ?w b" if "b \<noteq> a" for b using push(9) that by simp
  have me: "future_ok ?w' (dr_backpressure s') a f' pf'"
    using fo push f' by (auto simp: future_ok_def split: if_splits)
  have "futs_ok ?w' (dr_backpressure s') ?F \<and> own_slots ?F"
    by (rule futs_ok_update [OF futs own f push(5,6) w' me])
  moreover have "life_polled a f' h (life_of ?w F (dr_ops s)) = life_of ?w' ?F h"
  proof -
    have "1024 < a" and "\<not> of_submitted f \<Longrightarrow> \<not> ?w a" using fo by (auto simp: future_ok_def)
    then show ?thesis using f f'(2) push(9) w'
      by (auto simp: life_polled_def life_of_def fun_eq_iff split: option.splits)
  qed
  moreover have "answers (cl_more T) (cq (dr_ring s')) ?w'" using push(7,9) answers_mono [OF an, of ?w'] by auto
  ultimately show ?thesis using push(3) lr by (simp add: driver_ok_def reactor_inv_def)
qed

lemma poll_op_reactor:
  assumes k: "driver_ok T False m0 cq owed F s" and f: "F a = Some (f, pf)" and may: "may_poll f s" and nc: "\<not> of_completed f"
  shows "\<exists>r f' pf' s'. driver_poll_op C U T w f pf s = Some (Inr (r, f', pf', s')) \<and> driver_ok T False m0 cq owed (F(a \<mapsto> (f', pf'))) s'"
proof -
  obtain p pf' s1 where p: "poll_push C U w f pf s = Some (Inr (p, pf', s1))" and out: "poll_outcome cq owed a f pf s p pf' s1"
    using poll_push_reactor [OF k f may, of w] by blast
  have push: "p \<noteq> Push_Closed" "dr_ops s1 = dr_ops s" using out by (simp_all add: poll_outcome_def)
  let ?m = "life_of (owed (dr_ring s)) F (dr_ops s)"
  have lf: "lf_futs ?m a = Some f" using f by (simp add: life_of_def)
  have lr: "life_via T False m0 ?m" using k by (simp add: driver_ok_def reactor_inv_def)
  have "life_allowed False (Op_Poll a w p) ?m" using lf push(1) nc by simp
  from life_go [OF ok lr this] obtain m' where m': "life_exec T (Op_Poll a w p) ?m = Inr m'" "life_via T False m0 m'" by blast
  then obtain r f' h where op: "op_poll T p w f (dr_ops s) = Inr (r, f', h)" "m' = life_polled a f' h ?m"
    using lf by (auto simp: life_of_def)
  have "driver_ok T False m0 cq owed (F(a \<mapsto> (f', pf'))) (s1\<lparr>dr_ops := h\<rparr>)"
    by (rule polled_reactor [OF k f out op_poll_frame [OF op(1) push(1)]]) (use m'(2) op(2) in simp)
  then show ?thesis using p op(1) push(2) by (simp add: driver_poll_op_def)
qed

lemma poll_next_reactor:
  assumes k: "driver_ok T True m0 cq owed F s" and f: "F a = Some (f, pf)" and may: "may_poll f s"
  shows "\<exists>r f' pf' s'. driver_poll_next C U T w f pf s = Some (Inr (r, f', pf', s')) \<and> driver_ok T True m0 cq owed (F(a \<mapsto> (f', pf'))) s'"
proof -
  obtain p pf' s1 where p: "poll_push C U w f pf s = Some (Inr (p, pf', s1))" and out: "poll_outcome cq owed a f pf s p pf' s1"
    using poll_push_reactor [OF k f may, of w] by blast
  have push: "p \<noteq> Push_Closed" "dr_ops s1 = dr_ops s" using out by (simp_all add: poll_outcome_def)
  let ?m = "life_of (owed (dr_ring s)) F (dr_ops s)"
  have lf: "lf_futs ?m a = Some f" using f by (simp add: life_of_def)
  have lr: "life_via T True m0 ?m" using k by (simp add: driver_ok_def reactor_inv_def)
  have "life_allowed True (Op_Next a w p) ?m" using lf push(1) by simp
  from life_go [OF ok lr this] obtain m' where m': "life_exec T (Op_Next a w p) ?m = Inr m'" "life_via T True m0 m'" by blast
  then obtain r f' h where op: "op_poll_next T p w f (dr_ops s) = Inr (r, f', h)" "m' = life_polled a f' h ?m"
    using lf by (auto simp: life_of_def)
  have "driver_ok T True m0 cq owed (F(a \<mapsto> (f', pf'))) (s1\<lparr>dr_ops := h\<rparr>)"
    by (rule polled_reactor [OF k f out op_next_frame [OF op(1) push(1)]]) (use m'(2) op(2) in simp)
  then show ?thesis using p op(1) push(2) by (simp add: driver_poll_next_def)
qed

text \<open>A new operation and its push future.\<close>

lemma submit_reactor:
  assumes k: "driver_ok T multi m0 cq owed F s" and a: "1024 < a" "oh_ops (dr_ops s) a = None"
    and slot: "nt_entries (dr_backpressure s) slot = None" "\<And>b f pf. F b = Some (f, pf) \<Longrightarrow> pf_slot pf \<noteq> slot"
  shows "\<exists>f pf s'. handle_submit T cfg a slot d s = Inr (f, pf, s') \<and> driver_ok T multi m0 cq owed (F(a \<mapsto> (f, pf))) s'"
proof -
  let ?w = "owed (dr_ring s)"
  let ?m = "life_of ?w F (dr_ops s)"
  have lr: "life_via T multi m0 ?m" and futs: "futs_ok ?w (dr_backpressure s) F" and own: "own_slots F"
    using k by (simp_all add: driver_ok_def reactor_inv_def)
  have no: "F a = None \<and> \<not> ?w a"
    using life_inv_at [OF life_viaD [OF lr], of a] a by (auto simp: life_ok_def life_of_def split: if_splits)
  have "life_allowed multi (Op_New a d) ?m" using a by (simp add: life_of_def)
  from life_go [OF ok lr this] obtain m' where m': "life_exec T (Op_New a d) ?m = Inr m'" "life_via T multi m0 m'" by blast
  then obtain f h where n: "op_new T a d (dr_ops s) = Inr (f, h)"
    "m' = ?m\<lparr>lf_heap := h, lf_futs := (lf_futs ?m)(a \<mapsto> f), lf_place := (lf_place ?m)(a := In_Future)\<rparr>"
    by (auto simp: life_of_def)
  have f: "f = \<lparr> of_addr = a, of_submitted = False, of_completed = False \<rparr>" using n(1) by (auto simp: op_new_def)
  let ?pf = "handle_push slot (a, cfg d)" and ?s = "s\<lparr>dr_ops := h\<rparr>"
  have "m' = life_of ?w (F(a \<mapsto> (f, ?pf))) h"
    using n(2) f by (auto simp: life_of_def fun_eq_iff)
  moreover have "futs_ok ?w (dr_backpressure ?s) (F(a \<mapsto> (f, ?pf)))"
    using futs f no slot(1) a(1) by (auto simp: futs_ok_def future_ok_def waiter_ok_def handle_push_def push_future_new_def)
  moreover have "own_slots (F(a \<mapsto> (f, ?pf)))"
  proof -
    have "\<forall>b f pf. F b = Some (f, pf) \<longrightarrow> pf_slot pf \<noteq> slot" using slot(2) by blast
    then show ?thesis using own unfolding own_slots_def handle_push_def push_future_new_def by (auto split: if_splits)
  qed
  ultimately have "driver_ok T multi m0 cq owed (F(a \<mapsto> (f, ?pf))) ?s"
    using k m'(2) by (simp add: driver_ok_def reactor_inv_def)
  then show ?thesis using n(1) by (simp add: handle_submit_def)
qed

text \<open>The drop of a future, before and after its submission.\<close>

lemma dropped_reactor:
  assumes k: "driver_ok T multi m0 cq owed F s" and f: "F a = Some (f, pf)" and b: "notify_inv b"
    and others: "nt_entries b = (fired_entries xs (nt_entries (dr_backpressure s)))(pf_slot pf := None)"
  shows "\<exists>c h. op_drop T f (dr_ops s) = Inr (c, h) \<and>
    driver_ok T multi m0 cq owed (F(a := None)) (s\<lparr>dr_backpressure := b, dr_ops := h\<rparr>)"
proof -
  let ?w = "owed (dr_ring s)"
  let ?m = "life_of ?w F (dr_ops s)"
  have lr: "life_via T multi m0 ?m" and futs: "futs_ok ?w (dr_backpressure s) F" and own: "own_slots F"
    using k by (simp_all add: driver_ok_def reactor_inv_def)
  have lf: "lf_futs ?m a = Some f" using f by (simp add: life_of_def)
  then have "life_allowed multi (Op_Drop a) ?m" by simp
  from life_go [OF ok lr this] obtain m' where m': "life_exec T (Op_Drop a) ?m = Inr m'" "life_via T multi m0 m'" by blast
  then obtain c h where n: "op_drop T f (dr_ops s) = Inr (c, h)"
    "m' = ?m\<lparr>lf_heap := h, lf_futs := (lf_futs ?m)(a := None),
       lf_place := (if of_submitted f then lf_place ?m else (lf_place ?m)(a := Nowhere))\<rparr>"
    using lf by (auto simp: life_of_def)
  have "\<not> of_submitted f \<Longrightarrow> \<not> ?w a" using futs f by (auto simp: futs_ok_def future_ok_def)
  then have "m' = life_of ?w (F(a := None)) h" using n(2) f by (auto simp: life_of_def fun_eq_iff)
  moreover have "futs_ok ?w b (F(a := None))"
  proof -
    have "waiter_ok b pg" if g: "F x = Some (g, pg)" "x \<noteq> a" for x g pg
    proof -
      have "pf_slot pg \<noteq> pf_slot pf" using own f g unfolding own_slots_def by metis
      moreover have "waiter_ok (dr_backpressure s) pg" using futs g by (auto simp: futs_ok_def future_ok_def)
      ultimately show ?thesis using others by (auto simp: waiter_ok_def fired_entries_def split: option.splits)
    qed
    then show ?thesis using futs by (auto simp: futs_ok_def future_ok_def)
  qed
  moreover have "own_slots (F(a := None))" using own unfolding own_slots_def by (auto split: if_splits)
  ultimately show ?thesis using k m'(2) b n(1) by (simp add: driver_ok_def reactor_inv_def)
qed

lemma drop_op_reactor:
  assumes k: "driver_ok T multi m0 cq owed F s" and f: "F a = Some (f, pf)"
  shows "\<exists>s'. driver_drop_op C U T f pf s = Some (Inr s') \<and> driver_ok T multi m0 cq owed (F(a := None)) s'"
proof -
  have fo: "future_ok (owed (dr_ring s)) (dr_backpressure s) a f pf" using k f by (auto simp: driver_ok_def reactor_inv_def futs_ok_def)
  show ?thesis
  proof (cases "of_submitted f")
    case True
    have "\<exists>q s1. (if of_submitted f \<and> \<not> of_completed f then driver_cancel C U (of_addr f) False s else Some (Inr (Inr (), s))) =
        Some (Inr (q, s1)) \<and> driver_ok T multi m0 cq owed F s1"
      using driver_cancel_reactor [OF k] k by auto
    then obtain q s1 where s1: "(if of_submitted f \<and> \<not> of_completed f then driver_cancel C U (of_addr f) False s else Some (Inr (Inr (), s))) =
        Some (Inr (q, s1))" "driver_ok T multi m0 cq owed F s1" by blast
    have i: "notify_inv (dr_backpressure s1)" and wo: "waiter_ok (dr_backpressure s1) pf" "\<not> pf_waiting pf"
      using s1(2) f True by (auto simp: driver_ok_def reactor_inv_def futs_ok_def future_ok_def)
    have "nt_entries (dr_backpressure s1) (pf_slot pf) = None" using wo by (auto simp: waiter_ok_def split: option.splits)
    then have "nt_entries (dr_backpressure s1) = (fired_entries [] (nt_entries (dr_backpressure s1)))(pf_slot pf := None)"
      by (simp add: fun_eq_iff)
    from dropped_reactor [OF s1(2) f i this]
    obtain c h where h: "op_drop T f (dr_ops s1) = Inr (c, h)"
      "driver_ok T multi m0 cq owed (F(a := None)) (s1\<lparr>dr_backpressure := dr_backpressure s1, dr_ops := h\<rparr>)" by auto
    have "drop_op_ref T (of_addr f) (dr_ops s1) = Inr h" using h(1) True by (auto simp: op_drop_def)
    then show ?thesis using True s1(1) h(2) by (simp add: driver_drop_op_def del: and_then_eq_Inr)
  next
    case False
    then obtain e where e: "pf_entry pf = Some (a, e)" and wo: "waiter_ok (dr_backpressure s) pf" and ad: "of_addr f = a"
      using fo by (auto simp: future_ok_def)
    have i: "notify_inv (dr_backpressure s)" using k by (simp add: driver_ok_def reactor_inv_def)
    obtain b xs where b: "(if pf_waiting pf then notified_drop C (pf_slot pf) (dr_backpressure s) else Some (Inr (dr_backpressure s))) = Some (Inr b)"
      "notify_inv b" "nt_entries b = (fired_entries xs (nt_entries (dr_backpressure s)))(pf_slot pf := None)"
    proof (cases "nt_entries (dr_backpressure s) (pf_slot pf)")
      case None
      then have "nt_entries (dr_backpressure s) = (fired_entries [] (nt_entries (dr_backpressure s)))(pf_slot pf := None)"
        by (simp add: fun_eq_iff)
      then show ?thesis using that [of "dr_backpressure s" "[]"] None wo i by (simp add: waiter_ok_def)
    next
      case (Some n)
      then show ?thesis using that notified_drop_entries [OF list i Some] wo by (auto simp: waiter_ok_def)
    qed
    obtain c h where h: "op_drop T f (dr_ops s) = Inr (c, h)"
      "driver_ok T multi m0 cq owed (F(a := None)) (s\<lparr>dr_backpressure := b, dr_ops := h\<rparr>)"
      using dropped_reactor [OF k f b(2,3)] by blast
    obtain h1 where h1: "drop_op_ref T a (dr_ops s) = Inr h1" "drop_op_ref T a h1 = Inr h"
      using h(1) False ad by (auto simp: op_drop_def)
    have "driver_drop_op C U T f pf s = Some (Inr (s\<lparr>dr_backpressure := b, dr_ops := h\<rparr>))"
      using False h1 b(1) e ad by (cases "pf_waiting pf") (simp_all add: driver_drop_op_def push_drop_def del: and_then_eq_Inr)
    then show ?thesis using h(2) by blast
  qed
qed

section \<open>Every command\<close>

lemma sys_exec_reactor:
  assumes k: "driver_ok T multi m0 cq owed (sy_futs y) (sy_driver y)" and al: "sys_allowed multi c y"
  shows "sys_exec C U T cfg c y = Some r \<Longrightarrow> \<exists>y'. r = Inr y' \<and> driver_ok T multi m0 cq owed (sy_futs y') (sy_driver y')"
    and "(\<And>mode. c \<noteq> Sys_Park mode) \<Longrightarrow> sys_exec C U T cfg c y \<noteq> None"
proof -
  have "(\<exists>mode. c = Sys_Park mode) \<or>
    (\<exists>y'. sys_exec C U T cfg c y = Some (Inr y') \<and> driver_ok T multi m0 cq owed (sy_futs y') (sy_driver y'))"
  proof (cases c)
    case (Sys_Submit a slot d)
    have all: "\<forall>b. case sy_futs y b of None \<Rightarrow> True | Some (f, pf) \<Rightarrow> pf_slot pf \<noteq> slot"
      using al unfolding Sys_Submit sys_allowed.simps by blast
    have "pf_slot pf \<noteq> slot" if "sy_futs y b = Some (f, pf)" for b f pf using spec [OF all, of b] that by simp
    note free = this
    have "1024 < a" "oh_ops (dr_ops (sy_driver y)) a = None" "nt_entries (dr_backpressure (sy_driver y)) slot = None"
      using al unfolding Sys_Submit sys_allowed.simps by blast+
    from submit_reactor [OF k this, where cfg = cfg and d = d] free
    obtain f pf s' where "handle_submit T cfg a slot d (sy_driver y) = Inr (f, pf, s')"
      "driver_ok T multi m0 cq owed ((sy_futs y)(a \<mapsto> (f, pf))) s'" by blast
    then show ?thesis using Sys_Submit by simp
  next
    case (Sys_Poll a w)
    then obtain f pf where f: "sy_futs y a = Some (f, pf)" "\<not> multi" "\<not> of_completed f" "may_poll f (sy_driver y)"
      using al by (auto split: option.splits)
    have "driver_ok T False m0 cq owed (sy_futs y) (sy_driver y)" using k f(2) by simp
    from poll_op_reactor [OF this f(1,4,3), of w] show ?thesis using Sys_Poll f(1,2) by auto
  next
    case (Sys_Next a w)
    then obtain f pf where f: "sy_futs y a = Some (f, pf)" "multi" "may_poll f (sy_driver y)" using al by (auto split: option.splits)
    have "driver_ok T True m0 cq owed (sy_futs y) (sy_driver y)" using k f(2) by simp
    from poll_next_reactor [OF this f(1,3), of w] show ?thesis using Sys_Next f(1,2) by auto
  next
    case (Sys_Drop a)
    then obtain f pf where f: "sy_futs y a = Some (f, pf)" using al by auto
    from drop_op_reactor [OF k f] show ?thesis using Sys_Drop f by auto
  next
    case (Sys_Close fd)
    then show ?thesis using driver_close_reactor [OF k, of fd] by auto
  qed simp
  moreover have "\<exists>y'. r = Inr y' \<and> driver_ok T multi m0 cq owed (sy_futs y') (sy_driver y')"
    if p: "c = Sys_Park mode" "sys_exec C U T cfg c y = Some r" for mode r
  proof -
    obtain q where q: "driver_park C U T mode (sy_driver y) = Some q" using p by (cases "driver_park C U T mode (sy_driver y)") auto
    from driver_park_reactor [OF q k] show ?thesis using p q by auto
  qed
  ultimately show "sys_exec C U T cfg c y = Some r \<Longrightarrow> \<exists>y'. r = Inr y' \<and> driver_ok T multi m0 cq owed (sy_futs y') (sy_driver y')"
    and "(\<And>mode. c \<noteq> Sys_Park mode) \<Longrightarrow> sys_exec C U T cfg c y \<noteq> None" by auto
qed

lemma driver_ok_new:
  assumes "cq k = []" and "\<And>a. 1024 < a \<Longrightarrow> \<not> owed k a"
  shows "driver_ok T multi life_new cq owed (\<lambda>_. None) (driver_new C k :: ('k, 'd) driver)"
proof -
  have "life_of (owed k) (\<lambda>_. None) (dr_ops (driver_new C k :: ('k, 'd) driver)) = life_new"
  proof -
    have "(\<lambda>a. if owed k a \<and> 1024 < a then In_Ring else Nowhere) = (\<lambda>_. Nowhere)" using assms(2) by (auto simp: fun_eq_iff)
    then show ?thesis by (simp add: life_of_def life_new_def driver_new_def)
  qed
  then show ?thesis using assms(1) notify_inv_new [OF list] life_inv_new life_steps.life_none [of T multi life_new]
    by (simp add: driver_ok_def reactor_inv_def life_via_def futs_ok_def own_slots_def driver_new_def)
qed

lemma sys_reach_ok:
  assumes "cq k = []" and "\<And>a. 1024 < a \<Longrightarrow> \<not> owed k a"
  shows "sys_reach C U T cfg multi k y \<Longrightarrow> driver_ok T multi life_new cq owed (sy_futs y) (sy_driver y)"
proof (induction rule: sys_reach.induct)
  case sys_init
  then show ?case using driver_ok_new [OF assms] by (simp add: sys_new_def)
next
  case (sys_step y c y')
  then show ?case using sys_exec_reactor(1) [OF sys_step.IH sys_step.hyps(2), of cfg "Inr y'"] by auto
qed

text \<open>
  Nothing the callers may do faults, and only a park can fail to return; what a command does to the operations is a run of
  the machine of their life.
\<close>

lemma reactor_step:
  assumes "cq k = []" and "\<And>a. 1024 < a \<Longrightarrow> \<not> owed k a" and "sys_reach C U T cfg multi k y" and "sys_allowed multi c y"
  shows "case sys_exec C U T cfg c y of None \<Rightarrow> (\<exists>mode. c = Sys_Park mode)
    | Some r \<Rightarrow> (\<exists>y'. r = Inr y' \<and> life_steps T multi (sys_life owed y) (sys_life owed y'))"
proof -
  have k: "driver_ok T multi life_new cq owed (sy_futs y) (sy_driver y)" by (rule sys_reach_ok [OF assms(1-3)])
  then have k: "driver_ok T multi (sys_life owed y) cq owed (sy_futs y) (sy_driver y)"
    by (simp add: driver_ok_def reactor_inv_def life_via_def sys_life_def life_steps.life_none)
  show ?thesis
  proof (cases "sys_exec C U T cfg c y")
    case None
    then show ?thesis using sys_exec_reactor(2) [OF k assms(4), of cfg] by auto
  next
    case (Some r)
    from sys_exec_reactor(1) [OF k assms(4) Some] show ?thesis
      using Some by (auto simp: driver_ok_def reactor_inv_def life_via_def sys_life_def)
  qed
qed

lemma reactor_reach_life:
  assumes "cq k = []" and "\<And>a. 1024 < a \<Longrightarrow> \<not> owed k a" and "sys_reach C U T cfg multi k y"
  shows "life_reach T multi (sys_life owed y)"
  using sys_reach_ok [OF assms] life_steps_reach [OF _ life_reach.life_init]
  unfolding driver_ok_def reactor_inv_def life_via_def sys_life_def by blast

end

section \<open>A kernel that answers what it was given\<close>

text \<open>
  The simulated ring with the set of the entries it owes an answer: a submission answers at once, with the result 0 and no
  flags, each entry that is owed one.
\<close>

record kern_ring =
  kr_sq :: "sqe list"
  kr_cq :: "cqe list"
  kr_owed :: "u64 \<Rightarrow> bool"

definition more_flag :: "u32 \<Rightarrow> bool" where
  "more_flag f = bit f 1"

fun kern_answer :: "sqe list \<Rightarrow> (u64 \<Rightarrow> bool) \<Rightarrow> cqe list" where
  "kern_answer [] w = []"
| "kern_answer (e # es) w = (if \<not> sq_skip_success e \<and> (sq_user_data e \<le> 1024 \<or> w (sq_user_data e))
     then \<lparr> cq_user_data = sq_user_data e, cq_result = 0, cq_flags = 0 \<rparr> # kern_answer es (w(sq_user_data e := False))
     else kern_answer es w)"

definition kern_submit :: "kern_ring \<Rightarrow> (i32 + usize) \<times> kern_ring" where
  "kern_submit k = (Inr (of_nat (length (kr_sq k))), k\<lparr>kr_sq := [],
     kr_cq := kr_cq k @ kern_answer (kr_sq k) (still_owed more_flag (kr_cq k) (kr_owed k))\<rparr>)"

definition kern_uring :: "nat \<Rightarrow> kern_ring uring" where
  "kern_uring n = \<lparr> ur_sq_full = (\<lambda>k. n \<le> length (kr_sq k)),
     ur_sq_push = (\<lambda>e k. if n \<le> length (kr_sq k) then None
       else Some (k\<lparr>kr_sq := kr_sq k @ [e], kr_owed := (kr_owed k)(sq_user_data e := True)\<rparr>)),
     ur_cq_full = (\<lambda>k. 2 * n \<le> length (kr_cq k)), ur_cq_len = (\<lambda>k. length (kr_cq k)),
     ur_cq_fill = (\<lambda>m k. (take m (kr_cq k), k\<lparr>kr_cq := drop m (kr_cq k), kr_owed := still_owed more_flag (take m (kr_cq k)) (kr_owed k)\<rparr>)),
     ur_submit = kern_submit, ur_submit_args = (\<lambda>_ _. kern_submit), ur_sync_cancel = (\<lambda>_ k. (Inr (), k)),
     ur_ebusy = 16, ur_eintr = 4 \<rparr>"

lemma kern_answer_answers: "answers more_flag (kern_answer es w) w"
  by (induction es w rule: kern_answer.induct) (auto simp: more_flag_def not_le simp del: fun_upd_apply)

lemma kern_submit_answers:
  "answers more_flag (kr_cq k) (kr_owed k) \<Longrightarrow> kr_owed (snd (kern_submit k)) = kr_owed k \<and>
    answers more_flag (kr_cq (snd (kern_submit k))) (kr_owed k)"
  by (simp add: kern_submit_def answers_append kern_answer_answers)

interpretation kern: io_kernel "kern_uring n" n kr_sq kr_cq more_flag kr_owed for n
  by unfold_locales (auto simp: kern_uring_def kern_submit_answers split: if_splits)

lemma io_kernel_kern: "io_kernel (kern_uring n) n kr_sq kr_cq more_flag kr_owed"
  by (rule kern.io_kernel_axioms)

end
