(* ===== verification/Reactor_Properties.thy ===== *)
theory Reactor_Properties
  imports Reactor
begin

text \<open>
  The properties of the driver with its callers and the kernel: it never faults, and it runs the machine of the life of
  the operations.
\<close>

lemma more_count: "cl_more count_class = more_flag"
  by (simp add: count_class_def more_flag_def fun_eq_iff)

interpretation kern_op: io_reactor "kern_uring n" n kr_sq kr_cq count_class kr_owed "seq_env True" for n
  by (intro io_reactor.intro io_reactor_axioms.intro) (simp_all add: more_count io_kernel_kern linked_list_seq_env)

text \<open>An operation on an empty ring, before and after its first poll.\<close>

definition kern_empty :: kern_ring where
  "kern_empty = \<lparr> kr_sq = [], kr_cq = [], kr_owed = (\<lambda>_. False) \<rparr>"

abbreviation kern_exec :: "nat sys_cmd \<Rightarrow> (kern_ring, nat) reactor_sys \<Rightarrow> (fault + (kern_ring, nat) reactor_sys) option" where
  "kern_exec \<equiv> sys_exec (seq_env True) (kern_uring 4) count_class (\<lambda>_. sqe_build Sqe_Nop)"

abbreviation kern_reach :: "(kern_ring, nat) reactor_sys \<Rightarrow> bool" where
  "kern_reach \<equiv> sys_reach (seq_env True) (kern_uring 4) count_class (\<lambda>_. sqe_build Sqe_Nop) False kern_empty"

definition kern_submitted :: "(kern_ring, nat) reactor_sys" where
  "kern_submitted = \<lparr> sy_driver = (driver_new (seq_env True) kern_empty)\<lparr>dr_ops :=
      \<lparr> oh_ops = [2000 \<mapsto> (raw_op_new 0)\<lparr>ro_refcount := 2\<rparr>], oh_woken = [], oh_dropped = [] \<rparr>\<rparr>,
     sy_futs = [2000 \<mapsto> (\<lparr> of_addr = 2000, of_submitted = False, of_completed = False \<rparr>,
       push_future_new 1 (2000, sqe_build Sqe_Nop))] \<rparr>"

lemma kern_submit: "kern_exec (Sys_Submit 2000 1 0) (sys_new (seq_env True) kern_empty) = Some (Inr kern_submitted)"
  by (simp add: kern_submitted_def sys_new_def driver_new_def handle_submit_def op_new_def clone_op_eq raw_allocate_def
      raw_op_new_def handle_push_def put_op_def op_at_def del: and_then_eq_Inr)

lemma kern_submitted_reach: "kern_reach kern_submitted"
proof -
  have "sys_allowed False (Sys_Submit 2000 1 0) (sys_new (seq_env True) kern_empty :: (kern_ring, nat) reactor_sys)"
    by (simp add: sys_new_def driver_new_def notifier_new_def)
  from sys_reach.sys_step [OF sys_reach.sys_init this kern_submit] show ?thesis .
qed

lemma kern_poll_allowed: "sys_allowed False (Sys_Poll 2000 7) kern_submitted"
  by (simp add: kern_submitted_def may_poll_def driver_new_def notifier_new_def)

text \<open>
  C2: whatever the callers do within their rules and the kernel answers within its own, the driver never faults: no
  reference count over- or underflows, no freed operation is completed or polled, no waiter or entry is lost; and
  every command but a park returns.
\<close>

theorem reactor_safe:
  assumes "io_kernel U capacity sq cq (cl_more T) owed" and "linked_list C" and "class_ok T"
    and "cq k = []" and "\<forall>a. \<not> owed k a" and "sys_reach C U T cfg multi k y" and "sys_allowed multi c y"
  shows "case sys_exec C U T cfg c y of None \<Rightarrow> (\<exists>mode. c = Sys_Park mode)
    | Some r \<Rightarrow> (\<exists>y'. r = Inr y' \<and> sys_reach C U T cfg multi k y')"
proof -
  have "io_reactor U capacity sq cq T owed C" using assms(1-3) by (simp add: io_reactor.intro io_reactor_axioms.intro)
  from io_reactor.reactor_step [OF this assms(4) _ assms(6,7)] assms(5) show ?thesis
    using sys_reach.sys_step [OF assms(6,7)] by (auto split: option.splits)
qed

theorem reactor_safe_witness:
  "\<exists>y. kern_exec (Sys_Submit 2000 1 0) (sys_new (seq_env True) kern_empty) = Some (Inr kern_submitted) \<and>
    kern_exec (Sys_Poll 2000 7) kern_submitted = Some (Inr y) \<and> kern_reach y"
proof -
  have "io_kernel (kern_uring 4) 4 kr_sq kr_cq (cl_more count_class) kr_owed" by (simp add: more_count io_kernel_kern)
  from reactor_safe [OF this linked_list_seq_env class_ok_count _ _ kern_submitted_reach kern_poll_allowed] kern_submit show ?thesis
    by (auto simp: kern_empty_def split: option.splits)
qed

text \<open>
  C25: the driver with its rings refines the machine of the life of the operations: every command of the callers, and all
  the completions it drains, is a run of allowed steps of that machine on the operations, their futures and the
  entries the kernel owes an answer.
\<close>

theorem reactor_refines:
  assumes "io_kernel U capacity sq cq (cl_more T) owed" and "linked_list C" and "class_ok T"
    and "cq k = []" and "\<forall>a. \<not> owed k a" and "sys_reach C U T cfg multi k y" and "sys_allowed multi c y"
    and "sys_exec C U T cfg c y = Some (Inr y')"
  shows "life_reach T multi (sys_life owed y) \<and> life_steps T multi (sys_life owed y) (sys_life owed y')"
proof -
  have r: "io_reactor U capacity sq cq T owed C" using assms(1-3) by (simp add: io_reactor.intro io_reactor_axioms.intro)
  then show ?thesis
    using io_reactor.reactor_step [OF r assms(4) _ assms(6,7)] io_reactor.reactor_reach_life [OF r assms(4) _ assms(6)] assms(5,8)
    by auto
qed

theorem reactor_refines_witness:
  "\<exists>y. kern_exec (Sys_Poll 2000 7) kern_submitted = Some (Inr y) \<and>
    life_steps count_class False (sys_life kr_owed kern_submitted) (sys_life kr_owed y)"
proof -
  have k: "io_kernel (kern_uring 4) 4 kr_sq kr_cq (cl_more count_class) kr_owed" by (simp add: more_count io_kernel_kern)
  have e: "kr_cq kern_empty = []" "\<And>a. \<not> kr_owed kern_empty a" by (simp_all add: kern_empty_def)
  obtain y where y: "kern_exec (Sys_Poll 2000 7) kern_submitted = Some (Inr y)"
    using kern_op.reactor_step [OF e(1) _ kern_submitted_reach kern_poll_allowed] e(2) by (auto split: option.splits)
  from reactor_refines [OF k linked_list_seq_env class_ok_count e(1) _ kern_submitted_reach kern_poll_allowed y] e(2) y show ?thesis
    by auto
qed

end
