(* ===== verification/Await_Requests.thy ===== *)
theory Await_Requests
  imports Fs_Requests Ready_Stream
begin

text \<open>
  The asynchronous functions of \<open>norn-uring/src/fs\<close> and \<open>norn-uring/src/net\<close>: each makes a request, submits it to the
  driver and awaits its operation. A function that returns its operation is an \<open>op_request\<close>; an \<open>async fn\<close> is an
  \<open>async_fn\<close>, the state machine the compiler makes of it: nothing happens before its first poll, which
  runs the code up to the submission and polls the operation; a poll after its end panics. The calls of the crate
  \<open>socket2\<close> are arguments.
\<close>

section \<open>Requests and the functions that await them\<close>

record ('d, 'o, 'i) op_request =
  oq_class :: "('d, 'o, 'i) op_class"
  oq_configure :: "'d \<Rightarrow> fault + sqe"
  oq_data :: 'd

definition op_start ::
  "('d, 'o, 'i) op_request \<Rightarrow> u64 \<Rightarrow> nat \<Rightarrow> ('k, 'd) driver \<Rightarrow> fault + (op_future \<times> push_future \<times> ('k, 'd) driver)"
where
  "op_start Q a slot s =
     and_then (oq_configure Q (oq_data Q)) (\<lambda>e. handle_submit (oq_class Q) (\<lambda>_. e) a slot (oq_data Q) s)"

text \<open>
  The code before the submission, which may return early with a value, and the code after the \<open>await\<close>.
\<close>

record ('d, 'o, 'i, 'v) async_fn =
  as_begin :: "fault + ('v + ('d, 'o, 'i) op_request)"
  as_finish :: "'o \<Rightarrow> fault + 'v"

datatype ('d, 'o, 'i) await = Await_Start | Await_Flight "('d, 'o, 'i) op_request" op_future push_future | Await_Over

text \<open>At the \<open>await\<close>: a ready operation is dropped at the end of the expression.\<close>

definition await_flight ::
  "env \<Rightarrow> 'k uring \<Rightarrow> ('o \<Rightarrow> fault + 'v) \<Rightarrow> nat \<Rightarrow> ('d, 'o, 'i) op_request \<Rightarrow> op_future \<Rightarrow> push_future \<Rightarrow> ('k, 'd) driver
   \<Rightarrow> (fault + ('v poll \<times> ('d, 'o, 'i) await \<times> ('k, 'd) driver)) option"
where
  "await_flight C U finish w Q f pf s =
     run_then (driver_poll_op C U (oq_class Q) w f pf s) (\<lambda>(r, f, pf, s). case r of
         Pending \<Rightarrow> Some (Inr (Pending, Await_Flight Q f pf, s))
       | Ready v \<Rightarrow>
           run_then (driver_drop_op C U (oq_class Q) f pf s) (\<lambda>s.
           run_then (Some (finish v)) (\<lambda>v. Some (Inr (Ready v, Await_Over, s)))))"

definition async_poll ::
  "env \<Rightarrow> 'k uring \<Rightarrow> ('d, 'o, 'i, 'v) async_fn \<Rightarrow> u64 \<Rightarrow> nat \<Rightarrow> nat \<Rightarrow> ('d, 'o, 'i) await \<Rightarrow> ('k, 'd) driver
   \<Rightarrow> (fault + ('v poll \<times> ('d, 'o, 'i) await \<times> ('k, 'd) driver)) option"
where
  "async_poll C U F a slot w p s = (case p of
     Await_Start \<Rightarrow>
       run_then (Some (as_begin F)) (\<lambda>b. case b of
           Inl v \<Rightarrow> Some (Inr (Ready v, Await_Over, s))
         | Inr Q \<Rightarrow> run_then (Some (op_start Q a slot s)) (\<lambda>(f, pf, s). await_flight C U (as_finish F) w Q f pf s))
   | Await_Flight Q f pf \<Rightarrow> await_flight C U (as_finish F) w Q f pf s
   | Await_Over \<Rightarrow> Some (Inl Panic))"

definition async_drop ::
  "env \<Rightarrow> 'k uring \<Rightarrow> ('d, 'o, 'i) await \<Rightarrow> ('k, 'd) driver \<Rightarrow> (fault + ('k, 'd) driver) option"
where
  "async_drop C U p s = (case p of Await_Flight Q f pf \<Rightarrow> driver_drop_op C U (oq_class Q) f pf s | _ \<Rightarrow> Some (Inr s))"

text \<open>
  The operations that are complete with their one completion and have nothing to clean up; \<open>mo\<close> is
  \<open>cqueue::more\<close>. A completion that panics is a fault of the result.
\<close>

definition plain_class :: "(u32 \<Rightarrow> bool) \<Rightarrow> bool \<Rightarrow> ('d \<Rightarrow> cqe_result \<Rightarrow> 'o) \<Rightarrow> ('d, 'o, unit) op_class" where
  "plain_class mo dbg complete = \<lparr> cl_cleanup = (\<lambda>d _. d), cl_complete = complete, cl_update = default_update,
     cl_item = (\<lambda>d _. Inr ((), d)), cl_more = mo, cl_debug = dbg \<rparr>"

definition plain_request ::
  "('d, 'o, 'i) op_class \<Rightarrow> ('d \<Rightarrow> fault + sqe) \<Rightarrow> 'd \<Rightarrow> ('d, 'o, 'i) op_request"
where
  "plain_request T configure d = \<lparr> oq_class = T, oq_configure = configure, oq_data = d \<rparr>"

definition await_request :: "('d, 'o, 'i) op_request \<Rightarrow> ('d, 'o, 'i, 'o) async_fn" where
  "await_request Q = \<lparr> as_begin = Inr (Inr Q), as_finish = Inr \<rparr>"

section \<open>Files\<close>

definition read_class :: "'b stable_buf_mut \<Rightarrow> (u32 \<Rightarrow> bool) \<Rightarrow> bool \<Rightarrow> ('b read_op, (io_error + usize) \<times> 'b, unit) op_class" where
  "read_class M mo dbg = plain_class mo dbg (read_complete M)"

definition write_class :: "(u32 \<Rightarrow> bool) \<Rightarrow> bool \<Rightarrow> ('b write_op, (io_error + usize) \<times> 'b, unit) op_class" where
  "write_class mo dbg = plain_class mo dbg write_complete"

definition sync_class :: "(u32 \<Rightarrow> bool) \<Rightarrow> bool \<Rightarrow> (sync_op, io_error + unit, unit) op_class" where
  "sync_class mo dbg = plain_class mo dbg (\<lambda>_. sync_complete)"

definition sync_range_class :: "(u32 \<Rightarrow> bool) \<Rightarrow> bool \<Rightarrow> (sync_range_op, io_error + unit, unit) op_class" where
  "sync_range_class mo dbg = plain_class mo dbg (\<lambda>_. sync_range_complete)"

definition fallocate_class :: "(u32 \<Rightarrow> bool) \<Rightarrow> bool \<Rightarrow> (fallocate_op, io_error + unit, unit) op_class" where
  "fallocate_class mo dbg = plain_class mo dbg (\<lambda>_. fallocate_complete)"

text \<open>
  Opening: \<open>Handle::current\<close> panics outside of a driver, \<open>c\<close> is the context of the thread. The file is its
  descriptor; the handle is the one of this driver.
\<close>

definition file_open_async ::
  "env \<Rightarrow> libc \<Rightarrow> (u32 \<Rightarrow> bool) \<Rightarrow> bool \<Rightarrow> 'h option \<Rightarrow> u8 list \<Rightarrow> open_options
   \<Rightarrow> (open_op late, io_error + norn_fd, unit, io_error + norn_fd) async_fn"
where
  "file_open_async C L mo dbg c p o' = \<lparr>
     as_begin = (case file_open L p o' of
         Inl e \<Rightarrow> Inr (Inl (Inl e))
       | Inr q \<Rightarrow> and_then (driver_handle_current c) (\<lambda>_.
           Inr (Inr (plain_request (open_class C mo dbg) (\<lambda>d. Inr (open_configure L (lt_op d))) (late_new q))))),
     as_finish = Inr \<rparr>"

definition file_read_at ::
  "'b stable_buf_mut \<Rightarrow> (u32 \<Rightarrow> bool) \<Rightarrow> bool \<Rightarrow> norn_fd \<Rightarrow> 'b \<Rightarrow> u64
   \<Rightarrow> ('b read_op, (io_error + usize) \<times> 'b, unit, (io_error + usize) \<times> 'b) async_fn"
where
  "file_read_at M mo dbg fd b off = await_request (plain_request (read_class M mo dbg) (\<lambda>q. Inr (read_configure M q))
     (read_op_new (nf_kind fd) b off))"

definition file_write_at ::
  "'b stable_buf \<Rightarrow> (u32 \<Rightarrow> bool) \<Rightarrow> bool \<Rightarrow> norn_fd \<Rightarrow> 'b \<Rightarrow> u64
   \<Rightarrow> ('b write_op, (io_error + usize) \<times> 'b, unit, (io_error + usize) \<times> 'b) async_fn"
where
  "file_write_at B mo dbg fd b off = await_request (plain_request (write_class mo dbg) (write_configure B)
     (write_op_new (nf_kind fd) b off))"

definition file_sync_async :: "(u32 \<Rightarrow> bool) \<Rightarrow> bool \<Rightarrow> norn_fd \<Rightarrow> (sync_op, io_error + unit, unit, io_error + unit) async_fn" where
  "file_sync_async mo dbg fd = await_request (plain_request (sync_class mo dbg) (\<lambda>q. Inr (sync_configure q)) (file_sync (nf_kind fd)))"

definition file_datasync_async :: "(u32 \<Rightarrow> bool) \<Rightarrow> bool \<Rightarrow> norn_fd \<Rightarrow> (sync_op, io_error + unit, unit, io_error + unit) async_fn" where
  "file_datasync_async mo dbg fd =
     await_request (plain_request (sync_class mo dbg) (\<lambda>q. Inr (sync_configure q)) (file_datasync (nf_kind fd)))"

definition file_sync_range ::
  "(u32 \<Rightarrow> bool) \<Rightarrow> bool \<Rightarrow> norn_fd \<Rightarrow> u64 \<Rightarrow> u32 \<Rightarrow> u32 \<Rightarrow> (sync_range_op, io_error + unit, unit, io_error + unit) async_fn"
where
  "file_sync_range mo dbg fd off n fl = await_request (plain_request (sync_range_class mo dbg)
     (\<lambda>q. Inr (sync_range_configure q)) (sync_range_new (nf_kind fd) off n fl))"

definition await_fallocate ::
  "(u32 \<Rightarrow> bool) \<Rightarrow> bool \<Rightarrow> fallocate_op \<Rightarrow> (fallocate_op, io_error + unit, unit, io_error + unit) async_fn"
where
  "await_fallocate mo dbg q = await_request (plain_request (fallocate_class mo dbg) (\<lambda>q. Inr (fallocate_configure q)) q)"

definition file_fallocate ::
  "(u32 \<Rightarrow> bool) \<Rightarrow> bool \<Rightarrow> norn_fd \<Rightarrow> u64 \<Rightarrow> u64 \<Rightarrow> i32 \<Rightarrow> (fallocate_op, io_error + unit, unit, io_error + unit) async_fn"
where
  "file_fallocate mo dbg fd off n md = await_fallocate mo dbg (fallocate_new (nf_kind fd) off n md)"

definition file_allocate_async ::
  "libc \<Rightarrow> (u32 \<Rightarrow> bool) \<Rightarrow> bool \<Rightarrow> norn_fd \<Rightarrow> u64 \<Rightarrow> u64 \<Rightarrow> (fallocate_op, io_error + unit, unit, io_error + unit) async_fn"
where
  "file_allocate_async L mo dbg fd off n = await_fallocate mo dbg (file_allocate L (nf_kind fd) off n)"

definition file_discard_async ::
  "libc \<Rightarrow> (u32 \<Rightarrow> bool) \<Rightarrow> bool \<Rightarrow> norn_fd \<Rightarrow> u64 \<Rightarrow> u64 \<Rightarrow> (fallocate_op, io_error + unit, unit, io_error + unit) async_fn"
where
  "file_discard_async L mo dbg fd off n = await_fallocate mo dbg (file_discard L (nf_kind fd) off n)"

section \<open>Directories and the request that does nothing\<close>

definition unlink_class :: "(u32 \<Rightarrow> bool) \<Rightarrow> bool \<Rightarrow> (unlink_op, io_error + unit, unit) op_class" where
  "unlink_class mo dbg = plain_class mo dbg (\<lambda>_. unlink_complete)"

definition mkdir_class :: "(u32 \<Rightarrow> bool) \<Rightarrow> bool \<Rightarrow> (mkdir_op, io_error + unit, unit) op_class" where
  "mkdir_class mo dbg = plain_class mo dbg (\<lambda>_. mkdir_complete)"

text \<open>A function that needs the driver first and then a path that can be passed.\<close>

definition path_async ::
  "'h option \<Rightarrow> io_error + ('d, io_error + unit, unit) op_request \<Rightarrow> ('d, io_error + unit, unit, io_error + unit) async_fn"
where
  "path_async c Q = \<lparr> as_begin = and_then (driver_handle_current c) (\<lambda>_. Inr (case Q of Inl e \<Rightarrow> Inl (Inl e) | Inr Q \<Rightarrow> Inr Q)),
     as_finish = Inr \<rparr>"

definition remove_file_async ::
  "libc \<Rightarrow> (u32 \<Rightarrow> bool) \<Rightarrow> bool \<Rightarrow> 'h option \<Rightarrow> u8 list \<Rightarrow> (unlink_op, io_error + unit, unit, io_error + unit) async_fn"
where
  "remove_file_async L mo dbg c p =
     path_async c (map_sum id (plain_request (unlink_class mo dbg) (\<lambda>q. Inr (unlink_configure L q))) (unlink_new L p))"

definition create_dir_async ::
  "libc \<Rightarrow> (u32 \<Rightarrow> bool) \<Rightarrow> bool \<Rightarrow> 'h option \<Rightarrow> u8 list \<Rightarrow> (mkdir_op, io_error + unit, unit, io_error + unit) async_fn"
where
  "create_dir_async L mo dbg c p =
     path_async c (map_sum id (plain_request (mkdir_class mo dbg) (\<lambda>q. Inr (mkdir_configure L q))) (mkdir_new L p 0x1FF))"

definition remove_dir_async ::
  "libc \<Rightarrow> (u32 \<Rightarrow> bool) \<Rightarrow> bool \<Rightarrow> 'h option \<Rightarrow> u8 list \<Rightarrow> (unlink_op, io_error + unit, unit, io_error + unit) async_fn"
where
  "remove_dir_async L mo dbg c p =
     path_async c (map_sum id (plain_request (unlink_class mo dbg) (\<lambda>q. Inr (unlink_configure L q))) (unlink_new L p))"

text \<open>\<open>noop\<close> unwraps the result.\<close>

definition noop_class :: "(u32 \<Rightarrow> bool) \<Rightarrow> bool \<Rightarrow> (unit, io_error + unit, unit) op_class" where
  "noop_class mo dbg = plain_class mo dbg (\<lambda>_. noop_complete)"

definition noop_async :: "(u32 \<Rightarrow> bool) \<Rightarrow> bool \<Rightarrow> 'h option \<Rightarrow> (unit, io_error + unit, unit, unit) async_fn" where
  "noop_async mo dbg c = \<lparr>
     as_begin = and_then (driver_handle_current c) (\<lambda>_. Inr (Inr (plain_request (noop_class mo dbg) (\<lambda>_. Inr noop_configure) ()))),
     as_finish = (\<lambda>r. case r of Inl _ \<Rightarrow> Inl Panic | Inr v \<Rightarrow> Inr v) \<rparr>"

end
