(* ===== verification/Await_Net.thy ===== *)
theory Await_Net
  imports Await_Requests
begin

text \<open>
  The asynchronous functions of the sockets: \<open>Socket\<close> of \<open>norn-uring/src/net/socket.rs\<close>, the listener and the socket
  of \<open>tcp.rs\<close> and the socket of \<open>udp.rs\<close>. A socket is its descriptor; its handle is the one of this driver, and making one
  needs a driver context. The request of each function keeps the descriptor by its kind.
\<close>

section \<open>The operations\<close>

definition open_socket_class :: "env \<Rightarrow> (u32 \<Rightarrow> bool) \<Rightarrow> bool \<Rightarrow> (open_socket_op late, io_error + norn_fd, unit) op_class" where
  "open_socket_class C mo dbg = \<lparr> cl_cleanup = late_cleanup (\<lambda>_. open_socket_cleanup C), cl_complete = (\<lambda>_. open_socket_complete C),
     cl_update = default_update, cl_item = (\<lambda>d _. Inr ((), d)), cl_more = mo, cl_debug = dbg \<rparr>"

definition send_to_class :: "(u32 \<Rightarrow> bool) \<Rightarrow> bool \<Rightarrow> ('b send_to_op, (io_error + usize) \<times> 'b, unit) op_class" where
  "send_to_class mo dbg = plain_class mo dbg send_to_complete"

definition recv_from_class ::
  "'a socket_addrs \<Rightarrow> 'b stable_buf_mut \<Rightarrow> (u32 \<Rightarrow> bool) \<Rightarrow> bool
   \<Rightarrow> ('b recv_from_op, fault + ((io_error + (usize \<times> 'a)) \<times> 'b), unit) op_class"
where
  "recv_from_class A M mo dbg = plain_class mo dbg (recv_from_complete A M)"

definition shutdown_class :: "(u32 \<Rightarrow> bool) \<Rightarrow> bool \<Rightarrow> (shutdown_op, io_error + unit, unit) op_class" where
  "shutdown_class mo dbg = plain_class mo dbg (\<lambda>_. shutdown_complete)"

definition recv_class :: "'b stable_buf_mut \<Rightarrow> (u32 \<Rightarrow> bool) \<Rightarrow> bool \<Rightarrow> ('b recv_op, (io_error + usize) \<times> 'b, unit) op_class" where
  "recv_class M mo dbg = plain_class mo dbg (recv_complete M)"

definition send_class :: "(u32 \<Rightarrow> bool) \<Rightarrow> bool \<Rightarrow> ('b send_op, (io_error + usize) \<times> 'b, unit) op_class" where
  "send_class mo dbg = plain_class mo dbg send_complete"

definition poll_sock_class :: "(u32 \<Rightarrow> bool) \<Rightarrow> bool \<Rightarrow> (poll_sock_op, io_error + event, unit) op_class" where
  "poll_sock_class mo dbg = plain_class mo dbg (\<lambda>_. poll_sock_complete)"

section \<open>Sockets\<close>

definition socket_from_fd :: "'h option \<Rightarrow> norn_fd \<Rightarrow> fault + norn_fd" where
  "socket_from_fd c fd = and_then (driver_handle_current c) (\<lambda>_. Inr fd)"

definition socket_open ::
  "env \<Rightarrow> libc \<Rightarrow> (u32 \<Rightarrow> bool) \<Rightarrow> bool \<Rightarrow> 'h option \<Rightarrow> i32 \<Rightarrow> i32 \<Rightarrow> i32 option
   \<Rightarrow> (open_socket_op late, io_error + norn_fd, unit, io_error + norn_fd) async_fn"
where
  "socket_open C L mo dbg c domain ty protocol = \<lparr>
     as_begin = and_then (driver_handle_current c) (\<lambda>_. Inr (Inr (plain_request (open_socket_class C mo dbg)
       (\<lambda>d. Inr (open_socket_configure L (lt_op d)))
       (late_new \<lparr> os_domain = domain, os_type = ty, os_protocol = protocol \<rparr>)))),
     as_finish = (\<lambda>r. case r of Inl e \<Rightarrow> Inr (Inl e) | Inr fd \<Rightarrow> and_then (socket_from_fd c fd) (\<lambda>s. Inr (Inr s))) \<rparr>"

definition socket_accept ::
  "env \<Rightarrow> libc \<Rightarrow> 'a socket_addrs \<Rightarrow> (u32 \<Rightarrow> bool) \<Rightarrow> bool \<Rightarrow> 'h option \<Rightarrow> norn_fd
   \<Rightarrow> (accept_op late, fault + (io_error + (norn_fd \<times> 'a)), unit, io_error + (norn_fd \<times> 'a)) async_fn"
where
  "socket_accept C L A mo dbg c s = \<lparr>
     as_begin = Inr (Inr (plain_request (accept_class C A mo dbg) (\<lambda>d. Inr (accept_configure L False (lt_op d)))
       (late_new (accept_new A (nf_kind s))))),
     as_finish = (\<lambda>r. and_then r (\<lambda>v. case v of
         Inl e \<Rightarrow> Inr (Inl e)
       | Inr (fd, a) \<Rightarrow> and_then (socket_from_fd c fd) (\<lambda>s. Inr (Inr (s, a))))) \<rparr>"

definition socket_accept_multi ::
  "env \<Rightarrow> libc \<Rightarrow> 'a socket_addrs \<Rightarrow> (u32 \<Rightarrow> bool) \<Rightarrow> bool \<Rightarrow> norn_fd \<Rightarrow> (accept_op late, unit, io_error + norn_fd) op_request"
where
  "socket_accept_multi C L A mo dbg s = plain_request (accept_multi_class C mo dbg)
     (\<lambda>d. Inr (accept_configure L True (lt_op d))) (late_new (accept_new A (nf_kind s)))"

definition socket_connect ::
  "env \<Rightarrow> 'a socket_addrs \<Rightarrow> (u32 \<Rightarrow> bool) \<Rightarrow> bool \<Rightarrow> norn_fd \<Rightarrow> 'a \<Rightarrow> (connect_op late, io_error + unit, unit, io_error + unit) async_fn"
where
  "socket_connect C A mo dbg s a = await_request (plain_request (connect_class C mo dbg)
     (\<lambda>d. Inr (connect_configure (lt_op d))) (late_new (connect_new A (nf_kind s) a)))"

definition socket_recv_from ::
  "'a socket_addrs \<Rightarrow> 'b stable_buf_mut \<Rightarrow> (u32 \<Rightarrow> bool) \<Rightarrow> bool \<Rightarrow> norn_fd \<Rightarrow> 'b
   \<Rightarrow> ('b recv_from_op, fault + ((io_error + (usize \<times> 'a)) \<times> 'b), unit, (io_error + (usize \<times> 'a)) \<times> 'b) async_fn"
where
  "socket_recv_from A M mo dbg s b = \<lparr>
     as_begin = Inr (Inr (plain_request (recv_from_class A M mo dbg) (\<lambda>q. Inr (recv_from_configure M q)) (recv_from_new A (nf_kind s) b))),
     as_finish = id \<rparr>"

definition socket_send_to ::
  "'a socket_addrs \<Rightarrow> 'b stable_buf \<Rightarrow> (u32 \<Rightarrow> bool) \<Rightarrow> bool \<Rightarrow> norn_fd \<Rightarrow> 'b \<Rightarrow> 'a
   \<Rightarrow> ('b send_to_op, (io_error + usize) \<times> 'b, unit, (io_error + usize) \<times> 'b) async_fn"
where
  "socket_send_to A B mo dbg s b a =
     await_request (plain_request (send_to_class mo dbg) (send_to_configure B) (send_to_new A (nf_kind s) b (Some a)))"

definition socket_recv ::
  "'b stable_buf_mut \<Rightarrow> (u32 \<Rightarrow> bool) \<Rightarrow> bool \<Rightarrow> norn_fd \<Rightarrow> 'b \<Rightarrow> ('b recv_op, (io_error + usize) \<times> 'b, unit) op_request"
where
  "socket_recv M mo dbg s b = plain_request (recv_class M mo dbg) (\<lambda>q. Inr (recv_configure M q)) (recv_new (nf_kind s) b)"

definition socket_send ::
  "'b stable_buf \<Rightarrow> (u32 \<Rightarrow> bool) \<Rightarrow> bool \<Rightarrow> norn_fd \<Rightarrow> 'b \<Rightarrow> ('b send_op, (io_error + usize) \<times> 'b, unit) op_request"
where
  "socket_send B mo dbg s b = plain_request (send_class mo dbg) (send_configure B) (send_new (nf_kind s) b)"

definition socket_shutdown_async ::
  "libc \<Rightarrow> (u32 \<Rightarrow> bool) \<Rightarrow> bool \<Rightarrow> norn_fd \<Rightarrow> shutdown_how \<Rightarrow> (shutdown_op, io_error + unit, unit, io_error + unit) async_fn"
where
  "socket_shutdown_async L mo dbg s how = await_request (plain_request (shutdown_class mo dbg)
     (\<lambda>q. Inr (shutdown_configure q)) (socket_shutdown L (nf_kind s) how))"

definition socket_poll_readiness ::
  "(u32 \<Rightarrow> bool) \<Rightarrow> bool \<Rightarrow> norn_fd \<Rightarrow> u32 \<Rightarrow> (poll_sock_op, unit, io_error + event) op_request"
where
  "socket_poll_readiness mo dbg s events = plain_request (poll_multi_class mo dbg)
     (\<lambda>q. Inr (poll_sock_configure True q)) (poll_sock_new (nf_kind s) events)"

definition socket_poll_readiness_once ::
  "(u32 \<Rightarrow> bool) \<Rightarrow> bool \<Rightarrow> norn_fd \<Rightarrow> u32 \<Rightarrow> (poll_sock_op, io_error + event, unit) op_request"
where
  "socket_poll_readiness_once mo dbg s events = plain_request (poll_sock_class mo dbg)
     (\<lambda>q. Inr (poll_sock_configure False q)) (poll_sock_new (nf_kind s) events)"

text \<open>The request of a receive into the ring \<open>g\<close>: the ring is shared with its other users, so it is no data of the operation.\<close>

definition socket_recv_from_ring :: "'a socket_addrs \<Rightarrow> buf_ring \<Rightarrow> norn_fd \<Rightarrow> recv_ring_op \<times> sqe" where
  "socket_recv_from_ring A g s = (let q = recv_ring_new A (nf_kind s) in (q, recv_ring_configure g q))"

section \<open>The calls of \<open>socket2\<close>\<close>

text \<open>What the system answers a socket with the given number: the error, or the result.\<close>

datatype sock_opt = So_Reuse_Address bool | So_Keepalive bool | So_Nodelay bool | So_Recv_Buffer usize | So_Send_Buffer usize

record sock_calls =
  sx_listen :: "i32 \<Rightarrow> i32 \<Rightarrow> i32 + unit"
  sx_local :: "i32 \<Rightarrow> i32 + sock_addr"
  sx_peer :: "i32 \<Rightarrow> i32 + sock_addr"
  sx_set :: "i32 \<Rightarrow> sock_opt \<Rightarrow> i32 + unit"

definition os_result :: "i32 + 'v \<Rightarrow> io_error + 'v" where
  "os_result r = map_sum Os_Error id r"

definition socket_listen :: "sock_calls \<Rightarrow> norn_fd \<Rightarrow> u32 \<Rightarrow> fault + (io_error + unit)" where
  "socket_listen X s backlog = and_then (as_socket s) (\<lambda>n. Inr (os_result (sx_listen X n backlog)))"

definition socket_local_addr :: "sock_calls \<Rightarrow> 'a socket_addrs \<Rightarrow> norn_fd \<Rightarrow> fault + (io_error + 'a)" where
  "socket_local_addr X A s = and_then (as_socket s) (\<lambda>n. case os_result (sx_local X n) of
     Inl e \<Rightarrow> Inr (Inl e) | Inr a \<Rightarrow> and_then (addr_of A a) (\<lambda>v. Inr (Inr v)))"

definition socket_peer_addr :: "sock_calls \<Rightarrow> 'a socket_addrs \<Rightarrow> norn_fd \<Rightarrow> fault + (io_error + 'a)" where
  "socket_peer_addr X A s = and_then (as_socket s) (\<lambda>n. case os_result (sx_peer X n) of
     Inl e \<Rightarrow> Inr (Inl e) | Inr a \<Rightarrow> and_then (addr_of A a) (\<lambda>v. Inr (Inr v)))"

definition set_option :: "sock_calls \<Rightarrow> norn_fd \<Rightarrow> sock_opt \<Rightarrow> fault + (io_error + unit)" where
  "set_option X s v = and_then (as_socket s) (\<lambda>n. Inr (os_result (sx_set X n v)))"

text \<open>\<open>close\<close> consumes the socket and awaits the \<open>close\<close> of its descriptor, whose future is at \<open>a\<close>.\<close>

definition socket_close ::
  "env \<Rightarrow> nat \<Rightarrow> nat \<Rightarrow> cqe_result option \<Rightarrow> close_phase \<Rightarrow> norn_fd \<Rightarrow> (fault + (close_phase \<times> norn_fd)) option"
where
  "socket_close C a w res p s = close_poll C a w res p s"

section \<open>Listeners, streams and datagrams\<close>

definition listener_set_reuse_address :: "sock_calls \<Rightarrow> norn_fd \<Rightarrow> bool \<Rightarrow> fault + (io_error + unit)" where
  "listener_set_reuse_address X s b = set_option X s (So_Reuse_Address b)"

definition listener_local_addr :: "sock_calls \<Rightarrow> 'a socket_addrs \<Rightarrow> norn_fd \<Rightarrow> fault + (io_error + 'a)" where
  "listener_local_addr = socket_local_addr"

text \<open>A \<open>TcpSocket\<close> is its socket.\<close>

definition listener_accept ::
  "env \<Rightarrow> libc \<Rightarrow> 'a socket_addrs \<Rightarrow> (u32 \<Rightarrow> bool) \<Rightarrow> bool \<Rightarrow> 'h option \<Rightarrow> norn_fd
   \<Rightarrow> (accept_op late, fault + (io_error + (norn_fd \<times> 'a)), unit, io_error + (norn_fd \<times> 'a)) async_fn"
where
  "listener_accept C L A mo dbg c s = socket_accept C L A mo dbg c s"

definition tcp_local_addr :: "sock_calls \<Rightarrow> 'a socket_addrs \<Rightarrow> norn_fd \<Rightarrow> fault + (io_error + 'a)" where
  "tcp_local_addr = socket_local_addr"

definition tcp_peer_addr :: "sock_calls \<Rightarrow> 'a socket_addrs \<Rightarrow> norn_fd \<Rightarrow> fault + (io_error + 'a)" where
  "tcp_peer_addr = socket_peer_addr"

definition tcp_shutdown ::
  "libc \<Rightarrow> (u32 \<Rightarrow> bool) \<Rightarrow> bool \<Rightarrow> norn_fd \<Rightarrow> shutdown_how \<Rightarrow> (shutdown_op, io_error + unit, unit, io_error + unit) async_fn"
where
  "tcp_shutdown = socket_shutdown_async"

definition tcp_recv ::
  "'b stable_buf_mut \<Rightarrow> (u32 \<Rightarrow> bool) \<Rightarrow> bool \<Rightarrow> norn_fd \<Rightarrow> 'b \<Rightarrow> ('b recv_op, (io_error + usize) \<times> 'b, unit) op_request"
where
  "tcp_recv = socket_recv"

definition tcp_send ::
  "'b stable_buf \<Rightarrow> (u32 \<Rightarrow> bool) \<Rightarrow> bool \<Rightarrow> norn_fd \<Rightarrow> 'b \<Rightarrow> ('b send_op, (io_error + usize) \<times> 'b, unit) op_request"
where
  "tcp_send = socket_send"

definition tcp_recv_ring :: "'a socket_addrs \<Rightarrow> buf_ring \<Rightarrow> norn_fd \<Rightarrow> recv_ring_op \<times> sqe" where
  "tcp_recv_ring = socket_recv_from_ring"

definition tcp_set_recv_buffer_size :: "sock_calls \<Rightarrow> norn_fd \<Rightarrow> usize \<Rightarrow> fault + (io_error + unit)" where
  "tcp_set_recv_buffer_size X s n = set_option X s (So_Recv_Buffer n)"

definition tcp_set_send_buffer_size :: "sock_calls \<Rightarrow> norn_fd \<Rightarrow> usize \<Rightarrow> fault + (io_error + unit)" where
  "tcp_set_send_buffer_size X s n = set_option X s (So_Send_Buffer n)"

definition tcp_set_reuse_address :: "sock_calls \<Rightarrow> norn_fd \<Rightarrow> bool \<Rightarrow> fault + (io_error + unit)" where
  "tcp_set_reuse_address X s b = set_option X s (So_Reuse_Address b)"

definition tcp_set_keepalive :: "sock_calls \<Rightarrow> norn_fd \<Rightarrow> bool \<Rightarrow> fault + (io_error + unit)" where
  "tcp_set_keepalive X s b = set_option X s (So_Keepalive b)"

definition tcp_set_nodelay :: "sock_calls \<Rightarrow> norn_fd \<Rightarrow> bool \<Rightarrow> fault + (io_error + unit)" where
  "tcp_set_nodelay X s b = set_option X s (So_Nodelay b)"

text \<open>\<open>UdpSocket::bind\<close> after its socket was opened, as for the listener.\<close>

definition udp_bind :: "env \<Rightarrow> cqe_result \<Rightarrow> i32 + unit \<Rightarrow> fault + ((io_error + norn_fd) \<times> fd_kind list)" where
  "udp_bind C r bound = socket_bind C r bound"

definition udp_local_addr :: "sock_calls \<Rightarrow> 'a socket_addrs \<Rightarrow> norn_fd \<Rightarrow> fault + (io_error + 'a)" where
  "udp_local_addr = socket_local_addr"

definition udp_peer_addr :: "sock_calls \<Rightarrow> 'a socket_addrs \<Rightarrow> norn_fd \<Rightarrow> fault + (io_error + 'a)" where
  "udp_peer_addr = socket_peer_addr"

definition udp_send_to ::
  "'a socket_addrs \<Rightarrow> 'b stable_buf \<Rightarrow> (u32 \<Rightarrow> bool) \<Rightarrow> bool \<Rightarrow> norn_fd \<Rightarrow> 'b \<Rightarrow> 'a
   \<Rightarrow> ('b send_to_op, (io_error + usize) \<times> 'b, unit, (io_error + usize) \<times> 'b) async_fn"
where
  "udp_send_to = socket_send_to"

definition udp_recv_from ::
  "'a socket_addrs \<Rightarrow> 'b stable_buf_mut \<Rightarrow> (u32 \<Rightarrow> bool) \<Rightarrow> bool \<Rightarrow> norn_fd \<Rightarrow> 'b
   \<Rightarrow> ('b recv_from_op, fault + ((io_error + (usize \<times> 'a)) \<times> 'b), unit, (io_error + (usize \<times> 'a)) \<times> 'b) async_fn"
where
  "udp_recv_from = socket_recv_from"

definition udp_recv_from_ring :: "'a socket_addrs \<Rightarrow> buf_ring \<Rightarrow> norn_fd \<Rightarrow> recv_ring_op \<times> sqe" where
  "udp_recv_from_ring = socket_recv_from_ring"

text \<open>Closing them, and a file, is closing the descriptor.\<close>

definition listener_close ::
  "env \<Rightarrow> nat \<Rightarrow> nat \<Rightarrow> cqe_result option \<Rightarrow> close_phase \<Rightarrow> norn_fd \<Rightarrow> (fault + (close_phase \<times> norn_fd)) option"
where
  "listener_close = socket_close"

definition tcp_close ::
  "env \<Rightarrow> nat \<Rightarrow> nat \<Rightarrow> cqe_result option \<Rightarrow> close_phase \<Rightarrow> norn_fd \<Rightarrow> (fault + (close_phase \<times> norn_fd)) option"
where
  "tcp_close = socket_close"

definition udp_close ::
  "env \<Rightarrow> nat \<Rightarrow> nat \<Rightarrow> cqe_result option \<Rightarrow> close_phase \<Rightarrow> norn_fd \<Rightarrow> (fault + (close_phase \<times> norn_fd)) option"
where
  "udp_close = socket_close"

definition file_close ::
  "env \<Rightarrow> nat \<Rightarrow> nat \<Rightarrow> cqe_result option \<Rightarrow> close_phase \<Rightarrow> norn_fd \<Rightarrow> (fault + (close_phase \<times> norn_fd)) option"
where
  "file_close C a w res p s = close_poll C a w res p s"

end
