(* ===== verification/Await_Properties.thy ===== *)
theory Await_Properties
  imports Await_Net Ring_Properties
begin

text \<open>
  What a function that awaits a request does from its first poll to its result.
\<close>

lemma op_start_eq:
  assumes "oq_configure Q (oq_data Q) = Inr e"
  shows "op_start Q a slot s = Inr (\<lparr> of_addr = a, of_submitted = False, of_completed = False \<rparr>, push_future_new slot (a, e),
    s\<lparr>dr_ops := put_op a ((raw_op_new (oq_data Q))\<lparr>ro_refcount := 2\<rparr>) (dr_ops s)\<rparr>)"
proof -
  have "op_at a (raw_allocate a (oq_data Q) (dr_ops s)) = Inr (raw_op_new (oq_data Q))" "ro_refcount (raw_op_new (oq_data Q)) \<in> {1, 2}"
    by (simp_all add: raw_allocate_def raw_op_new_def)
  from clone_op_eq [OF this, of "oq_class Q"] show ?thesis
    using assms by (simp add: op_start_def handle_submit_def op_new_def handle_push_def raw_allocate_def raw_op_new_def del: and_then_eq_Inr)
qed

text \<open>The first poll on a ring with room.\<close>

lemma await_first_poll:
  assumes ring: "io_ring U capacity sq cq" and run: "dr_status s = Status_Running"
    and room: "length (sq (dr_ring s)) < capacity" and b: "as_begin F = Inr (Inr Q)" and e: "oq_configure Q (oq_data Q) = Inr e"
  shows "\<exists>k. sq k = sq (dr_ring s) @ [e\<lparr>sq_user_data := a\<rparr>] \<and> async_poll C U F a slot w Await_Start s =
    Some (Inr (Pending, Await_Flight Q \<lparr> of_addr = a, of_submitted = True, of_completed = False \<rparr>
        ((push_future_new slot (a, e))\<lparr>pf_waiting := False, pf_entry := None\<rparr>),
      s\<lparr>dr_ring := k, dr_ops := put_op a ((raw_op_new (oq_data Q))\<lparr>ro_refcount := 2, ro_waker := Some w\<rparr>) (dr_ops s)\<rparr>))"
proof -
  let ?f = "\<lparr> of_addr = a, of_submitted = False, of_completed = False \<rparr>" and ?pf = "push_future_new slot (a, e)"
  let ?r = "(raw_op_new (oq_data Q))\<lparr>ro_refcount := 2\<rparr>"
  let ?s = "s\<lparr>dr_ops := put_op a ?r (dr_ops s)\<rparr>"
  have "dr_status ?s = Status_Running" "pf_entry ?pf = Some (a, e)" "\<not> pf_waiting ?pf" "length (sq (dr_ring ?s)) < capacity"
    using run room by (simp_all add: push_future_new_def)
  from io_ring.push_poll_room [OF ring this, of C w] obtain k where
    k: "push_poll C U w ?pf ?s = Some (Inr (Push_Done, ?pf\<lparr>pf_waiting := False, pf_entry := None\<rparr>, ?s\<lparr>dr_ring := k\<rparr>))"
      "sq k = sq (dr_ring ?s) @ [into_entry (a, e)]" by blast
  have "op_poll (oq_class Q) Push_Done w ?f (dr_ops ?s) =
      Inr (Pending, ?f\<lparr>of_submitted := True\<rparr>, put_op a (?r\<lparr>ro_waker := Some w\<rparr>) (dr_ops s))"
    by (simp add: op_poll_def op_stage_poll_def poll_submit_def try_complete_def register_waker_def raw_op_new_def del: and_then_eq_Inr)
  then show ?thesis using k b op_start_eq [OF e, of a slot s]
    by (intro exI [of _ k]) (simp add: async_poll_def await_flight_def driver_poll_op_def poll_push_def into_entry_def)
qed

text \<open>The completion, and the poll after it.\<close>

lemma await_completion:
  assumes "cq_user_data x = a" and "1024 < a" and "\<not> cl_more T (cq_flags x)" and res: "cqe_to_result (cl_debug T) x = Inr r"
    and s: "dr_ops s = put_op a ((raw_op_new d)\<lparr>ro_refcount := 2, ro_waker := Some w\<rparr>) h"
  shows "drain_entry C T x s = Some (Inr (s\<lparr>dr_ops := (put_op a \<lparr> ro_refcount = 1, ro_waker = None, ro_completions = [r],
    ro_complete = True, ro_data = Some d \<rparr> h)\<lparr>oh_woken := oh_woken h @ [w]\<rparr>\<rparr>))"
proof -
  let ?r = "(raw_op_new d)\<lparr>ro_refcount := 2, ro_waker := Some w\<rparr>"
  have r: "op_at (cq_user_data x) (dr_ops s) = Inr ?r" "1024 < cq_user_data x" "\<not> ro_complete ?r" "ro_refcount ?r \<in> {1, 2}" "ro_data ?r = Some d"
    using s assms(1,2) by (simp_all add: raw_op_new_def)
  have "\<not> cqe_more T r" using assms(3) res by (auto simp: cqe_more_def cqe_to_result_def split: if_splits)
  then have "complete_operation T x (dr_ops s) = Inr ((put_op a \<lparr> ro_refcount = 1, ro_waker = None, ro_completions = [r],
    ro_complete = True, ro_data = Some d \<rparr> h)\<lparr>oh_woken := oh_woken h @ [w]\<rparr>)"
    using complete_operation_eq [OF r(1-3) res r(4,5)] assms(1) s by (simp add: raw_op_new_def)
  then show ?thesis using assms(1,2)
    by (auto simp: drain_entry_def Let_def DRAIN_TOKEN_def UNPARKER_WAKE_TOKEN_def CANCELLATION_TOKEN_def CLOSE_FD_TOKEN_def)
qed

lemma await_last_poll:
  assumes T: "T = oq_class Q" and more: "\<not> cqe_more T r" and fin: "as_finish F (cl_complete T d r) = Inr v"
    and s: "dr_ops s = (put_op a \<lparr> ro_refcount = 1, ro_waker = None, ro_completions = [r], ro_complete = True, ro_data = Some d \<rparr> h)\<lparr>oh_woken := ws\<rparr>"
    and a: "oh_ops h a = None"
  shows "async_poll C U F b slot w (Await_Flight Q \<lparr> of_addr = a, of_submitted = True, of_completed = False \<rparr> pf) s =
    Some (Inr (Ready v, Await_Over, s\<lparr>dr_ops := h\<lparr>oh_woken := ws\<rparr>\<rparr>))"
proof -
  let ?f = "\<lparr> of_addr = a, of_submitted = True, of_completed = False \<rparr>"
  let ?r = "\<lparr> ro_refcount = 1, ro_waker = None, ro_completions = [r], ro_complete = True, ro_data = Some d \<rparr>"
  let ?r' = "?r\<lparr>ro_completions := [], ro_data := None\<rparr>"
  have at: "op_at (of_addr ?f) (dr_ops s) = Inr ?r" using s by (simp add: op_at_def put_op_def)
  have take: "take_completions T a (dr_ops s) = Inr ([r], put_op a (?r\<lparr>ro_completions := []\<rparr>) (dr_ops s))"
    using take_completions_eq [of a "dr_ops s" ?r T] at by simp
  have poll: "op_poll T Push_Done w ?f (dr_ops s) = Inr (Ready (cl_complete T d r), ?f\<lparr>of_completed := True\<rparr>, put_op a ?r' (dr_ops s))"
    using at take more
    by (simp add: op_poll_def op_stage_poll_def poll_submit_def try_complete_def try_take_def del: and_then_eq_Inr)
  have "op_at a (put_op a ?r' (dr_ops s)) = Inr ?r'" by simp
  from drop_op_last [OF this, of T] have "drop_op_ref T a (put_op a ?r' (dr_ops s)) = Inr (h\<lparr>oh_woken := ws\<rparr>)"
    using s a by (simp add: put_op_def fun_upd_idem)
  then show ?thesis using poll T fin
    by (simp add: async_poll_def await_flight_def driver_poll_op_def poll_push_def driver_drop_op_def)
qed


text \<open>Reading at offset 8 of the file 3 into a vector.\<close>

definition read_demo :: "(vec read_op, (io_error + usize) \<times> vec, unit, (io_error + usize) \<times> vec) async_fn" where
  "read_demo = file_read_at vec_buf_mut (\<lambda>f. bit f 1) True (fd_from_raw (seq_env True) 3) \<lparr> vc_ptr = 4096, vc_len = 0, vc_cap = 16 \<rparr> 8"


end
