(* ===== verification/Waking.thy ===== *)
theory Waking
  imports Executor_Properties "HOL-Library.Multiset"
begin

text \<open>
  The executor on a layer that calls wakers. A layer stores the wakers of the futures that wait for it and calls
  them while it parks or shuts down; here the calls reach the executor, so that a call to the waker of
  the root future sets the flag of its harness and a call to the waker of a task puts the task in the run
  queue. In the layers a waker is a number: 0 is the waker of the root future, \<open>t + 1\<close> that of the task \<open>t\<close>.
\<close>

section \<open>Layers that call wakers\<close>

text \<open>What was added to a log of the wakers a component called.\<close>

definition log_since :: "nat list \<Rightarrow> nat list \<Rightarrow> nat list" where
  "log_since xs ys = drop (length xs) ys"

lemma log_since_append [simp]: "log_since xs (xs @ ys) = ys"
  by (simp add: log_since_def)

text \<open>
  \<open>reg\<close> are the wakers the layer holds, \<open>calls\<close> those it called, by value, between two of its states. A layer calls
  and drops only wakers it holds, and in the modes \<open>modes\<close> a park that returns succeeds.
\<close>

locale waking_layer = park_layer L ok inside
  for L :: "'p park_ops" and ok :: "'p \<Rightarrow> bool" and inside :: "'p \<Rightarrow> bool" +
  fixes modes :: "park_mode \<Rightarrow> bool" and reg :: "'p \<Rightarrow> nat multiset" and calls :: "'p \<Rightarrow> 'p \<Rightarrow> nat list"
  assumes park_calls: "ok p \<Longrightarrow> modes m \<Longrightarrow> pk_park L m p = Some r \<Longrightarrow>
      \<exists>p'. r = Inr (Inr (), p') \<and> mset (calls p p') + reg p' \<subseteq># reg p"
    and enter_reg: "ok p \<Longrightarrow> pk_enter L p = Inr p' \<Longrightarrow> reg p' = reg p"
    and leave_reg: "ok p \<Longrightarrow> pk_leave L p = Inr p' \<Longrightarrow> reg p' = reg p"
    and shutdown_calls: "ok p \<Longrightarrow> pk_shutdown L p = Some (Inr p') \<Longrightarrow> mset (calls p p') + reg p' \<subseteq># reg p"

interpretation spin_wakes: waking_layer spin_ops "\<lambda>_. True" "\<lambda>p. p" "\<lambda>_. True" "\<lambda>_. {#}" "\<lambda>_ _. []"
  by unfold_locales (auto simp: spin_ops_def spin_park_def)

section \<open>The program on such a layer\<close>

record 'p running = executor +
  rn_layer :: 'p

text \<open>Calling a waker by value: that of the root future, or that of a task, which user code gave away.\<close>

definition call_waker :: "nat \<Rightarrow> nat \<Rightarrow> 'b executor_scheme \<Rightarrow> fault + 'b executor_scheme" where
  "call_waker th x w = (case x of
     0 \<Rightarrow> and_then (root_wake (ex_root w)) (\<lambda>c. Inr (w\<lparr>ex_root := c\<rparr>))
   | Suc t \<Rightarrow> and_then (waker_wake_val th t (ex_sys w)) (\<lambda>s.
       Inr (w\<lparr>ex_machine := (ex_machine w)\<lparr>mc_sys := s, mc_held := remove1 t (mc_held (ex_machine w))\<rparr>\<rparr>)))"

fun call_wakers :: "nat \<Rightarrow> nat list \<Rightarrow> 'b executor_scheme \<Rightarrow> fault + 'b executor_scheme" where
  "call_wakers th [] w = Inr w"
| "call_wakers th (x # xs) w = and_then (call_waker th x w) (call_wakers th xs)"

text \<open>The operations of the layer, lifted to the state of the program.\<close>

definition on_layer :: "('p \<Rightarrow> fault + 'p) \<Rightarrow> 'p running \<Rightarrow> fault + 'p running" where
  "on_layer f w = and_then (f (rn_layer w)) (\<lambda>p. Inr (w\<lparr>rn_layer := p\<rparr>))"

definition world_park ::
  "nat \<Rightarrow> 'p park_ops \<Rightarrow> ('p \<Rightarrow> 'p \<Rightarrow> nat list) \<Rightarrow> park_mode \<Rightarrow> 'p running
   \<Rightarrow> (fault + ((io_error + unit) \<times> 'p running)) option"
where
  "world_park th L calls m w =
     run_then (pk_park L m (rn_layer w)) (\<lambda>(r, p).
     run_then (Some (call_wakers th (calls (rn_layer w) p) (w\<lparr>rn_layer := p\<rparr>))) (\<lambda>w. Some (Inr (r, w))))"

definition world_shutdown ::
  "nat \<Rightarrow> 'p park_ops \<Rightarrow> ('p \<Rightarrow> 'p \<Rightarrow> nat list) \<Rightarrow> 'p running \<Rightarrow> (fault + 'p running) option"
where
  "world_shutdown th L calls w =
     run_then (pk_shutdown L (rn_layer w)) (\<lambda>p.
     Some (call_wakers th (calls (rn_layer w) p) (w\<lparr>rn_layer := p\<rparr>)))"

definition world_ops :: "nat \<Rightarrow> 'p park_ops \<Rightarrow> ('p \<Rightarrow> 'p \<Rightarrow> nat list) \<Rightarrow> 'p running park_ops" where
  "world_ops th L calls = \<lparr> pk_park = world_park th L calls, pk_enter = on_layer (pk_enter L),
     pk_leave = on_layer (pk_leave L), pk_needs_park = (\<lambda>w. pk_needs_park L (rn_layer w)),
     pk_shutdown = world_shutdown th L calls \<rparr>"

section \<open>A call of a waker keeps the task system roomy\<close>

text \<open>All but one task, whose count the call moves up and then down again.\<close>

definition roomy_but :: "nat \<Rightarrow> tsys \<Rightarrow> bool" where
  "roomy_but t s \<longleftrightarrow> roomy (s\<lparr>heap := (heap s)[t := None]\<rparr>)"

lemma roomy_but_put: "roomy_but t (put_task t k s) = roomy_but t s"
  by (simp add: roomy_but_def put_task_def roomy_def)

lemma roomy_but_weak: "roomy s \<Longrightarrow> roomy_but t s"
  unfolding roomy_but_def by (rule roomy_free)

lemma roomy_but_update: "roomy_but t s \<Longrightarrow> update_state t f s = Inr (r, s') \<Longrightarrow> roomy_but t s'"
  by (auto simp: update_state_def roomy_but_put)

lemma roomy_but_drop:
  assumes "roomy_but t s" and "update_state t drop_ref s = Inr (r, s')"
  shows "roomy s'"
proof -
  obtain k where k: "task_at t s = Inr k" using assms(2) by (auto simp: update_state_def)
  obtain q st where d: "drop_ref (tk_state k) = Inr (q, st)"
    using assms(2) k by (cases "drop_ref (tk_state k)") (auto simp: update_state_def state_update_def)
  then have "s' = put_task t (k\<lparr>tk_state := st\<rparr>) s" using assms(2) k by (simp add: update_state_def state_update_def)
  then have e: "s' = (put_task t (k\<lparr>tk_state := st\<rparr>) (s\<lparr>heap := (heap s)[t := None]\<rparr>))"
    by (simp add: put_task_def)
  have s0: "roomy (s\<lparr>heap := (heap s)[t := None]\<rparr>)" using assms(1) by (simp add: roomy_but_def)
  show ?thesis unfolding e by (rule roomy_put [OF s0]) (simp add: drop_ref_roomy [OF d])
qed

lemma release_roomy_but:
  assumes s: "roomy_but t s" and run: "release th t s = Inr s'"
  shows "roomy s'"
proof -
  obtain r s1 where r: "update_state t drop_ref s = Inr (r, s1)" using run by (subst (asm) release.simps) auto
  have s1: "roomy s1" by (rule roomy_but_drop [OF s r])
  show ?thesis
  proof (cases r)
    case Keep_Task
    then show ?thesis using run r s1 by (subst (asm) release.simps) simp
  next
    case Drop_Task
    obtain w s2 where d: "dealloc t s1 = Inr (w, s2)" using run r Drop_Task by (subst (asm) release.simps) auto
    have s2: "roomy s2" using d s1 by (auto simp: dealloc_def intro: roomy_free)
    show ?thesis
    proof (cases "\<exists>u. w = Some (Task_Waker u)")
      case True
      then obtain u where u: "w = Some (Task_Waker u)" by blast
      then have "release th u s2 = Inr s'" using run r d Drop_Task by (subst (asm) release.simps) auto
      then show ?thesis using release_roomy s2 by blast
    next
      case False
      then have "s' = s2" using run r d Drop_Task by (subst (asm) release.simps) (auto split: option.splits waker.splits)
      then show ?thesis using s2 by simp
    qed
  qed
qed

lemma waker_wake_val_roomy:
  assumes "roomy s" and run: "waker_wake_val th t s = Inr s'"
  shows "roomy s'"
proof -
  obtain r s1 where r: "update_state t notify s = Inr (r, s1)" using run by (auto simp: waker_wake_val_def)
  have s1: "roomy_but t s1" by (rule roomy_but_update [OF roomy_but_weak [OF assms(1)] r])
  obtain s2 where s2: "release th t s2 = Inr s'" "roomy_but t s2"
  proof (cases r)
    case Notify_Nothing
    then show ?thesis using that run r s1 by (auto simp: waker_wake_val_def waker_drop_def)
  next
    case Notify_Submit
    then obtain u s3 where s3: "update_state t clone_ref s1 = Inr (u, s3)" "release th t (schedule t s3) = Inr s'"
      using run r by (auto simp: waker_wake_val_def waker_drop_def clone_handle_def)
    have "roomy_but t s3" by (rule roomy_but_update [OF s1 s3(1)])
    then have "roomy_but t (schedule t s3)" by (simp add: roomy_but_def schedule_def roomy_def)
    then show ?thesis using that s3(2) by blast
  qed
  then show ?thesis using release_roomy_but by blast
qed

section \<open>The calls a layer makes succeed\<close>

text \<open>
  The wakers outside the futures: those of the tasks that user code has given away, and those of the root
  future but for the two references of its harness, while there is one.
\<close>

definition purse :: "nat \<Rightarrow> 'b executor_scheme \<Rightarrow> nat multiset" where
  "purse k w = image_mset Suc (mset (mc_held (ex_machine w))) + replicate_mset (rt_refs (ex_root w) - k) 0"

lemma purse_layer [simp]: "purse k (w\<lparr>rn_layer := p\<rparr>) = purse k w"
  by (simp add: purse_def)

text \<open>A waker that was called has done its work: the root future is notified, the task is notified or complete.\<close>

definition has_woken :: "nat \<Rightarrow> 'b executor_scheme \<Rightarrow> bool" where
  "has_woken x w \<longleftrightarrow> (case x of 0 \<Rightarrow> is_notified w
     | Suc t \<Rightarrow> \<forall>k. task_at t (ex_sys w) = Inr k \<longrightarrow> contains NOTIFIED (tk_state k) \<or> contains COMPLETE (tk_state k))"

lemma has_woken_kept:
  assumes "has_woken x w" and "woke (ex_sys w) (ex_sys w')" and "is_notified w \<longrightarrow> is_notified w'"
  shows "has_woken x w'"
proof (cases x)
  case (Suc t)
  have "contains NOTIFIED (tk_state k') \<or> contains COMPLETE (tk_state k')" if k': "task_at t (ex_sys w') = Inr k'" for k'
    using woke_tasks [OF assms(2) k'] assms(1) Suc by (auto simp: has_woken_def woke_task_def)
  then show ?thesis using Suc by (simp add: has_woken_def)
qed (use assms in \<open>simp add: has_woken_def\<close>)

text \<open>What a run of calls does, and what it leaves alone.\<close>

definition called :: "env \<Rightarrow> nat \<Rightarrow> nat \<Rightarrow> nat list \<Rightarrow> 'b executor_scheme \<Rightarrow> 'b executor_scheme \<Rightarrow> bool" where
  "called C th k xs w w' \<longleftrightarrow> user_step C th w w' \<and> k \<le> rt_refs (ex_root w') \<and> ex_ctx w' = ex_ctx w \<and>
     executor.more w' = executor.more w \<and> mset xs + purse k w' = purse k w \<and>
     woke (ex_sys w) (ex_sys w') \<and> (is_notified w \<longrightarrow> is_notified w') \<and> (\<forall>x \<in> set xs. has_woken x w')"

lemma user_step_trans: "user_step C th u v \<Longrightarrow> user_step C th v w \<Longrightarrow> user_step C th u w"
proof -
  have app: "exec_all C th cs m = Some m' \<Longrightarrow> exec_all C th (cs @ ds) m = exec_all C th ds m'" for cs ds m m'
    by (induction cs arbitrary: m) (auto split: if_splits option.splits sum.splits)
  assume "user_step C th u v" and "user_step C th v w"
  then show ?thesis unfolding user_step_def using app by metis
qed

lemma call_root:
  assumes w: "idle C th w" and rf: "k \<le> rt_refs (ex_root w)" and x: "0 \<in># purse k w"
  shows "\<exists>w'. call_waker th 0 w = Inr w' \<and> called C th k [0] w w'"
proof -
  have lt: "k < rt_refs (ex_root w)" using x rf by (auto simp: purse_def split: if_splits)
  let ?c = "(ex_root w)\<lparr>rt_notified := True, rt_refs := rt_refs (ex_root w) - 1\<rparr>"
  have c: "root_wake (ex_root w) = Inr ?c" using lt by (simp add: root_wake_def root_at_def root_drop_def)
  obtain n where n: "rt_refs (ex_root w) = Suc (k + n)" using less_imp_Suc_add [OF lt] by blast
  have "purse k w = add_mset 0 (purse k (w\<lparr>ex_root := ?c\<rparr>))" using n by (simp add: purse_def)
  moreover have "user_step C th w (w\<lparr>ex_root := ?c\<rparr>)"
    using w by (auto simp: user_step_def idle_def ex_sys_def intro: exI [of _ "[]"])
  ultimately show ?thesis using c n by (simp add: call_waker_def called_def has_woken_def is_notified_def ex_sys_def)
qed

lemma call_task:
  assumes C: "linked_list C" and w: "idle C th w" and rf: "k \<le> rt_refs (ex_root w)" and x: "Suc t \<in># purse k w"
  shows "\<exists>w'. call_waker th (Suc t) w = Inr w' \<and> called C th k [Suc t] w w'"
proof -
  let ?m = "ex_machine w"
  have t: "t \<in> set (mc_held ?m)" using x by (auto simp: purse_def split: if_splits)
  have re: "reachable C th ?m" and st: "stack (mc_sys ?m) = []" and rm: "roomy (mc_sys ?m)"
    using w by (simp_all add: idle_def ex_sys_def)
  obtain m' where m': "exec C th (Wake t) ?m = Some (Inr m')" using exec_wakers(3) [OF reachable_minv [OF C re] rm t] by blast
  then obtain s where s: "waker_wake_val th t (mc_sys ?m) = Inr s" "m' = ?m\<lparr>mc_sys := s, mc_held := remove1 t (mc_held ?m)\<rparr>"
    by auto
  obtain s' where s': "waker_wake_val th t (mc_sys ?m) = Inr s'" "woke (mc_sys ?m) s'"
    "\<forall>k'. task_at t s' = Inr k' \<longrightarrow> contains NOTIFIED (tk_state k') \<or> contains COMPLETE (tk_state k')"
    using waker_wake_val_ok [OF held_first [OF _ t] roomy_room [OF rm]] reachable_minv [OF C re] unfolding minv_def by blast
  have "stack s = []" using s' s(1) st by (simp add: woke_rest)
  moreover have "roomy s" by (rule waker_wake_val_roomy [OF rm s(1)])
  moreover have "exec_all C th [Wake t] ?m = Some m'" using m' t rm by (simp del: exec.simps)
  ultimately have us: "user_step C th w (w\<lparr>ex_machine := m'\<rparr>)"
    unfolding user_step_def by (intro conjI exI [of _ "[Wake t]"]) (simp_all add: ex_sys_def s(2) del: exec_all.simps)
  obtain A where "mset (mc_held ?m) = add_mset t A" using multi_member_split [of t "mset (mc_held ?m)"] t by auto
  then have "purse k w = add_mset (Suc t) (purse k (w\<lparr>ex_machine := m'\<rparr>))" by (simp add: purse_def s(2))
  then have "called C th k [Suc t] w (w\<lparr>ex_machine := m'\<rparr>)"
    using us rf s' s by (simp add: called_def has_woken_def is_notified_def ex_sys_def)
  then show ?thesis using s by (auto simp: call_waker_def ex_sys_def)
qed

lemma call_wakers_ok:
  assumes C: "linked_list C"
  shows "idle C th w \<Longrightarrow> k \<le> rt_refs (ex_root w) \<Longrightarrow> mset xs \<subseteq># purse k w \<Longrightarrow>
    \<exists>w'. call_wakers th xs w = Inr w' \<and> called C th k xs w w'"
proof (induction xs arbitrary: w)
  case Nil
  then show ?case by (auto simp: called_def user_step_def idle_def intro: exI [of _ "[]"])
next
  case (Cons x xs)
  have x: "x \<in># purse k w" using Cons.prems(3) by (simp add: insert_subset_eq_iff)
  obtain w1 where w1: "call_waker th x w = Inr w1" "called C th k [x] w w1"
    using call_root [OF Cons.prems(1,2)] call_task [OF C Cons.prems(1,2)] x by (cases x) auto
  have i: "idle C th w1" using w1(2) Cons.prems(1) user_step_idle by (auto simp: called_def idle_def)
  have "add_mset x (purse k w1) = purse k w" using w1(2) by (simp add: called_def)
  then have "mset xs \<subseteq># purse k w1" using Cons.prems(3) by (metis mset.simps(2) mset_subset_eq_add_mset_cancel)
  then obtain w2 where w2: "call_wakers th xs w1 = Inr w2" "called C th k xs w1 w2"
    using Cons.IH [OF i] w1(2) by (auto simp: called_def)
  have x1: "has_woken x w2" using w1(2) w2(2) by (intro has_woken_kept [of x w1 w2]) (simp_all add: called_def)
  have "called C th k (x # xs) w w2"
    using w1(2) w2(2) x1 user_step_trans woke_trans by (auto simp: called_def)
  then show ?case using w1(1) w2(1) by auto
qed

section \<open>The executor on a layer that calls wakers\<close>

text \<open>Inside \<open>block_on\<close>: every waker the layer holds is one that user code gave it and that is still alive.\<close>

definition paid :: "('p \<Rightarrow> bool) \<Rightarrow> ('p \<Rightarrow> bool) \<Rightarrow> ('p \<Rightarrow> nat multiset) \<Rightarrow> 'p running \<Rightarrow> bool" where
  "paid ok inside reg w \<longleftrightarrow> ok (rn_layer w) \<and> inside (rn_layer w) \<and> 2 \<le> rt_refs (ex_root w) \<and>
     ex_ctx w = Some () \<and> reg (rn_layer w) \<subseteq># purse 2 w"

lemma paid_stable: "frame_stable (paid ok inside reg)"
  by (simp add: frame_stable_def paid_def purse_def put_sys_def)

lemma purse_harness: "purse 2 (w\<lparr>ex_root := harness_new\<rparr>) = image_mset Suc (mset (mc_held (ex_machine w)))"
  by (simp add: purse_def harness_new_def)

text \<open>User code that keeps to the discipline and to this.\<close>

definition user_pays ::
  "env \<Rightarrow> nat \<Rightarrow> ('b executor_scheme \<Rightarrow> bool) \<Rightarrow> 'b executor_scheme user_code \<Rightarrow> bool"
where
  "user_pays C th J U \<longleftrightarrow>
     (\<forall>w r. reachable C th (ex_machine w) \<and> stack (ex_sys w) \<noteq> [] \<and> J w \<and> us_task U w = Some r \<longrightarrow>
        (\<exists>w'. r = Inr w' \<and> user_step C th w w' \<and> J w')) \<and>
     (\<forall>w r. idle C th w \<and> J w \<and> us_root U w = Some r \<longrightarrow> (\<exists>v w'. r = Inr (v, w') \<and> user_step C th w w' \<and> J w'))"

context waking_layer
begin

lemma world_park_calls:
  assumes C: "linked_list C" and w: "idle C th w" and j: "paid ok inside reg w" and m: "modes m"
    and run: "world_park th L calls m w = Some r"
  shows "\<exists>w'. r = Inr (Inr (), w') \<and> pk_park L m (rn_layer w) = Some (Inr (Inr (), rn_layer w')) \<and>
    called C th 2 (calls (rn_layer w) (rn_layer w')) (w\<lparr>rn_layer := rn_layer w'\<rparr>) w' \<and> paid ok inside reg w'"
proof -
  let ?p = "rn_layer w"
  have p: "ok ?p" "inside ?p" "2 \<le> rt_refs (ex_root w)" "reg ?p \<subseteq># purse 2 w" "ex_ctx w = Some ()" using j by (simp_all add: paid_def)
  obtain q where q: "pk_park L m ?p = Some q" using run by (cases "pk_park L m ?p") (auto simp: world_park_def)
  obtain p' where p': "q = Inr (Inr (), p')" "mset (calls ?p p') + reg p' \<subseteq># reg ?p" using park_calls [OF p(1) m q] by blast
  have ok': "ok p'" "inside p'" using park_keeps [OF p(1)] q p'(1) p(2) by auto
  let ?w = "w\<lparr>rn_layer := p'\<rparr>"
  have le: "mset (calls ?p p') + reg p' \<subseteq># purse 2 w" by (rule subset_mset.order_trans [OF p'(2) p(4)])
  then have "mset (calls ?p p') \<subseteq># purse 2 ?w" using subset_mset.order_trans [OF mset_subset_eq_add_left] by simp blast
  moreover have "idle C th ?w" using w by (simp add: idle_def ex_sys_def)
  ultimately obtain w' where w': "call_wakers th (calls ?p p') ?w = Inr w'" "called C th 2 (calls ?p p') ?w w'"
    using call_wakers_ok [OF C] p(3) by fastforce
  have l: "rn_layer w' = p'" using w'(2) by (cases w'; cases w) (simp add: called_def)
  have "r = Inr (Inr (), w')" using run q p'(1) w'(1) by (simp add: world_park_def)
  moreover have "mset (calls ?p p') + purse 2 w' = purse 2 w" using w'(2) by (simp add: called_def)
  then have "reg p' \<subseteq># purse 2 w'" using le by (metis subset_mset.add_le_cancel_left)
  then have "paid ok inside reg w'" using ok' w'(2) p(5) l by (simp add: paid_def called_def)
  ultimately show ?thesis using q p'(1) w'(2) l by auto
qed

lemma world_client:
  assumes "linked_list C" and "user_pays C th (paid ok inside reg) U" and "modes NoPark" and "modes NextCompletion"
  shows "client_keeps C th (paid ok inside reg) U (world_ops th L calls)"
proof -
  have "\<exists>w'. r = Inr (Inr (), w') \<and> user_step C th w w' \<and> paid ok inside reg w'"
    if "m \<in> {NoPark, NextCompletion} \<and> idle C th w \<and> paid ok inside reg w \<and> pk_park (world_ops th L calls) m w = Some r" for w m r
    using world_park_calls [OF assms(1), of th w m r] assms(3,4) that by (auto simp: world_ops_def called_def user_step_def)
  then show ?thesis using assms(2) unfolding client_keeps_def user_pays_def by blast
qed

text \<open>
  \<open>block_on\<close> on the layer: it never faults, and when it returns the layer is left, it is in a state it may be
  entered in again, and it still holds only wakers that are alive.
\<close>

lemma block_on_pays:
  assumes C: "linked_list C" and U: "user_pays C th (paid ok inside reg) U" and m: "modes NoPark" "modes NextCompletion"
    and w: "idle C th w" "ex_ctx w = None"
    and l: "ok (rn_layer w)" "\<not> inside (rn_layer w)"
    and reg0: "reg (rn_layer w) \<subseteq># image_mset Suc (mset (mc_held (ex_machine w)))"
    and run: "block_on C th U (world_ops th L calls) w = Some r"
  shows "\<exists>v w'. r = Inr (v, w') \<and> idle C th w' \<and> ok (rn_layer w') \<and> \<not> inside (rn_layer w') \<and>
    ex_ctx w' = None \<and> reg (rn_layer w') \<subseteq># purse 0 w'"
proof -
  let ?P = "world_ops th L calls"
  obtain p where p: "pk_enter L (rn_layer w) = Inr p" "ok p" "inside p" using enter_keeps [OF l] by blast
  have rg: "reg p = reg (rn_layer w)" by (rule enter_reg [OF l(1) p(1)])
  let ?w = "w\<lparr>rn_layer := p, ex_ctx := Some (), ex_root := harness_new\<rparr>"
  have "executor_enter ?P w = Inr (w\<lparr>rn_layer := p, ex_ctx := Some ()\<rparr>)"
    using p(1) w(2) by (simp add: executor_enter_def world_ops_def on_layer_def ctx_enter_def)
  then have run1: "run_then (block_loop C th U ?P ?w) (\<lambda>(v, w).
     run_then (Some (harness_drop (ex_root w))) (\<lambda>c.
     run_then (Some (executor_leave ?P (w\<lparr>ex_root := c\<rparr>))) (\<lambda>w. Some (Inr (v, w))))) = Some r"
    using run by (simp add: block_on_def)
  have i: "idle C th ?w" using w(1) by (simp add: idle_def ex_sys_def)
  have j: "paid ok inside reg ?w" using p rg reg0 by (simp add: paid_def purse_def harness_new_def)
  obtain q where q: "block_loop C th U ?P ?w = Some q" using run1 by (cases "block_loop C th U ?P ?w") auto
  obtain v w1 where w1: "q = Inr (v, w1)" "idle C th w1" "paid ok inside reg w1"
    using block_loop_idle [OF q C world_client [OF C U m] paid_stable i j] by blast
  have l1: "ok (rn_layer w1)" "inside (rn_layer w1)" "2 \<le> rt_refs (ex_root w1)" "ex_ctx w1 = Some ()"
    "reg (rn_layer w1) \<subseteq># purse 2 w1" using w1(3) by (simp_all add: paid_def)
  obtain p1 where p1: "pk_leave L (rn_layer w1) = Inr p1" "ok p1" "\<not> inside p1" using leave_keeps [OF l1(1,2)] by blast
  have rg1: "reg p1 = reg (rn_layer w1)" by (rule leave_reg [OF l1(1) p1(1)])
  let ?c = "(ex_root w1)\<lparr>rt_refs := rt_refs (ex_root w1) - 2\<rparr>"
  have "harness_drop (ex_root w1) = Inr ?c"
    using l1(3) by (simp add: harness_drop_def root_drop_def root_at_def)
  moreover have "executor_leave ?P (w1\<lparr>ex_root := ?c\<rparr>) = Inr (w1\<lparr>ex_root := ?c, rn_layer := p1, ex_ctx := None\<rparr>)"
    using p1(1) l1(4) by (simp add: executor_leave_def world_ops_def on_layer_def ctx_guard_drop_def)
  ultimately have "r = Inr (v, w1\<lparr>ex_root := ?c, rn_layer := p1, ex_ctx := None\<rparr>)" using run1 q w1(1) by simp
  moreover have "idle C th (w1\<lparr>ex_root := ?c, rn_layer := p1, ex_ctx := None\<rparr>)" using w1(2) by (simp add: idle_def ex_sys_def)
  moreover have "reg p1 \<subseteq># purse 0 (w1\<lparr>ex_root := ?c, rn_layer := p1, ex_ctx := None\<rparr>)"
    using l1(5) rg1 by (simp add: purse_def)
  ultimately show ?thesis using p1 by auto
qed

end

end
