(* ===== verification/Waking_Timer.thy ===== *)
theory Waking_Timer
  imports Waking Runtime
begin

text \<open>
  The timer as a layer that calls wakers: the wakers it holds are those of the registered entries and those of the
  layer below, and those it calls are the entries that fired since, in the order they fired. On any
  layer that calls only wakers it holds, the timer calls only wakers it holds.
\<close>

section \<open>The wakers of a wheel\<close>

definition wheel_wakers :: "wheels \<Rightarrow> nat multiset" where
  "wheel_wakers w = (\<Sum>i \<in> {i. timers (wh_sleeps w) i \<noteq> None}. mset (wakers_of (wh_sleeps w) i))"

lemma wakers_of_fire_set: "i \<notin> I \<Longrightarrow> wakers_of (fire_set c I m) i = wakers_of m i"
  by (simp add: wakers_of_def fire_set_def)

lemma mset_concat_sum: "distinct js \<Longrightarrow> mset (concat (map f js)) = (\<Sum>i \<in> set js. mset (f i))"
  by (induction js) auto

text \<open>Firing entries hands their wakers out, each one once.\<close>

lemma fired_wakers:
  assumes ok: "wheels_ok w" and ff: "fired_from c w js w'"
  shows "mset (log_since (wh_woken w) (wh_woken w')) + wheel_wakers w' = wheel_wakers w"
proof -
  let ?S = "{i. timers (wh_sleeps w) i \<noteq> None}" and ?f = "\<lambda>i. mset (wakers_of (wh_sleeps w) i)"
  have d: "distinct js" and sub: "set js \<subseteq> ?S" and sl: "wh_sleeps w' = fire_set c (set js) (wh_sleeps w)"
    and wk: "wh_woken w' = wh_woken w @ concat (map (wakers_of (wh_sleeps w)) js)"
    using ff by (auto simp: fired_from_def)
  have fin: "finite ?S" using finite_timers [of "{}" w] ok by (simp add: wheels_ok_def)
  have "{i. timers (wh_sleeps w') i \<noteq> None} = ?S - set js" by (auto simp: sl)
  then have "wheel_wakers w' = (\<Sum>i \<in> ?S - set js. ?f i)"
    unfolding wheel_wakers_def by (intro sum.cong) (auto simp: sl wakers_of_fire_set)
  moreover have "mset (log_since (wh_woken w) (wh_woken w')) = (\<Sum>i \<in> set js. ?f i)"
    by (simp add: wk mset_concat_sum [OF d])
  moreover have "(\<Sum>i \<in> set js. ?f i) + (\<Sum>i \<in> ?S - set js. ?f i) = (\<Sum>i \<in> ?S. ?f i)"
    using sum.subset_diff [OF sub fin, of ?f] by (simp add: add.commute)
  ultimately show ?thesis by (simp add: wheel_wakers_def)
qed

section \<open>The timer on a layer that calls wakers\<close>

definition timer_awake :: "nat \<Rightarrow> ('p \<Rightarrow> bool) \<Rightarrow> ('p \<Rightarrow> bool) \<Rightarrow> 'p timer_driver \<Rightarrow> bool" where
  "timer_awake sysnow ok inside d \<longleftrightarrow> timer_ok sysnow ok inside d \<and> (\<exists>t. clock_tick sysnow (td_clock d) = Inr t)"

definition timer_wakers :: "('p \<Rightarrow> nat multiset) \<Rightarrow> 'p timer_driver \<Rightarrow> nat multiset" where
  "timer_wakers reg d = wheel_wakers (td_wheels d) + reg (td_inner d)"

definition timer_calls :: "('p \<Rightarrow> 'p \<Rightarrow> nat list) \<Rightarrow> 'p timer_driver \<Rightarrow> 'p timer_driver \<Rightarrow> nat list" where
  "timer_calls calls d d' = log_since (wh_woken (td_wheels d)) (wh_woken (td_wheels d')) @ calls (td_inner d) (td_inner d')"

lemma timer_wakers_step:
  assumes "mset (log_since (wh_woken (td_wheels d)) (wh_woken w)) + wheel_wakers w = wheel_wakers (td_wheels d)"
    and "mset (calls (td_inner d) p) + reg p \<subseteq># reg (td_inner d)"
    and "d' = d\<lparr>td_wheels := w, td_inner := p\<rparr>"
  shows "mset (timer_calls calls d d') + timer_wakers reg d' \<subseteq># timer_wakers reg d"
proof -
  have "mset (timer_calls calls d d') + timer_wakers reg d' =
      wheel_wakers (td_wheels d) + (mset (calls (td_inner d) p) + reg p)"
    by (simp add: timer_calls_def timer_wakers_def assms(3) flip: assms(1))
  then show ?thesis using assms(2) by (simp add: timer_wakers_def)
qed

lemma timer_awake_park:
  assumes C: "linked_list C" and L: "waking_layer L ok inside (\<lambda>_. True) reg calls" and d: "timer_awake sysnow ok inside d"
    and run: "timer_park C L sysnow m d = Some r"
  shows "\<exists>d'. r = Inr (Inr (), d') \<and> mset (timer_calls calls d d') + timer_wakers reg d' \<subseteq># timer_wakers reg d"
proof -
  obtain t where t: "clock_tick sysnow (td_clock d) = Inr t" using d by (auto simp: timer_awake_def)
  have w: "wheels_ok (td_wheels d)" "wh_elapsed (td_wheels d) \<le> t" "room t" "ok (td_inner d)"
    using d t by (auto simp: timer_awake_def timer_ok_def timer_ready_def)
  obtain fired nxt w' js where adv: "advance C t (td_wheels d) = Some (Inr (fired, nxt, w'))" "fired_from (Inr ()) (td_wheels d) js w'"
    using advance_correct [OF C w(1-3)] by (auto simp: advance_result_def)
  let ?m = "timer_park_mode t fired nxt m"
  have eq: "timer_park C L sysnow m d =
      run_then (pk_park L ?m (td_inner d)) (\<lambda>(res, p). Some (Inr (res, d\<lparr>td_wheels := w', td_inner := p\<rparr>)))"
    using t adv(1) by (simp add: timer_park_def)
  then obtain q where q: "pk_park L ?m (td_inner d) = Some q" using run by (cases "pk_park L ?m (td_inner d)") auto
  obtain p where p: "q = Inr (Inr (), p)" "mset (calls (td_inner d) p) + reg p \<subseteq># reg (td_inner d)"
    using waking_layer.park_calls [OF L w(4) TrueI q] by blast
  have "r = Inr (Inr (), d\<lparr>td_wheels := w', td_inner := p\<rparr>)" using eq run q p(1) by simp
  then show ?thesis using timer_wakers_step [where calls = calls and reg = reg, OF fired_wakers [OF w(1) adv(2)] p(2) refl] by blast
qed

lemma timer_awake_shutdown:
  assumes C: "linked_list C" and L: "waking_layer L ok inside M reg calls" and d: "timer_awake sysnow ok inside d"
    and run: "timer_shutdown C L d = Some (Inr d')"
  shows "mset (timer_calls calls d d') + timer_wakers reg d' \<subseteq># timer_wakers reg d"
proof -
  have w: "wheels_ok (td_wheels d)" "room (wh_elapsed (td_wheels d))" "ok (td_inner d)"
    using d by (auto simp: timer_awake_def timer_ok_def timer_ready_def)
  obtain js w' where s: "wheels_shutdown C (td_wheels d) = Some (Inr w')" "fired_from (Inl Timer_Shutdown) (td_wheels d) js w'"
    using wheels_shutdown_spec [OF C w(2,1)] by blast
  obtain p where p: "pk_shutdown L (td_inner d) = Some (Inr p)" "d' = d\<lparr>td_wheels := w', td_inner := p\<rparr>"
    using run s(1) by (auto simp: timer_shutdown_def run_then_def split: option.splits sum.splits)
  have "mset (calls (td_inner d) p) + reg p \<subseteq># reg (td_inner d)"
    by (rule waking_layer.shutdown_calls [OF L w(3) p(1)])
  then show ?thesis by (rule timer_wakers_step [OF fired_wakers [OF w(1) s(2)] _ p(2)])
qed

lemma timer_clock:
  "timer_park C L sysnow m d = Some (Inr (x, d')) \<Longrightarrow> td_clock d' = td_clock d"
  "timer_enter L d = Inr d' \<Longrightarrow> td_clock d' = td_clock d"
  "timer_leave L d = Inr d' \<Longrightarrow> td_clock d' = td_clock d"
  "timer_shutdown C L d = Some (Inr d') \<Longrightarrow> td_clock d' = td_clock d"
  by (auto simp: timer_park_def timer_enter_def timer_leave_def timer_shutdown_def run_then_def
      split: option.splits sum.splits prod.splits)

lemma timer_edge_wakers:
  assumes "waking_layer L ok inside M reg calls" and "ok (td_inner d)"
  shows "timer_enter L d = Inr d' \<Longrightarrow> timer_wakers reg d' = timer_wakers reg d"
    and "timer_leave L d = Inr d' \<Longrightarrow> timer_wakers reg d' = timer_wakers reg d"
  using waking_layer.enter_reg [OF assms] waking_layer.leave_reg [OF assms]
  by (auto simp: timer_enter_def timer_leave_def timer_wakers_def)

lemma timer_keeps_waking:
  assumes C: "linked_list C" and L: "waking_layer L ok inside (\<lambda>_. True) reg calls"
  shows "waking_layer (timer_park_ops C L sysnow) (timer_awake sysnow ok inside) timer_inside (\<lambda>_. True) (timer_wakers reg) (timer_calls calls)"
proof -
  have P: "park_layer L ok inside" using L by (simp add: waking_layer_def)
  note T = timer_keeps_contract [OF C P, of sysnow]
  let ?L = "timer_park_ops C L sysnow"
  have sel: "pk_park ?L = timer_park C L sysnow" "pk_enter ?L = timer_enter L" "pk_leave ?L = timer_leave L"
    "pk_shutdown ?L = timer_shutdown C L" by (simp_all add: timer_park_ops_def)
  have aw: "timer_awake sysnow ok inside d' \<longleftrightarrow> timer_ok sysnow ok inside d'"
    if "timer_awake sysnow ok inside d" "td_clock d' = td_clock d" for d d'
    using that by (auto simp: timer_awake_def)
  have ok: "timer_ok sysnow ok inside d" "ok (td_inner d)" if "timer_awake sysnow ok inside d" for d
    using that by (simp_all add: timer_awake_def timer_ok_def)
  show ?thesis
  proof (intro waking_layer.intro park_layer.intro waking_layer_axioms.intro)
    fix d m x d'
    assume d: "timer_awake sysnow ok inside d" and run: "pk_park ?L m d = Some (Inr (x, d'))"
    from park_layer.park_keeps [OF T ok(1) [OF d] run] aw [OF d timer_clock(1) [OF run [unfolded sel]]]
    show "timer_awake sysnow ok inside d' \<and> timer_inside d' = timer_inside d" by simp
  next
    fix d assume d: "timer_awake sysnow ok inside d" and out: "\<not> timer_inside d"
    from park_layer.enter_keeps [OF T ok(1) [OF d] out]
    show "\<exists>d'. pk_enter ?L d = Inr d' \<and> timer_awake sysnow ok inside d' \<and> timer_inside d'"
      using aw [OF d] timer_clock(2) unfolding sel by blast
  next
    fix d assume d: "timer_awake sysnow ok inside d" and inn: "timer_inside d"
    from park_layer.leave_keeps [OF T ok(1) [OF d] inn]
    show "\<exists>d'. pk_leave ?L d = Inr d' \<and> timer_awake sysnow ok inside d' \<and> \<not> timer_inside d'"
      using aw [OF d] timer_clock(3) unfolding sel by blast
  next
    fix d d' assume d: "timer_awake sysnow ok inside d" and run: "pk_shutdown ?L d = Some (Inr d')"
    from park_layer.shutdown_keeps [OF T ok(1) [OF d] run] aw [OF d timer_clock(4) [OF run [unfolded sel]]]
    show "timer_awake sysnow ok inside d' \<and> timer_inside d' = timer_inside d" by simp
  next
    fix d m r assume "timer_awake sysnow ok inside d" and "pk_park ?L m d = Some r"
    then show "\<exists>d'. r = Inr (Inr (), d') \<and> mset (timer_calls calls d d') + timer_wakers reg d' \<subseteq># timer_wakers reg d"
      unfolding sel by (rule timer_awake_park [OF C L])
  next
    fix d d' assume "timer_awake sysnow ok inside d" and "pk_enter ?L d = Inr d'"
    then show "timer_wakers reg d' = timer_wakers reg d" unfolding sel using timer_edge_wakers(1) [OF L ok(2)] by blast
  next
    fix d d' assume "timer_awake sysnow ok inside d" and "pk_leave ?L d = Inr d'"
    then show "timer_wakers reg d' = timer_wakers reg d" unfolding sel using timer_edge_wakers(2) [OF L ok(2)] by blast
  next
    fix d d' assume "timer_awake sysnow ok inside d" and "pk_shutdown ?L d = Some (Inr d')"
    then show "mset (timer_calls calls d d') + timer_wakers reg d' \<subseteq># timer_wakers reg d"
      unfolding sel by (rule timer_awake_shutdown [OF C L])
  qed
qed

interpretation timer_on_spin: waking_layer "timer_park_ops (seq_env b) spin_ops sysnow"
  "timer_awake sysnow (\<lambda>_. True) (\<lambda>p. p)" timer_inside "\<lambda>_. True" "timer_wakers (\<lambda>_. {#})" "timer_calls (\<lambda>_ _. [])" for b sysnow
  by (rule timer_keeps_waking [OF linked_list_seq_env spin_wakes.waking_layer_axioms])

end
