(* ===== verification/Waking_Reactor.thy ===== *)
theory Waking_Reactor
  imports Waking_Timer Reactor_Properties
begin

text \<open>
  The reactor as a layer that calls wakers: the wakers it holds are those of the operations in flight and those of the
  futures that wait for a place in the submission queue. Over a kernel that answers only what it was given, and whose
  submissions fail only in the two ways \<open>Driver::park\<close> handles, it is a layer the executor can run on; so is the timer on
  top of it, if that also holds of the waits with a timeout.
\<close>

section \<open>The account of the wakers\<close>

definition waiter_wakers :: "notifier \<Rightarrow> nat multiset" where
  "waiter_wakers b = mset (map (waker_at (nt_entries b)) (nt_waiters b))"

definition driver_wakers :: "('k, 'd) driver \<Rightarrow> nat multiset" where
  "driver_wakers s = heap_wakers (oh_ops (dr_ops s)) + waiter_wakers (dr_backpressure s)"

definition driver_calls :: "('k, 'd) driver \<Rightarrow> ('k, 'd) driver \<Rightarrow> nat list" where
  "driver_calls s s' = log_since (oh_woken (dr_ops s)) (oh_woken (dr_ops s')) @
     log_since (nt_woken (dr_backpressure s)) (nt_woken (dr_backpressure s'))"

text \<open>From \<open>s0\<close> to \<open>s\<close> only wakers were called that were held, each one once.\<close>

definition driver_woke :: "('k, 'd) driver \<Rightarrow> ('k, 'd) driver \<Rightarrow> bool" where
  "driver_woke s0 s \<longleftrightarrow> notify_inv (dr_backpressure s) \<and> (\<exists>us vs.
     oh_woken (dr_ops s) = oh_woken (dr_ops s0) @ us \<and> nt_woken (dr_backpressure s) = nt_woken (dr_backpressure s0) @ vs \<and>
     mset us + mset vs + driver_wakers s \<subseteq># driver_wakers s0)"

lemma notify_n_wakers:
  assumes C: "linked_list C" and inv: "notify_inv b" and run: "notify_n C n b = Some (Inr (r, b'))"
  shows "\<exists>vs. nt_woken b' = nt_woken b @ vs \<and> mset vs + waiter_wakers b' = waiter_wakers b"
proof -
  let ?k = "min (unat n) (length (nt_waiters b))"
  have b': "nt_waiters b' = drop ?k (nt_waiters b)" "nt_entries b' = fired_entries (take ?k (nt_waiters b)) (nt_entries b)"
    "nt_woken b' = nt_woken b @ map (waker_at (nt_entries b)) (take ?k (nt_waiters b))"
    using notify_n_spec [OF C inv refl, of n] run by auto
  have "distinct (nt_waiters b)" using inv by (simp add: notify_inv_def)
  then have "a \<notin> set (take ?k (nt_waiters b))" if "a \<in> set (drop ?k (nt_waiters b))" for a
    using that by (metis append_take_drop_id disjoint_iff distinct_append)
  then have "map (waker_at (nt_entries b')) (nt_waiters b') = map (waker_at (nt_entries b)) (drop ?k (nt_waiters b))"
    by (simp add: b'(1,2) waker_at_fired)
  then have "mset (map (waker_at (nt_entries b)) (take ?k (nt_waiters b))) + waiter_wakers b' =
      mset (map (waker_at (nt_entries b)) (take ?k (nt_waiters b) @ drop ?k (nt_waiters b)))"
    by (simp only: waiter_wakers_def map_append mset_append)
  then show ?thesis using b'(3) by (simp add: waiter_wakers_def)
qed

interpretation woke: driver_client U "driver_woke s0" "\<lambda>_. True" for U s0
proof
  fix C n r b s
  assume C: "linked_list C" and k: "driver_woke s0 s" and run: "notify_n C n (dr_backpressure s) = Some (Inr (r, b))"
  have inv: "notify_inv (dr_backpressure s)" using k by (simp add: driver_woke_def)
  have inv': "notify_inv b" using notify_n_spec [OF C inv refl, of n] run by auto
  obtain ws where w: "nt_woken b = nt_woken (dr_backpressure s) @ ws" "mset ws + waiter_wakers b = waiter_wakers (dr_backpressure s)"
    using notify_n_wakers [OF C inv run] by blast
  obtain us vs where s: "oh_woken (dr_ops s) = oh_woken (dr_ops s0) @ us" "nt_woken (dr_backpressure s) = nt_woken (dr_backpressure s0) @ vs"
    "mset us + mset vs + driver_wakers s \<subseteq># driver_wakers s0" using k by (auto simp: driver_woke_def)
  have "mset us + mset (vs @ ws) + driver_wakers (s\<lparr>dr_backpressure := b\<rparr>) = mset us + mset vs + driver_wakers s"
    by (simp add: driver_wakers_def add.assoc add.left_commute flip: w(2))
  then have "mset us + mset (vs @ ws) + driver_wakers (s\<lparr>dr_backpressure := b\<rparr>) \<subseteq># driver_wakers s0" using s(3) by (simp only:)
  then show "driver_woke s0 (s\<lparr>dr_backpressure := b\<rparr>)"
    using s(1,2) w(1) inv' unfolding driver_woke_def by (intro conjI exI [of _ us] exI [of _ "vs @ ws"]) simp_all
next
  fix s h
  assume k: "driver_woke s0 s" and o: "ops_woke (dr_ops s) h"
  obtain ws where w: "oh_woken h = oh_woken (dr_ops s) @ ws" "mset ws + heap_wakers (oh_ops h) \<subseteq># heap_wakers (oh_ops (dr_ops s))"
    using o by (auto simp: ops_woke_def)
  obtain us vs where s: "oh_woken (dr_ops s) = oh_woken (dr_ops s0) @ us" "nt_woken (dr_backpressure s) = nt_woken (dr_backpressure s0) @ vs"
    "mset us + mset vs + driver_wakers s \<subseteq># driver_wakers s0" using k by (auto simp: driver_woke_def)
  have "mset (us @ ws) + mset vs + driver_wakers (s\<lparr>dr_ops := h\<rparr>) \<subseteq># mset us + mset vs + driver_wakers s"
    using w(2) by (simp add: driver_wakers_def add.assoc add.left_commute)
  from subset_mset.order_trans [OF this s(3)] show "driver_woke s0 (s\<lparr>dr_ops := h\<rparr>)"
    using s(1,2) w(1) k by (auto simp: driver_woke_def intro!: exI [of _ "us @ ws"] exI [of _ vs])
qed (simp_all add: driver_woke_def driver_wakers_def)

lemma driver_woke_refl: "notify_inv (dr_backpressure s) \<Longrightarrow> driver_woke s s"
  by (simp add: driver_woke_def)

lemma driver_woke_calls: "driver_woke s s' \<Longrightarrow> mset (driver_calls s s') + driver_wakers s' \<subseteq># driver_wakers s"
  by (auto simp: driver_woke_def driver_calls_def)

section \<open>A park that succeeds\<close>

text \<open>The submissions of the ring fail only as the driver expects, the blocking ones for the waits that \<open>A\<close> allows.\<close>

definition ring_retries :: "'k uring \<Rightarrow> ((nat \<times> nat) option \<Rightarrow> bool) \<Rightarrow> bool" where
  "ring_retries U A \<longleftrightarrow> (\<forall>k e. fst (ur_submit U k) = Inl e \<longrightarrow> e \<in> {ur_ebusy U, ur_eintr U}) \<and>
     (\<forall>k n t e. A t \<and> fst (ur_submit_args U n t k) = Inl e \<longrightarrow> e \<in> {ur_ebusy U, ur_eintr U})"

lemma shared_submit_retries:
  assumes "ring_retries U A" and "mode_allowed A mode" and "shared_submit C U mode s = Some (Inr (Inl x, s'))"
  shows "x = Os_Error (ur_ebusy U) \<or> x = Os_Error (ur_eintr U)"
proof -
  obtain q k where q: "(case mode of
      Timeout t \<Rightarrow> ur_submit_args U 1 (Some (t div 1000000000, t mod 1000000000)) (dr_ring s)
    | NextCompletion \<Rightarrow> ur_submit_args U 1 None (dr_ring s)
    | NoPark \<Rightarrow> ur_submit U (dr_ring s)) = (q, k)" by fastforce
  obtain e where e: "q = Inl e" "x = Os_Error e"
    using assms(3) q by (cases q) (auto simp: shared_submit_def run_then_def split: option.splits sum.splits)
  have "e \<in> {ur_ebusy U, ur_eintr U}"
    using assms(1,2) q e(1) unfolding ring_retries_def by (cases mode) (auto simp: mode_allowed_def wait_of_def, (metis fst_conv)+)
  then show ?thesis using e(2) by auto
qed

lemma driver_submit_retries:
  assumes "ring_retries U A" and "mode_allowed A mode" and "driver_submit C U mode s = Some (Inr (Inl x, s'))"
  shows "x = Os_Error (ur_ebusy U) \<or> x = Os_Error (ur_eintr U)"
proof -
  obtain m s1 where "shared_submit C U m s1 = Some (Inr (Inl x, s'))" "m = mode \<or> m = NoPark"
    using assms(3) by (auto simp: driver_submit_def split: prod.splits if_splits)
  moreover from this(2) have "mode_allowed A m" using assms(2) by (auto simp: mode_allowed_def)
  ultimately show ?thesis using shared_submit_retries [OF assms(1)] by blast
qed

lemma park_loop_succeeds:
  fixes s :: "('k, 'd) driver" and T :: "('d, 'o, 'i) op_class"
  assumes q: "ring_retries U A" and m: "mode_allowed A mode" and run: "park_loop C U T mode s = Some (Inr (x, s'))"
  shows "x = Inr ()"
proof -
  let ?Q = "\<lambda>(C' :: env) U' (T' :: ('d, 'o, 'i) op_class) mode (s :: ('k, 'd) driver) (r :: fault + (io_error + unit) \<times> ('k, 'd) driver).
    U' = U \<longrightarrow> mode_allowed A mode \<longrightarrow> (\<forall>x s'. r = Inr (x, s') \<longrightarrow> x = Inr ())"
  have "?Q C U T mode s (Inr (x, s'))"
  proof (rule park_loop.raw_induct [of ?Q C U T mode s "Inr (x, s')", OF _ run])
    fix loop C' U' T' mode s r
    assume IH: "\<And>C U T mode s r. loop C U T mode s = Some r \<Longrightarrow> ?Q C U T mode s r"
      and body: "run_then (driver_submit C' U' mode s) (\<lambda>(r, s). case r of
         Inr _ \<Rightarrow> Some (Inr (Inr (), s))
       | Inl x \<Rightarrow>
           if x = Os_Error (ur_ebusy U')
           then run_then (driver_drain C' U' T' s) (\<lambda>(_, s). loop C' U' T' NoPark s)
           else if x = Os_Error (ur_eintr U') then loop C' U' T' mode s
           else Some (Inr (Inl x, s))) = Some r"
    have "x = Inr ()" if e: "U' = U" "mode_allowed A mode" "r = Inr (x, s')" for x s'
    proof -
      obtain r1 s1 where s1: "driver_submit C' U mode s = Some (Inr (r1, s1))"
        using body e by (auto simp: run_then_def split: option.splits sum.splits)
      show ?thesis
      proof (cases r1)
        case (Inr u)
        then show ?thesis using body e s1 by simp
      next
        case (Inl y)
        show ?thesis
        proof (cases "y = Os_Error (ur_ebusy U)")
          case True
          then obtain n s2 where "driver_drain C' U T' s1 = Some (Inr (n, s2))"
            using body e s1 Inl by (auto simp: run_then_def split: option.splits sum.splits)
          then have "loop C' U T' NoPark s2 = Some r" using body e s1 Inl True by simp
          from IH [OF this] show ?thesis using e(3) by (simp add: mode_allowed_def)
        next
          case False
          then have "y = Os_Error (ur_eintr U)" using driver_submit_retries [OF q e(2) s1 [unfolded Inl]] by blast
          then have "loop C' U T' mode s1 = Some r" using body e s1 Inl False by simp
          from IH [OF this] show ?thesis using e by simp
        qed
      qed
    qed
    then show "?Q C' U' T' mode s r" by blast
  qed
  then show ?thesis using m by blast
qed

lemma driver_park_succeeds:
  assumes "ring_retries U A" and "mode_allowed A mode" and "driver_park C U T mode s = Some (Inr (x, s'))"
  shows "x = Inr ()"
proof -
  obtain n :: nat and s1 where "park_loop C U T (if 0 < n then NoPark else mode) s1 = Some (Inr (x, s'))"
    using assms(3) by (auto simp: driver_park_def run_then_def split: option.splits sum.splits)
  moreover have "mode_allowed A (if 0 < n then NoPark else mode)" using assms(2) by (simp add: mode_allowed_def)
  ultimately show ?thesis using park_loop_succeeds [OF assms(1)] by blast
qed

section \<open>The reactor on a kernel\<close>

definition reactor_live ::
  "('d, 'o, 'i) op_class \<Rightarrow> bool \<Rightarrow> ('k \<Rightarrow> cqe list) \<Rightarrow> ('k \<Rightarrow> u64 \<Rightarrow> bool) \<Rightarrow> ('k, 'd) reactor \<Rightarrow> bool"
where
  "reactor_live T multi cq owed p \<longleftrightarrow> (\<exists>m0 F. driver_ok T multi m0 cq owed F (re_driver p))"

definition reactor_wakers :: "('k, 'd) reactor \<Rightarrow> nat multiset" where
  "reactor_wakers p = driver_wakers (re_driver p)"

definition reactor_calls :: "('k, 'd) reactor \<Rightarrow> ('k, 'd) reactor \<Rightarrow> nat list" where
  "reactor_calls p p' = driver_calls (re_driver p) (re_driver p')"

context io_reactor
begin

lemma shutdown_running_reactor:
  assumes k: "driver_ok T multi m0 cq owed F s" and run: "shutdown_running C U s = Some (Inr s')"
  shows "driver_ok T multi m0 cq owed F s'"
proof -
  have w: "driver_ok T multi m0 cq owed F (driver_wake s)"
    using k by (simp add: driver_wake_def driver_ok_def reactor_inv_def split: prod.splits)
  obtain n s1 where s1: "shared_submit C U NoPark (driver_wake s) = Some (Inr (Inr n, s1))"
    using run by (auto simp: shutdown_running_def run_then_def split: option.splits sum.splits)
  have k1: "driver_ok T multi m0 cq owed F s1" using shared_submit_reactor [OF w, of NoPark] s1 by auto
  obtain q s2 where s2: "cancel_all U s1 = (q, s2)" by fastforce
  have an: "answers (cl_more T) (cq (dr_ring s1)) (owed (dr_ring s1))" using k1 by (simp add: driver_ok_def)
  have k2: "driver_ok T multi m0 cq owed F s2"
    using s2 k1 cancel_owed [OF an, of None] by (auto simp: cancel_all_def Let_def driver_ok_def reactor_inv_ring split: prod.splits)
  let ?e = "(sqe_build Sqe_Nop)\<lparr>sq_io_drain := True, sq_user_data := DRAIN_TOKEN\<rparr>"
  obtain b s3 where s3: "try_push_raw U ?e s2 = (b, s3)" by fastforce
  have k3: "driver_ok T multi m0 cq owed F s3" by (rule raw_token_ok [OF k2 s3]) (simp add: DRAIN_TOKEN_def)
  have "(if b then set_status C Status_Draining s3 else Some (Inr s3)) = Some (Inr s')"
    using run s1 s2 s3 by (auto simp: shutdown_running_def split: sum.splits)
  then show ?thesis using set_status_reactor [OF list, of T multi m0 "owed (dr_ring s3)" F s3 Status_Draining] k3
    by (auto simp: driver_ok_def split: if_splits)
qed

lemma driver_shutdown_reactor:
  assumes run: "driver_shutdown C U T s = Some (Inr s')" and k: "driver_ok T multi m0 cq owed F s"
  shows "driver_ok T multi m0 cq owed F s'"
proof -
  let ?Q = "\<lambda>(C' :: env) (U' :: 'k uring) (T' :: ('d, 'o, 'i) op_class) (s :: ('k, 'd) driver) (q :: fault + ('k, 'd) driver).
    C' = C \<longrightarrow> U' = U \<longrightarrow> T' = T \<longrightarrow> driver_ok T multi m0 cq owed F s \<longrightarrow> (\<forall>s'. q = Inr s' \<longrightarrow> driver_ok T multi m0 cq owed F s')"
  have "?Q C U T s (Inr s')"
  proof (rule driver_shutdown.raw_induct [of ?Q C U T s "Inr s'", OF _ run])
    fix loop :: "env \<Rightarrow> 'k uring \<Rightarrow> ('d, 'o, 'i) op_class \<Rightarrow> ('k, 'd) driver \<Rightarrow> (fault + ('k, 'd) driver) option" and C' U' T' s q
    assume IH: "\<And>C U T s q. loop C U T s = Some q \<Longrightarrow> ?Q C U T s q"
      and body: "(if dr_status s = Status_Shutdown then Some (Inr s)
      else
        run_then (if dr_status s = Status_Running then shutdown_running C' U' s else Some (Inr s)) (\<lambda>s.
        run_then (if dr_status s = Status_Draining
            then run_then (driver_park C' U' T' NextCompletion s) (\<lambda>(r, s). case r of
                   Inl _ \<Rightarrow> Some (Inl Panic) | Inr _ \<Rightarrow> Some (Inr s))
            else Some (Inr s)) (\<lambda>s.
        loop C' U' T' s))) = Some q"
    have "driver_ok T multi m0 cq owed F s'" if e: "C' = C" "U' = U" "T' = T" "driver_ok T multi m0 cq owed F s" "q = Inr s'" for s'
    proof (cases "dr_status s = Status_Shutdown")
      case True
      then show ?thesis using body e by simp
    next
      case False
      obtain s1 where s1: "(if dr_status s = Status_Running then shutdown_running C U s else Some (Inr s)) = Some (Inr s1)"
        using body e False by (auto simp: run_then_def split: option.splits sum.splits if_splits)
      then have k1: "driver_ok T multi m0 cq owed F s1" using shutdown_running_reactor [OF e(4)] e(4) by (auto split: if_splits)
      have body1: "run_then (if dr_status s1 = Status_Draining
            then run_then (driver_park C U T NextCompletion s1) (\<lambda>(r, s). case r of
                   Inl _ \<Rightarrow> Some (Inl Panic) | Inr _ \<Rightarrow> Some (Inr s))
            else Some (Inr s1)) (loop C U T) = Some q"
        using body [unfolded e(1-3)] by (simp only: False if_False s1 run_then_simps)
      obtain s2 where s2: "driver_ok T multi m0 cq owed F s2" "loop C U T s2 = Some q"
      proof (cases "dr_status s1 = Status_Draining")
        case True
        then obtain u s2 where "driver_park C U T NextCompletion s1 = Some (Inr (Inr u, s2))" "loop C U T s2 = Some q"
          using body1 e(5) by (auto simp: run_then_def split: option.splits sum.splits)
        note s2 = this
        have "driver_ok T multi m0 cq owed F s2" using driver_park_reactor [OF s2(1) k1] by auto
        then show ?thesis using that s2(2) by blast
      next
        case False
        then show ?thesis using that body1 k1 by simp
      qed
      from IH [OF s2(2)] show ?thesis using s2(1) e(5) by simp
    qed
    then show "?Q C' U' T' s q" by blast
  qed
  then show ?thesis using k by blast
qed

lemma live_inv: "reactor_live T multi cq owed p \<Longrightarrow> notify_inv (dr_backpressure (re_driver p))"
  by (auto simp: reactor_live_def driver_ok_def reactor_inv_def)

lemma live_driver: "driver_ok T multi m0 cq owed F s \<Longrightarrow> reactor_live T multi cq owed (p\<lparr>re_driver := s\<rparr>)"
  unfolding reactor_live_def by (rule exI, rule exI) simp

lemma reactor_live_park:
  assumes q: "ring_retries U A" and m: "mode_allowed A m" and p: "reactor_live T multi cq owed p"
    and run: "reactor_park C U T m p = Some r"
  shows "\<exists>p'. r = Inr (Inr (), p') \<and> reactor_live T multi cq owed p' \<and>
    mset (reactor_calls p p') + reactor_wakers p' \<subseteq># reactor_wakers p"
proof -
  obtain m0 F where k: "driver_ok T multi m0 cq owed F (re_driver p)" using p by (auto simp: reactor_live_def)
  obtain q' where q': "driver_park C U T m (re_driver p) = Some q'"
    using run by (cases "driver_park C U T m (re_driver p)") (auto simp: reactor_park_def)
  obtain x s where s: "q' = Inr (x, s)" "driver_ok T multi m0 cq owed F s" using driver_park_reactor [OF q' k] by blast
  have x: "x = Inr ()" using driver_park_succeeds [OF q m] q' s(1) by blast
  have "mode_allowed (\<lambda>_. True) m" by (cases m) (simp_all add: mode_allowed_def)
  then have "driver_woke (re_driver p) s"
    using woke.driver_park_keeps [OF list driver_woke_refl [OF live_inv [OF p]]] q' s(1) by blast
  from driver_woke_calls [OF this] show ?thesis
    using run q' s(1) x live_driver [OF s(2)] by (auto simp: reactor_park_def reactor_calls_def reactor_wakers_def)
qed

lemma reactor_live_shutdown:
  assumes p: "reactor_live T multi cq owed p" and run: "reactor_shutdown C U T p = Some (Inr p')"
  shows "reactor_live T multi cq owed p' \<and> mset (reactor_calls p p') + reactor_wakers p' \<subseteq># reactor_wakers p"
proof -
  obtain m0 F where k: "driver_ok T multi m0 cq owed F (re_driver p)" using p by (auto simp: reactor_live_def)
  obtain s where s: "driver_shutdown C U T (re_driver p) = Some (Inr s)" "p' = p\<lparr>re_driver := s\<rparr>"
    using run by (auto simp: reactor_shutdown_def run_then_def split: option.splits sum.splits)
  have "driver_woke (re_driver p) s"
    using woke.driver_shutdown_keeps [OF list driver_woke_refl [OF live_inv [OF p]]] s(1) by blast
  from driver_woke_calls [OF this] show ?thesis
    using live_driver [OF driver_shutdown_reactor [OF s(1) k]] s(2) by (simp add: reactor_calls_def reactor_wakers_def)
qed

lemma reactor_keeps_waking:
  assumes q: "ring_retries U A"
  shows "waking_layer (reactor_ops C U T) (reactor_live T multi cq owed) reactor_inside (mode_allowed A) reactor_wakers reactor_calls"
proof -
  let ?L = "reactor_ops C U T"
  have sel: "pk_park ?L = reactor_park C U T" "pk_enter ?L = reactor_enter" "pk_leave ?L = reactor_leave"
    "pk_shutdown ?L = reactor_shutdown C U T" by (simp_all add: reactor_ops_def)
  have edge: "reactor_live T multi cq owed (p\<lparr>re_context := c\<rparr>) = reactor_live T multi cq owed p"
    "reactor_wakers (p\<lparr>re_context := c\<rparr>) = reactor_wakers p" for p :: "('k, 'd) reactor" and c
    by (simp_all add: reactor_live_def reactor_wakers_def)
  show ?thesis
  proof (intro waking_layer.intro park_layer.intro waking_layer_axioms.intro)
    fix p m x p'
    assume p: "reactor_live T multi cq owed p" and run: "pk_park ?L m p = Some (Inr (x, p'))"
    then obtain s where s: "driver_park C U T m (re_driver p) = Some (Inr (x, s))" "p' = p\<lparr>re_driver := s\<rparr>"
      by (auto simp: sel reactor_park_def run_then_def split: option.splits sum.splits)
    obtain m0 F where "driver_ok T multi m0 cq owed F (re_driver p)" using p by (auto simp: reactor_live_def)
    then obtain F' where "driver_ok T multi m0 cq owed F' s" using driver_park_reactor [OF s(1)] by auto
    then show "reactor_live T multi cq owed p' \<and> reactor_inside p' = reactor_inside p"
      using live_driver s(2) by (simp add: reactor_inside_def)
  next
    fix p assume p: "reactor_live T multi cq owed p" and out: "\<not> reactor_inside p"
    then have "re_context p = None" by (cases "re_context p") (simp_all add: reactor_inside_def)
    then show "\<exists>p'. pk_enter ?L p = Inr p' \<and> reactor_live T multi cq owed p' \<and> reactor_inside p'"
      using p edge(1) by (simp add: sel reactor_enter_def driver_ctx_enter_def reactor_inside_def)
  next
    fix p assume "reactor_live T multi cq owed p" and "reactor_inside p"
    then show "\<exists>p'. pk_leave ?L p = Inr p' \<and> reactor_live T multi cq owed p' \<and> \<not> reactor_inside p'"
      using edge(1) by (simp add: sel reactor_leave_def driver_ctx_leave_def reactor_inside_def)
  next
    fix p p' assume p: "reactor_live T multi cq owed p" and run: "pk_shutdown ?L p = Some (Inr p')"
    then have "reactor_inside p' = reactor_inside p"
      by (auto simp: sel reactor_shutdown_def reactor_inside_def run_then_def split: option.splits sum.splits)
    then show "reactor_live T multi cq owed p' \<and> reactor_inside p' = reactor_inside p"
      using reactor_live_shutdown [OF p] run by (simp add: sel)
  next
    fix p m r assume "reactor_live T multi cq owed p" and "mode_allowed A m" and "pk_park ?L m p = Some r"
    then show "\<exists>p'. r = Inr (Inr (), p') \<and> mset (reactor_calls p p') + reactor_wakers p' \<subseteq># reactor_wakers p"
      using reactor_live_park [OF q] unfolding sel by blast
  next
    fix p p' assume "pk_enter ?L p = Inr p'"
    then show "reactor_wakers p' = reactor_wakers p" using edge(2) by (auto simp: sel reactor_enter_def)
  next
    fix p p' assume "pk_leave ?L p = Inr p'"
    then show "reactor_wakers p' = reactor_wakers p" using edge(2) by (auto simp: sel reactor_leave_def)
  next
    fix p p' assume "reactor_live T multi cq owed p" and "pk_shutdown ?L p = Some (Inr p')"
    then show "mset (reactor_calls p p') + reactor_wakers p' \<subseteq># reactor_wakers p"
      using reactor_live_shutdown unfolding sel by blast
  qed
qed

end

section \<open>On the simulated kernel\<close>

lemma kern_retries: "ring_retries (kern_uring n) (\<lambda>_. True)"
  by (simp add: ring_retries_def kern_uring_def kern_submit_def)

lemma all_modes: "mode_allowed (\<lambda>_. True) = (\<lambda>_. True)"
  by (simp add: mode_allowed_def fun_eq_iff split: park_mode.splits)

interpretation kern_wakes: waking_layer "reactor_ops (seq_env True) (kern_uring n) count_class"
  "reactor_live count_class multi kr_cq kr_owed" reactor_inside "\<lambda>_. True" reactor_wakers reactor_calls for n multi
  using kern_op.reactor_keeps_waking [OF kern_retries] by (simp add: all_modes)

interpretation timer_kern_wakes: waking_layer
  "timer_park_ops (seq_env True) (reactor_ops (seq_env True) (kern_uring n) count_class) sysnow"
  "timer_awake sysnow (reactor_live count_class multi kr_cq kr_owed) reactor_inside" timer_inside "\<lambda>_. True"
  "timer_wakers reactor_wakers" "timer_calls reactor_calls" for n multi sysnow
  by (rule timer_keeps_waking [OF linked_list_seq_env kern_wakes.waking_layer_axioms])

end
