(* ===== verification/Waking_Properties.thy ===== *)
theory Waking_Properties
  imports Waking_Reactor Runtime_Properties
begin

text \<open>
  The properties of the executor on the layers below it: the whole never faults, a timer that expires wakes
  the task that waits for it; and how a pending timer turns a park that must not block into a wait, and a timed
  wait that the kernel reports as an error into a panic.
\<close>

section \<open>A program on the timer\<close>

text \<open>
  One task that has gone to sleep for 5 seconds: its waker, which user code took and gave away, is in the wheel. The time
  is 6 seconds.
\<close>

definition sleeper_wheel :: wheels where
  "sleeper_wheel = wheel_two\<lparr>wh_sleeps := [0 \<mapsto> \<lparr> sl_entry = entry_new\<lparr>en_state := Registered, en_deadline := 5000, en_waker := Some 1\<rparr>,
     sl_duration = 5000000000 \<rparr>]\<rparr>"

definition sleeper_timer :: "bool timer_driver" where
  "sleeper_timer = \<lparr> td_wheels = sleeper_wheel, td_inner = False,
     td_clock = \<lparr> ck_start = 0, ck_time = Simulated 6000000000 \<rparr>, td_context = None \<rparr>"

definition sleeper_world :: "bool timer_driver running" where
  "sleeper_world = executor.extend (world_of [Spawn, Run_Next, Clone_Waker 0, Poll_End Out_Pending]) (running.fields sleeper_timer)"

text \<open>Its tasks complete when they are polled again, its root future is ready.\<close>

definition sleeper_task :: "bool timer_driver running \<Rightarrow> (fault + bool timer_driver running) option" where
  "sleeper_task w = (case script_task [Poll_End (Out_Ready 0), Drop_End] w of
     Some (Inr w') \<Rightarrow> if mc_held (ex_machine w') = mc_held (ex_machine w) then Some (Inr w') else None
   | r \<Rightarrow> None)"

definition sleeper_code :: "bool timer_driver running user_code" where
  "sleeper_code = \<lparr> us_root = (\<lambda>w. Some (Inr (Some 7, w))), us_task = sleeper_task \<rparr>"

abbreviation sleeper_ops :: "bool timer_driver park_ops" where
  "sleeper_ops \<equiv> timer_park_ops (seq_env True) spin_ops 0"

lemma sleeper_sleeps:
  "wh_sleeps sleeper_wheel = [0 \<mapsto> \<lparr> sl_entry = entry_new\<lparr>en_state := Registered, en_deadline := 5000, en_waker := Some 1\<rparr>,
     sl_duration = 5000000000 \<rparr>]"
  by (simp add: sleeper_wheel_def)

lemma sleeper_wheel_simps [simp]:
  "wh_elapsed sleeper_wheel = 0" "wh_shutdown sleeper_wheel = False" "wh_levels sleeper_wheel = wh_levels wheel_two"
  using wheel_two_spec by (simp_all add: sleeper_wheel_def)

lemma sleeper_timers: "timers (wh_sleeps sleeper_wheel) = [0 \<mapsto> 5000]"
  by (simp add: sleeper_sleeps timers_def fun_eq_iff)

lemma sleeper_wheel_ok: "wheels_ok sleeper_wheel"
proof -
  have inv: "wheels_inv {} wheel_two" and e: "wh_elapsed wheel_two = 0" using wheel_two_spec by (simp_all add: wheels_ok_def)
  have "wheels_inv {} sleeper_wheel"
    by (rule wheels_inv_frame [OF inv]) (simp_all add: e, simp only: sleeper_timers wheel_two_timers)
  then show ?thesis by (simp add: wheels_ok_def)
qed

lemma sleeper_tick: "clock_tick 0 (td_clock sleeper_timer) = Inr 6000"
  by (simp add: sleeper_timer_def clock_tick_def clock_now_def instant_to_tick_def instant_limit_def)

lemma sleeper_awake: "timer_awake 0 (\<lambda>_. True) (\<lambda>p. p) sleeper_timer"
  using sleeper_tick sleeper_wheel_ok
  by (simp add: timer_awake_def timer_ok_def timer_ready_def sleeper_timer_def room_def)

lemma sleeper_wakers: "timer_wakers (\<lambda>_. {#}) sleeper_timer = {#1#}"
proof -
  have "{i. timers (wh_sleeps sleeper_wheel) i \<noteq> None} = {0}" by (auto simp: sleeper_timers split: if_splits)
  then show ?thesis by (simp add: timer_wakers_def wheel_wakers_def sleeper_timer_def wakers_of_def fire_entry_def sleeper_sleeps)
qed

lemma sleeper_world_simps [simp]:
  "rn_layer sleeper_world = sleeper_timer" "ex_ctx sleeper_world = None"
  "ex_machine sleeper_world = ex_machine (world_of [Spawn, Run_Next, Clone_Waker 0, Poll_End Out_Pending])"
  "rt_refs (ex_root sleeper_world) = 2" "is_notified sleeper_world = True"
  by (simp_all add: sleeper_world_def executor.defs running.defs world_of_def harness_new_def is_notified_def)

lemma sleeper_idle: "idle (seq_env True) 1 sleeper_world"
proof -
  have "stack (mc_sys (ex_machine (world_of [Spawn, Run_Next, Clone_Waker 0, Poll_End Out_Pending]))) = []"
    "roomy (mc_sys (ex_machine (world_of [Spawn, Run_Next, Clone_Waker 0, Poll_End Out_Pending])))" by code_simp+
  then show ?thesis using world_reachable by (simp add: idle_def ex_sys_def)
qed

lemma sleeper_held: "mc_held (ex_machine sleeper_world) = [0]"
  unfolding sleeper_world_simps by code_simp

lemma sleeper_pays: "user_pays (seq_env True) 1 (paid (timer_awake 0 (\<lambda>_. True) (\<lambda>p. p)) timer_inside (timer_wakers (\<lambda>_. {#}))) sleeper_code"
  unfolding user_pays_def
proof (intro conjI allI impI; elim conjE)
  fix w r
  assume j: "paid (timer_awake 0 (\<lambda>_. True) (\<lambda>p. p)) timer_inside (timer_wakers (\<lambda>_. {#})) w" and run: "us_task sleeper_code w = Some r"
  obtain m where m: "exec_all (seq_env True) 1 [Poll_End (Out_Ready 0), Drop_End] (ex_machine w) = Some m"
    "stack (mc_sys m) = []" "roomy (mc_sys m)" "r = Inr (w\<lparr>ex_machine := m\<rparr>)" "mc_held m = mc_held (ex_machine w)"
    using run by (auto simp: sleeper_code_def sleeper_task_def script_task_def split: option.splits sum.splits if_splits)
  have "user_step (seq_env True) 1 w (w\<lparr>ex_machine := m\<rparr>)"
    using m(1-3) unfolding user_step_def ex_sys_def by (intro conjI exI [of _ "[Poll_End (Out_Ready 0), Drop_End]"]) simp_all
  moreover have "paid (timer_awake 0 (\<lambda>_. True) (\<lambda>p. p)) timer_inside (timer_wakers (\<lambda>_. {#})) (w\<lparr>ex_machine := m\<rparr>)"
    using j m(5) by (simp add: paid_def purse_def)
  ultimately show "\<exists>w'. r = Inr w' \<and> user_step (seq_env True) 1 w w' \<and>
      paid (timer_awake 0 (\<lambda>_. True) (\<lambda>p. p)) timer_inside (timer_wakers (\<lambda>_. {#})) w'" using m(4) by blast
qed (auto simp: sleeper_code_def intro: user_step_refl)

section \<open>The whole is safe\<close>



section \<open>A timer that expires wakes its task\<close>

text \<open>A woken root future is polled next; a woken task is in the run queue, unless it is complete or freed.\<close>

definition will_run :: "nat \<Rightarrow> 'b executor_scheme \<Rightarrow> bool" where
  "will_run x w \<longleftrightarrow> (case x of 0 \<Rightarrow> is_notified w
     | Suc t \<Rightarrow> (case task_at t (ex_sys w) of Inl _ \<Rightarrow> True | Inr k \<Rightarrow> contains COMPLETE (tk_state k) \<or> t \<in> set (runq (ex_sys w))))"

lemma woken_will_run:
  assumes C: "linked_list C" and w: "idle C th w" and x: "has_woken x w"
  shows "will_run x w"
proof (cases x)
  case 0
  then show ?thesis using x by (simp add: will_run_def has_woken_def)
next
  case (Suc t)
  have inv: "minv th (ex_machine w)" and st: "stack (mc_sys (ex_machine w)) = []"
    using reachable_minv [OF C] w by (auto simp: idle_def ex_sys_def)
  show ?thesis
  proof (cases "task_at t (ex_sys w)")
    case (Inr k)
    then have k: "task_at t (mc_sys (ex_machine w)) = Inr k" by (simp add: ex_sys_def)
    have "frames_of t (mc_sys (ex_machine w)) = []" using st by (simp add: frames_of_def)
    then have "\<not> contains RUNNING (tk_state k)" using minv_task(1) [OF inv k] by (auto simp: task_ok_def Let_def)
    then have "contains COMPLETE (tk_state k) \<or> t \<in> set (runq (mc_sys (ex_machine w)))"
      using minv_task(2) [OF inv k] x Suc Inr by (auto simp: has_woken_def)
    then show ?thesis using Suc Inr by (simp add: will_run_def ex_sys_def)
  qed (simp add: will_run_def Suc)
qed

lemma due_fired:
  assumes ff: "fired_from c w0 js w" and i: "i \<in> set js" and sl: "wh_sleeps w0 i = Some sl" and x: "en_waker (sl_entry sl) = Some x"
  shows "x \<in> set (log_since (wh_woken w0) (wh_woken w))"
proof -
  have "x \<in> set (wakers_of (wh_sleeps w0) i)" using sl x by (simp add: wakers_of_def fire_entry_def)
  then show ?thesis using ff i by (auto simp: fired_from_def)
qed

lemma timer_park_wheels:
  "timer_park C L sysnow m d = Some (Inr (x, d')) \<Longrightarrow> clock_tick sysnow (td_clock d) = Inr t \<Longrightarrow>
    advance C t (td_wheels d) = Some (Inr (fired, nxt, w)) \<Longrightarrow> td_wheels d' = w"
  by (auto simp: timer_park_def run_then_def split: option.splits sum.splits)

text \<open>
  C21: a timer that has expired wakes the future that waits for it: after the executor has parked in a timer that holds a
  waker of an expired sleep, the root future is notified, or the task of the waker is in the run queue (or it is complete or
  freed), on any layer below.
\<close>

theorem expired_timer_wakes:
  assumes "linked_list C" and "waking_layer L ok inside (\<lambda>_. True) reg calls" and "idle C th w"
    and "paid (timer_awake sysnow ok inside) timer_inside (timer_wakers reg) w"
    and "clock_tick sysnow (td_clock (rn_layer w)) = Inr now" and "wh_sleeps (td_wheels (rn_layer w)) i = Some sl"
    and "timers (wh_sleeps (td_wheels (rn_layer w))) i = Some e" and "e \<le> unat now" and "en_waker (sl_entry sl) = Some x"
    and "world_park th (timer_park_ops C L sysnow) (timer_calls calls) m w = Some r"
  shows "\<exists>w'. r = Inr (Inr (), w') \<and> will_run x w' \<and> x \<in> set (log_since (wh_woken (td_wheels (rn_layer w))) (wh_woken (td_wheels (rn_layer w'))))"
proof -
  let ?d = "rn_layer w"
  obtain w' where w': "r = Inr (Inr (), w')" "pk_park (timer_park_ops C L sysnow) m ?d = Some (Inr (Inr (), rn_layer w'))"
    "called C th 2 (timer_calls calls ?d (rn_layer w')) (w\<lparr>rn_layer := rn_layer w'\<rparr>) w'"
    using waking_layer.world_park_calls [OF timer_keeps_waking [OF assms(1,2)] assms(1,3,4) TrueI assms(10)] by blast
  have ok: "wheels_ok (td_wheels ?d)" "wh_elapsed (td_wheels ?d) \<le> now" "room now"
    using assms(4,5) by (auto simp: paid_def timer_awake_def timer_ok_def timer_ready_def)
  obtain fired nxt w1 js where adv: "advance C now (td_wheels ?d) = Some (Inr (fired, nxt, w1))"
    "fired_from (Inr ()) (td_wheels ?d) js w1" "set js = due now (wh_sleeps (td_wheels ?d))"
    using advance_correct [OF assms(1) ok] by (auto simp: advance_result_def)
  have "i \<in> set js" using adv(3) assms(7,8) by (auto simp: due_def)
  then have "x \<in> set (log_since (wh_woken (td_wheels ?d)) (wh_woken w1))" using due_fired [OF adv(2) _ assms(6,9)] by blast
  moreover have "td_wheels (rn_layer w') = w1"
    using timer_park_wheels [OF _ assms(5) adv(1)] w'(2) by (simp add: timer_park_ops_def)
  ultimately have l: "x \<in> set (log_since (wh_woken (td_wheels ?d)) (wh_woken (td_wheels (rn_layer w'))))" by simp
  then have "x \<in> set (timer_calls calls ?d (rn_layer w'))" by (simp add: timer_calls_def)
  then have hw: "has_woken x w'" using w'(3) by (simp add: called_def)
  have re: "reachable C th (ex_machine (w\<lparr>rn_layer := rn_layer w'\<rparr>))" using assms(3) by (simp add: idle_def)
  have "user_step C th (w\<lparr>rn_layer := rn_layer w'\<rparr>) w'" using w'(3) by (simp add: called_def)
  from woken_will_run [OF assms(1) user_step_idle [OF re this] hw] show ?thesis using w'(1) l by blast
qed

definition sleeper_inside :: "bool timer_driver running" where
  "sleeper_inside = sleeper_world\<lparr>rn_layer := sleeper_timer\<lparr>td_inner := True, td_context := Some ()\<rparr>, ex_ctx := Some ()\<rparr>"

theorem expired_timer_wakes_witness:
  "\<exists>w'. world_park 1 sleeper_ops (timer_calls (\<lambda>_ _. [])) NextCompletion sleeper_inside = Some (Inr (Inr (), w')) \<and> will_run 1 w'"
proof -
  have lay: "waking_layer spin_ops (\<lambda>_. True) (\<lambda>p. p) (\<lambda>_. True) (\<lambda>_. {#}) (\<lambda>_ _. [])" by (rule spin_wakes.waking_layer_axioms)
  have i: "idle (seq_env True) 1 sleeper_inside" using sleeper_idle by (simp add: sleeper_inside_def idle_def ex_sys_def)
  have l: "rn_layer sleeper_inside = sleeper_timer\<lparr>td_inner := True, td_context := Some ()\<rparr>" by (simp add: sleeper_inside_def)
  have held: "mc_held (ex_machine sleeper_inside) = [0]" using sleeper_held by (simp add: sleeper_inside_def)
  have rg: "timer_wakers (\<lambda>_. {#}) (rn_layer sleeper_inside) = {#1#}" using sleeper_wakers by (simp add: l timer_wakers_def)
  have p: "paid (timer_awake 0 (\<lambda>_. True) (\<lambda>p. p)) timer_inside (timer_wakers (\<lambda>_. {#})) sleeper_inside"
    unfolding paid_def rg using sleeper_awake
    by (simp add: purse_def held) (simp add: l timer_awake_def timer_ok_def timer_ready_def timer_inside_def sleeper_inside_def)
  have t: "clock_tick 0 (td_clock (rn_layer sleeper_inside)) = Inr 6000" using sleeper_tick by (simp add: l)
  have wh: "td_wheels (rn_layer sleeper_inside) = sleeper_wheel" by (simp add: l sleeper_timer_def)
  obtain fired nxt w1 where "advance (seq_env True) 6000 sleeper_wheel = Some (Inr (fired, nxt, w1))"
    using advance_correct [OF linked_list_seq_env sleeper_wheel_ok, of 6000 True] by (auto simp: room_def)
  then have "\<exists>r. world_park 1 sleeper_ops (timer_calls (\<lambda>_ _. [])) NextCompletion sleeper_inside = Some r"
    using t wh by (simp add: world_park_def timer_park_ops_def timer_park_def spin_ops_def spin_park_def run_then_def split: sum.splits)
  then obtain r where r: "world_park 1 sleeper_ops (timer_calls (\<lambda>_ _. [])) NextCompletion sleeper_inside = Some r" by blast
  from expired_timer_wakes [OF linked_list_seq_env lay i p t _ _ _ _ r, of 0 _ 5000 1] wh r show ?thesis
    by (auto simp: sleeper_sleeps timers_def)
qed

section \<open>A park that must not block\<close>



section \<open>A timed wait that expires\<close>

text \<open>What preparing a park leaves alone.\<close>

lemma prepare_park_frame:
  assumes "prepare_park U s = (b, s')"
  shows "dr_ops s' = dr_ops s \<and> dr_backpressure s' = dr_backpressure s"
  using assms by (auto simp: prepare_park_def try_push_raw_def Let_def split: if_splits prod.splits option.splits)

text \<open>
  C40: on a kernel that reports the end of a timed wait as an error - as Linux does, with \<open>ETIME\<close>, if nothing was submitted - the
  executor panics when it waits for a timer: \<open>Driver::park\<close> of the reactor only expects \<open>EBUSY\<close> and \<open>EINTR\<close>, the timer hands
  the error on and \<open>block_on\<close> unwraps it.
\<close>

theorem timed_wait_panics:
  assumes "linked_list C" and "timer_ready sysnow (rn_layer w)" and "clock_tick sysnow (td_clock (rn_layer w)) = Inr now"
    and "due now (wh_sleeps (td_wheels (rn_layer w))) = {}" and "timers (wh_sleeps (td_wheels (rn_layer w))) i = Some e"
    and "re_driver (td_inner (rn_layer w)) = s" and "ur_cq_len U (dr_ring s) = 0" and "ur_cq_fill U 32 (dr_ring s) = ([], k)"
    and "prepare_park U (s\<lparr>dr_ring := k\<rparr>) = (True, s')"
    and "\<And>t. fst (ur_submit_args U 1 (Some t) (dr_ring s')) = Inl err" and "err \<notin> {ur_ebusy U, ur_eintr U}"
  shows "executor_park (world_ops th (timer_park_ops C (reactor_ops C U T) sysnow) (timer_calls reactor_calls)) w = Some (Inl Panic)"
proof -
  let ?d = "rn_layer w" and ?R = "reactor_ops C U T" and ?m = "if is_notified w then NoPark else NextCompletion"
  have ok: "wheels_ok (td_wheels ?d)" "wh_elapsed (td_wheels ?d) \<le> now" "room now" using assms(2,3) by (auto simp: timer_ready_def)
  obtain fired nxt w1 js where adv: "advance C now (td_wheels ?d) = Some (Inr (fired, nxt, w1))"
    "fired_from (Inr ()) (td_wheels ?d) js w1" "set js = {}" "wh_elapsed w1 = now" "next_deadline_ok w1 nxt" "fired = length js"
    using advance_correct [OF assms(1) ok] assms(4) by (auto simp: advance_result_def)
  have js: "js = []" using adv(3) by simp
  then have w1: "wh_woken w1 = wh_woken (td_wheels ?d)" and tm: "timers (wh_sleeps w1) i = Some e"
    using adv(2) timers_fired_from [OF adv(2), of i] assms(5) by (simp_all add: fired_from_def)
  obtain x where x: "timer_park_mode now fired nxt ?m = Timeout x"
    using timer_park_mode_bound [OF adv(5,4) tm] by blast
  let ?s = "s\<lparr>dr_ring := k\<rparr>"
  obtain k' where k': "ur_submit_args U 1 (Some (x div 1000000000, x mod 1000000000)) (dr_ring s') = (Inl err, k')"
    using assms(10) by (metis prod.collapse)
  have dr: "driver_drain C U T s = Some (Inr (0, ?s))"
    using assms(7,8) by (simp add: driver_drain_def drain_loop.simps [of _ _ _ 0] drain_fill_def)
  have "driver_submit C U (Timeout x) ?s = Some (Inr (Inl (Os_Error err), s'\<lparr>dr_ring := k'\<rparr>))"
    using assms(9) k' by (simp add: driver_submit_def shared_submit_def)
  then have "park_loop C U T (Timeout x) ?s = Some (Inr (Inl (Os_Error err), s'\<lparr>dr_ring := k'\<rparr>))"
    using assms(11) by (subst park_loop.simps) simp
  then have "driver_park C U T (Timeout x) s = Some (Inr (Inl (Os_Error err), s'\<lparr>dr_ring := k'\<rparr>))"
    using dr by (simp add: driver_park_def)
  then have "pk_park ?R (Timeout x) (td_inner ?d) = Some (Inr (Inl (Os_Error err), (td_inner ?d)\<lparr>re_driver := s'\<lparr>dr_ring := k'\<rparr>\<rparr>))"
    using assms(6) by (simp add: reactor_ops_def reactor_park_def)
  then have tp: "timer_park C ?R sysnow ?m ?d = Some (Inr (Inl (Os_Error err),
      ?d\<lparr>td_wheels := w1, td_inner := (td_inner ?d)\<lparr>re_driver := s'\<lparr>dr_ring := k'\<rparr>\<rparr>\<rparr>))"
    using assms(3) adv(1) x by (simp add: timer_park_def)
  have "dr_ops s' = dr_ops s" "dr_backpressure s' = dr_backpressure s" using prepare_park_frame [OF assms(9)] by simp_all
  then have "timer_calls reactor_calls ?d (?d\<lparr>td_wheels := w1, td_inner := (td_inner ?d)\<lparr>re_driver := s'\<lparr>dr_ring := k'\<rparr>\<rparr>\<rparr>) = []"
    using w1 assms(6) by (simp add: timer_calls_def reactor_calls_def driver_calls_def log_since_def)
  then show ?thesis using tp
    by (simp add: executor_park_def world_ops_def world_park_def timer_park_ops_def)
qed

text \<open>The simulated ring with a clock: a wait with a timeout ends with \<open>ETIME\<close>, which is 62.\<close>

definition etime_uring :: "sim_ring uring" where
  "etime_uring = (sim_uring 4)\<lparr>ur_submit_args := (\<lambda>n t k. case t of None \<Rightarrow> sim_submit k | Some _ \<Rightarrow> (Inl 62, k))\<rparr>"

definition etime_world :: "(sim_ring, nat) reactor timer_driver running" where
  "etime_world = executor.extend (world_of []) (running.fields
     \<lparr> td_wheels = sleeper_wheel, td_inner = \<lparr> re_driver = driver_new (seq_env True) \<lparr> sim_sq = [], sim_cq = [] \<rparr>, re_context = Some () \<rparr>,
       td_clock = clock_simulated 0, td_context = Some () \<rparr>)"

theorem timed_wait_panics_witness:
  "executor_park (world_ops 1 (timer_park_ops (seq_env True) (reactor_ops (seq_env True) etime_uring count_class) 0)
     (timer_calls reactor_calls)) etime_world = Some (Inl Panic)"
proof -
  let ?s = "driver_new (seq_env True) \<lparr> sim_sq = [], sim_cq = [] \<rparr> :: (sim_ring, nat) driver"
  have l: "td_wheels (rn_layer etime_world) = sleeper_wheel" "td_clock (rn_layer etime_world) = clock_simulated 0"
    "re_driver (td_inner (rn_layer etime_world)) = ?s"
    by (simp_all add: etime_world_def executor.defs running.defs)
  have t: "clock_tick 0 (td_clock (rn_layer etime_world)) = Inr 0" using demo_ready(2) by (simp add: l)
  have r: "timer_ready 0 (rn_layer etime_world)" using sleeper_wheel_ok demo_ready(2) by (simp add: timer_ready_def l room_def)
  have "due 0 (wh_sleeps sleeper_wheel) = {}" by (auto simp: due_def sleeper_timers split: if_splits)
  then have d: "due 0 (wh_sleeps (td_wheels (rn_layer etime_world))) = {}" by (simp add: l)
  have m: "timers (wh_sleeps (td_wheels (rn_layer etime_world))) 0 = Some 5000" by (simp add: l sleeper_timers)
  have q: "ur_cq_len etime_uring (dr_ring ?s) = 0" "ur_cq_fill etime_uring 32 (dr_ring ?s) = ([], \<lparr> sim_sq = [], sim_cq = [] \<rparr>)"
    by (simp_all add: etime_uring_def sim_uring_def driver_new_def)
  have p: "prepare_park etime_uring (?s\<lparr>dr_ring := \<lparr> sim_sq = [], sim_cq = [] \<rparr>\<rparr>) =
      (True, ?s\<lparr>dr_unparker := 1, dr_ring := \<lparr> sim_sq = [event_read], sim_cq = [] \<rparr>\<rparr>)"
    by (subst prepare_park_decision) (simp_all add: driver_new_def etime_uring_def sim_uring_def flag_values)
  have e: "fst (ur_submit_args etime_uring 1 (Some t) (dr_ring (?s\<lparr>dr_unparker := 1, dr_ring := \<lparr> sim_sq = [event_read], sim_cq = [] \<rparr>\<rparr>))) = Inl 62" for t
    by (simp add: etime_uring_def)
  have "62 \<notin> {ur_ebusy etime_uring, ur_eintr etime_uring}" by (simp add: etime_uring_def sim_uring_def)
  from timed_wait_panics [OF linked_list_seq_env r t d m l(3) q p e this] show ?thesis .
qed

end
