(* ===== verification/Spec2Isabelle.thy ===== *)
theory Spec2Isabelle
  imports Timer_Properties Task_Properties Ring_Properties Executor_Properties PollSet Net_Properties Stream_Properties
    Runtime_Properties Reactor_Properties Await_Properties Waking_Properties
begin

text \<open>
  Norn, a single-threaded asynchronous runtime on \<open>io_uring\<close>: a verification development for the crates
  \<open>norn-task\<close>, \<open>norn-executor\<close>, \<open>norn-timer\<close>, \<open>norn-uring\<close> and \<open>norn-util\<close> under \<open>src/\<close>.

  \<^bold>\<open>The program.\<close> An executor (\<open>norn-executor\<close>) polls a root future and the spawned tasks
  (\<open>norn-task\<close>), and when there is nothing to run parks the layer below it. A layer is anything with the trait \<open>Park\<close>:
  the timer (\<open>norn-timer\<close>) advances its wheel to the clock and parks its own lower layer no longer than to
  the next deadline; the reactor (\<open>norn-uring\<close>) submits the queued requests to the kernel, waits, and hands the
  completions to the operations that wait for them, whose wakers put tasks back into the run queue. Files,
  sockets, buffers and descriptors are requests to the reactor.

  \<^bold>\<open>How the code is modelled.\<close> State is explicit: an operation takes the state it mutates and returns the new one.
  A normal return is \<open>Inr\<close>, a failure is \<open>Inl\<close> of a \<open>fault\<close>: a panic, an abort, or the use of freed memory. Every
  \<open>assert!\<close>, \<open>unwrap\<close>, \<open>RefCell\<close> borrow and index is a branch; \<open>debug_assert!\<close> and arithmetic depend on the build,
  a field of the record \<open>env\<close>. An \<open>io::Result\<close> is a sum with \<open>io_error\<close> inside the normal return. Integers have the width
  of the code (\<open>u8\<close> to \<open>u64\<close>, \<open>usize\<close> 64 bits). Heap cells are maps from addresses to records; a cell that is freed
  is removed. Wakers are numbers, and a list keeps which were called; \<open>Waking\<close> hands the calls on to the executor. A loop that may not end is a \<open>partial_function\<close>
  into an option, and that it ends is a theorem where the code promises it; there is no fuel anywhere.
  What is not under \<open>src/\<close> is an argument: the intrusive list of \<open>cordyceps\<close> (locale \<open>linked_list\<close>), the rings and the
  kernel (record \<open>uring\<close>, locales \<open>io_ring\<close> and \<open>io_kernel\<close>), the calls of \<open>socket2\<close>, the constants of \<open>libc\<close>, socket addresses, the buffer traits' foreign
  implementations, the reading of the system clock, the allocator's choice of addresses, and the user's futures.

  \<^bold>\<open>The theories.\<close>
  \<^item> \<open>Prelude\<close>, \<open>Rust_Int\<close>, \<open>Intrusive_List\<close>: faults and their sequencing, loops, integers, the list interface.
  \<^item> Timer: \<open>Timer_Level\<close> (\<open>level.rs\<close>), \<open>Timer_Wheels\<close> (\<open>wheels.rs\<close>), \<open>Timer_Entry\<close> and \<open>Timer_Sleep\<close> (\<open>entry.rs\<close>, \<open>error.rs\<close>),
    \<open>Timer_Driver\<close> (\<open>clock.rs\<close>, \<open>context.rs\<close>, \<open>lib.rs\<close>). \<open>Timer_Arith\<close>, \<open>Timer_Inv\<close>, \<open>Timer_Fire\<close> and \<open>Timer_Advance\<close> hold the
    arithmetic of base-64 digits, the invariant (the slots hold exactly the registered entries, where their deadlines put
    them, and the bits agree) and its preservation; the abstract state is the map \<open>timers\<close> from entries to deadlines.
    \<open>Timer_Properties\<close>: advancing fires exactly what is due, the next deadline is never late, shutdown fires all, no handle dangles.
  \<^item> Tasks: \<open>Task_State\<close> (\<open>state.rs\<close>), \<open>Task_System\<close> (\<open>task_cell.rs\<close>, \<open>header.rs\<close>, \<open>future_cell.rs\<close>, \<open>util.rs\<close>, \<open>tasks.rs\<close>, \<open>taskqueue.rs\<close>,
    \<open>join.rs\<close>, \<open>schedule.rs\<close>). The polls and destructors of user futures are frames of a stack, so that user code may call the
    system in between. \<open>Task_Machine\<close> is the machine of all calls Rust's ownership allows; \<open>Task_Inv\<close> to \<open>Task_Lifecycle\<close> show
    that no call fails and that the reference counts are exact; \<open>Task_Properties\<close> states what follows.
  \<^item> \<open>Executor\<close>, \<open>Executor_Properties\<close> (\<open>norn-executor/src/lib.rs\<close>, \<open>wakerfn.rs\<close>): \<open>block_on\<close>, the root future and the drop, over any
    layer and any user code that keeps the discipline of the task machine.
  \<^item> \<open>Park\<close> (\<open>park/\<close>, \<open>context.rs\<close>): the interface of the layers (locale \<open>park_layer\<close>) and the layers that only block the thread.
    \<open>Runtime\<close>, \<open>Runtime_Properties\<close>: the reactor and the timer on top of any layer as interpretations of that interface, and what they ask of
    any ring (locale \<open>ring_client\<close>). \<open>Driver_Client\<close>: what the driver does, for every assertion its primitive steps keep (locale
    \<open>driver_client\<close>).
  \<^item> The whole: \<open>Waking\<close> puts the executor on a layer that calls wakers (locale \<open>waking_layer\<close>: a layer calls only the wakers it holds, and
    user code gives it only wakers it owns); \<open>Waking_Timer\<close> and \<open>Waking_Reactor\<close> show that the timer on any such layer and the reactor on any kernel
    are such layers; \<open>Waking_Properties\<close>: \<open>block_on\<close> never faults on them, and a timer that expires wakes its task.
  \<^item> \<open>PollSet\<close> (\<open>norn-util/src/pollset.rs\<close>): the set that polls its tasks within one task; its queue and the executor's are the
    interpretations of one interface.
  \<^item> Reactor: \<open>Notify\<close> (\<open>util/notify.rs\<close>), \<open>Unpark\<close> (\<open>driver/unpark.rs\<close>, with the interleavings of remote threads and the kernel),
    \<open>Operation\<close> (\<open>operation/\<close>), \<open>Operation_Life\<close> (its callers and the kernel as a machine), \<open>Ring_Driver\<close> (\<open>driver/\<close>),
    \<open>Ring_Spec\<close> (what the driver does to the queues, and a simulated ring for the instances), \<open>Ring_Properties\<close>. \<open>Reactor\<close>: the driver with
    all its callers as a machine over any kernel that answers what it was given (locales \<open>io_kernel\<close>, \<open>io_reactor\<close>); \<open>Reactor_Properties\<close>: it
    never faults, and it runs the machine of \<open>Operation_Life\<close>.
  \<^item> Requests: \<open>Fd\<close> (\<open>fd.rs\<close>), \<open>Buf_Ring\<close> (\<open>bufring.rs\<close>), \<open>Buffers\<close> (\<open>buf.rs\<close>), \<open>Requests\<close>, \<open>Fs_Requests\<close> (\<open>fs/\<close>, \<open>util/mod.rs\<close>),
    \<open>Net_Requests\<close> (\<open>net/socket.rs\<close>, \<open>udp.rs\<close>, \<open>tcp.rs\<close>), \<open>Ready_Stream\<close> (the streams of \<open>tcp.rs\<close> on the driver). A request is a record of its
    data with the functions \<open>configure\<close>, \<open>cleanup\<close>, \<open>complete\<close> and \<open>update\<close> of its \<open>Operation\<close>; a class of operations
    bundles them for the driver. \<open>Await_Requests\<close>, \<open>Await_Net\<close>: the asynchronous functions that create a request and await it, and the calls of
    \<open>socket2\<close>; \<open>Await_Properties\<close>: what such a function does from its first poll to its result. \<open>Net_Properties\<close> and \<open>Stream_Properties\<close>: what becomes of requests that are dropped, that a
    pending stream has left its waker.

  \<^bold>\<open>Bounds.\<close> Timers: the ticks stay \<open>2 ^ 37\<close> below \<open>2 ^ 64\<close> (\<open>room\<close>), a level-5 slot; the sums of the clock are below the limits of \<open>Instant\<close>
    and \<open>Duration\<close>, else they panic as in the code. Reference counts: a call that clones needs a count below its maximum
    (\<open>roomy\<close>), else the code panics. Notifications: fewer than \<open>2 ^ 64\<close> waiters.

  \<^bold>\<open>Where the code is not what it means to be.\<close> The theorems also state the behaviour of these places: resetting a
    registered \<open>Sleep\<close>; two tasks that wait for each other leak; spawning from a destructor during the shutdown; parking with tasks to run,
    and a task that starves the rest; the eventfd read that is not armed, and the wake that comes before the first park;
    a wait that starts anew after every signal; a pending timer that makes a park block that must not, and a timed wait whose end the kernel
    reports as an error; the close request pushed twice; completions of a multishot operation delivered last first;
    a failed close, a failed registration of a buffer ring, a cursor past the end; a dropped \<open>connect\<close> that closes descriptor 0;
    a receive into a ring on a connected socket; \<open>remove_dir\<close> and \<open>create\<close> without their flags and mode.

  \<^bold>\<open>Not modelled.\<close> \<open>Debug\<close> and \<open>Display\<close>, logging, module declarations and conversions of errors; the mapping of anonymous memory, whose
    address is an argument; the unwinding of a panic in user code beyond the result the task keeps; the memory a completed operation
    reads and writes, of which only the regions are modelled; the values futures compute, which are numbers; tests, benchmarks and \<open>hack\<close>.
    In \<open>Waking\<close> the wakers a layer calls while it parks are called when it returns, which the layer cannot tell; the drop of the executor over such
    layers is modelled (\<open>world_shutdown\<close>), but that it never faults is stated only for layers that do not call wakers.
\<close>

end
